(* ===== verification/Uros_Prelude.thy ===== *)
theory Uros_Prelude
  imports Main "HOL-Library.Word" "HOL-Library.Monad_Syntax"
begin

text \<open>
  Shared vocabulary of the development: the fixed-width integers of the C sources, the
  pointers and port names, the collections of simplification rules the component theories
  extend, and the generic facts about lists, options and words that their proofs share.
\<close>

unbundle bit_operations_syntax

section \<open>Types\<close>

type_synonym u8 = "8 word"
type_synonym u16 = "16 word"
type_synonym u32 = "32 word"
type_synonym u64 = "64 word"
type_synonym byte = "8 word"

text \<open>Mach port names (\<^verbatim>\<open>mach_port_t\<close>, a 32-bit natural on i386); 0 is \<^verbatim>\<open>MACH_PORT_NULL\<close>.\<close>

type_synonym mach_port = "32 word"

abbreviation (input) MACH_PORT_NULL :: mach_port where
  "MACH_PORT_NULL \<equiv> 0"

text \<open>Return codes of kernel calls (\<^verbatim>\<open>kern_return_t\<close>); 0 is \<^verbatim>\<open>KERN_SUCCESS\<close>.\<close>

type_synonym kern_return = int

abbreviation (input) KERN_SUCCESS :: kern_return where
  "KERN_SUCCESS \<equiv> 0"

section \<open>Collections\<close>

named_theorems model_simps \<open>defining equations of small helpers of the model\<close>
named_theorems inv_intros \<open>introduction rules for component invariants\<close>
named_theorems frame_simps \<open>what an operation leaves unchanged\<close>

section \<open>Scanning arrays\<close>

text \<open>
  The sources search fixed arrays with \<^verbatim>\<open>for (i = 0; i < n; i++) if (P(a[i])) ...\<close>.
  \<open>scan P xs\<close> is the index such a loop stops at, \<open>None\<close> when it runs to the end.
\<close>

fun scan :: "('a \<Rightarrow> bool) \<Rightarrow> 'a list \<Rightarrow> nat option" where
  "scan P [] = None"
| "scan P (x # xs) = (if P x then Some 0 else map_option Suc (scan P xs))"

lemma scan_Some:
  "scan P xs = Some i \<longleftrightarrow> i < length xs \<and> P (xs ! i) \<and> (\<forall>j < i. \<not> P (xs ! j))"
proof (induction xs arbitrary: i)
  case Nil
  then show ?case by simp
next
  case (Cons x xs)
  then show ?case
    by (cases i) (auto simp: less_Suc_eq_0_disj)
qed

lemma scan_None: "scan P xs = None \<longleftrightarrow> (\<forall>x \<in> set xs. \<not> P x)"
  by (induction xs) auto

lemma scan_SomeD:
  assumes "scan P xs = Some i"
  shows "i < length xs" "P (xs ! i)"
  using assms by (simp_all add: scan_Some)

lemma scan_Some_in: "scan P xs = Some i \<Longrightarrow> xs ! i \<in> set xs"
  by (simp add: scan_Some)

lemma scan_cong: "(\<And>x. x \<in> set xs \<Longrightarrow> P x = Q x) \<Longrightarrow> scan P xs = scan Q xs"
  by (induction xs) auto

text \<open>An array in which at most one element satisfies \<open>P\<close>: the scan finds exactly that one.\<close>

lemma scan_unique:
  assumes "i < length xs" and "P (xs ! i)"
    and "\<And>j. j < length xs \<Longrightarrow> P (xs ! j) \<Longrightarrow> j = i"
  shows "scan P xs = Some i"
  unfolding scan_Some using assms less_trans by blast

text \<open>A search does not see an update that leaves its predicate alone.\<close>

lemma scan_update_cong: "P x = P (xs ! i) \<Longrightarrow> scan P (xs[i := x]) = scan P xs"
proof (induction xs arbitrary: i)
  case Nil
  then show ?case by simp
next
  case (Cons y ys)
  then show ?case by (cases i) auto
qed

lemma scan_append: "scan P (xs @ ys) =
  (case scan P xs of Some i \<Rightarrow> Some i | None \<Rightarrow> map_option (\<lambda>i. length xs + i) (scan P ys))"
proof (induction xs)
  case Nil
  then show ?case by (cases "scan P ys") simp_all
next
  case (Cons x xs)
  then show ?case by (cases "scan P ys") (auto split: option.splits)
qed

lemma scan_replicate: "scan P (replicate n x) = (if P x \<and> n > 0 then Some 0 else None)"
  by (induction n) auto

section \<open>Lists updated by index\<close>

lemma filter_length_update:
  assumes "i < length xs"
  shows "length (filter P (xs[i := y])) + (if P (xs ! i) then 1 else 0)
         = length (filter P xs) + (if P y then 1 else 0)"
  using assms
proof (induction xs arbitrary: i)
  case Nil
  then show ?case by simp
next
  case (Cons x xs)
  then show ?case by (cases i) auto
qed

text \<open>Filtering an updated array when the one element that can pass is the updated one.\<close>

lemma filter_update_single:
  assumes "i < length xs" and "filter Q xs = [xs ! i]" and "Q y" and "P y"
    and "\<And>x. P x \<Longrightarrow> Q x"
  shows "filter P (xs[i := y]) = [y]"
  using assms
proof (induction xs arbitrary: i)
  case Nil
  then show ?case by simp
next
  case (Cons x xs)
  show ?case
  proof (cases i)
    case 0
    have "x \<in> set (filter Q (x # xs))" using Cons.prems(2) 0 by (metis list.set_intros(1) nth_Cons_0)
    then have "Q x" by (simp split: if_splits)
    with 0 Cons.prems(2) have "filter Q xs = []" by simp
    then have "filter P xs = []" using Cons.prems(5) by (auto simp: filter_empty_conv)
    with 0 Cons.prems(4) show ?thesis by simp
  next
    case (Suc j)
    show ?thesis
    proof (cases "Q x")
      case True
      with Cons.prems(1,2) Suc have "filter Q xs = []" "Q (xs ! j)" "j < length xs" by auto
      then show ?thesis by (auto simp: filter_empty_conv)
    next
      case False
      then have "\<not> P x" using Cons.prems(5) by blast
      with False Suc Cons.prems Cons.IH [of j] show ?thesis by simp
    qed
  qed
qed

lemma set_update_subset: "set (xs[i := y]) \<subseteq> insert y (set xs)"
  by (rule set_update_subset_insert)

lemma sum_list_update_nat:
  fixes xs :: "'a list" and f :: "'a \<Rightarrow> nat"
  assumes "i < length xs"
  shows "sum_list (map f (xs[i := y])) + f (xs ! i) = sum_list (map f xs) + f y"
  using assms
proof (induction xs arbitrary: i)
  case Nil
  then show ?case by simp
next
  case (Cons x xs)
  show ?case
  proof (cases i)
    case 0
    then show ?thesis by simp
  next
    case (Suc k)
    with Cons.prems have "k < length xs" by simp
    from Cons.IH [OF this] Suc show ?thesis by simp
  qed
qed

section \<open>Words\<close>

text \<open>Masking with \<open>2 ^ n - 1\<close> is a remainder, a logical shift right is a division.\<close>

lemma unat_and_mask_mod: "unat (w AND mask n :: 'a::len word) = unat w mod 2 ^ n"
  unfolding take_bit_eq_mask [symmetric] unsigned_take_bit_eq by (rule take_bit_eq_mod)

lemma unat_drop_bit_div: "unat (drop_bit n w :: 'a::len word) = unat w div 2 ^ n"
  unfolding unat_drop_bit_eq by (rule drop_bit_eq_div)

lemma word_eq_unatI: "unat (a :: 'a::len word) = unat b \<Longrightarrow> a = b"
  by (simp add: word_unat_eq_iff)

text \<open>A counter below its last value does not wrap when it is incremented.\<close>

lemma unat_add_one:
  assumes "(w :: 'a::len word) \<noteq> - 1"
  shows "unat (w + 1) = Suc (unat w)"
proof -
  have "1 + w \<noteq> 0" using assms by (metis add.commute eq_neg_iff_add_eq_0)
  then show ?thesis using unatSuc [of w] by (simp add: add.commute)
qed

text \<open>Joining a multiple of \<open>2 ^ n\<close> with a smaller number by \<^verbatim>\<open>|\<close> is addition.\<close>

lemma or_disjoint_add:
  fixes a b :: nat
  assumes "2 ^ n dvd a" and "b < 2 ^ n"
  shows "a OR b = a + b"
proof -
  from assms(1) obtain q where a: "a = push_bit n q"
    by (metis dvd_def mult.commute push_bit_eq_mult)
  have b: "b = take_bit n b" using assms(2) by (simp add: take_bit_nat_eq_self)
  have "a AND b = 0"
    unfolding a by (subst b) (auto simp: bit_eq_iff bit_simps)
  then show ?thesis by (simp add: disjunctive_add_eq_or)
qed

text \<open>Concatenating sorted segments that come in order.\<close>

lemma sorted_wrt_concat_upt:
  assumes "\<And>s. s < m \<Longrightarrow> sorted_wrt R (f s)"
    and "\<And>s t x y. s < t \<Longrightarrow> t < m \<Longrightarrow> x \<in> set (f s) \<Longrightarrow> y \<in> set (f t) \<Longrightarrow> R x y"
  shows "sorted_wrt R (concat (map f [0..<m]))"
  using assms
proof (induction m)
  case 0
  then show ?case by simp
next
  case (Suc m)
  then have "sorted_wrt R (concat (map f [0..<m]))" by simp
  with Suc.prems show ?case by (auto simp: sorted_wrt_append)
qed

text \<open>A list sorted by an injective-on-keys strict measure is determined by its set.\<close>

lemma sorted_wrt_set_unique:
  fixes f :: "'a \<Rightarrow> nat"
  assumes "sorted_wrt (\<lambda>x y. f x < f y) xs" and "sorted_wrt (\<lambda>x y. f x < f y) ys"
    and "set xs = set ys"
  shows "xs = ys"
  using assms
proof (induction xs arbitrary: ys)
  case Nil
  then show ?case by simp
next
  case (Cons x xs)
  then obtain y zs where ys: "ys = y # zs" by (cases ys) auto
  have "x = y" using Cons.prems unfolding ys by (metis insert_iff less_asym list.simps(15) sorted_wrt.simps(2))
  moreover have "set xs = set zs"
    using Cons.prems \<open>x = y\<close> unfolding ys by (auto simp: set_eq_iff)
  ultimately show ?case using Cons unfolding ys by auto
qed

section \<open>Little-endian memory\<close>

text \<open>The bytes of an integer in memory, and the integer read back from them.\<close>

definition le_bytes :: "u32 \<Rightarrow> byte list" where
  "le_bytes w = [ucast w, ucast (drop_bit 8 w), ucast (drop_bit 16 w), ucast (drop_bit 24 w)]"

definition le_word :: "byte \<Rightarrow> byte \<Rightarrow> byte \<Rightarrow> byte \<Rightarrow> u32" where
  "le_word b0 b1 b2 b3 = ucast b0 OR push_bit 8 (ucast b1) OR push_bit 16 (ucast b2) OR push_bit 24 (ucast b3)"

definition le_bytes16 :: "u16 \<Rightarrow> byte list" where
  "le_bytes16 w = [ucast w, ucast (drop_bit 8 w)]"

definition le_bytes64 :: "u64 \<Rightarrow> byte list" where
  "le_bytes64 w = le_bytes (ucast w) @ le_bytes (ucast (drop_bit 32 w))"

text \<open>Loads at an offset.\<close>

definition load16 :: "byte list \<Rightarrow> nat \<Rightarrow> u16" where
  "load16 m i = ucast (m ! i) OR push_bit 8 (ucast (m ! (i + 1)))"

definition load32 :: "byte list \<Rightarrow> nat \<Rightarrow> u32" where
  "load32 m i = le_word (m ! i) (m ! (i + 1)) (m ! (i + 2)) (m ! (i + 3))"

definition load64 :: "byte list \<Rightarrow> nat \<Rightarrow> u64" where
  "load64 m i = ucast (load32 m i) OR push_bit 32 (ucast (load32 m (i + 4)))"

lemma le_word_le_bytes [simp]:
  "le_word (ucast w) (ucast (drop_bit 8 w)) (ucast (drop_bit 16 w)) (ucast (drop_bit 24 w)) = w"
proof (rule bit_word_eqI)
  fix n :: nat
  assume "n < LENGTH(32)"
  then show "bit (le_word (ucast w) (ucast (drop_bit 8 w)) (ucast (drop_bit 16 w)) (ucast (drop_bit 24 w))) n = bit w n"
    unfolding le_word_def by (cases "n < 16"; cases "n < 24") (auto simp: bit_simps)
qed

lemma le_bytes_le_word: "le_bytes (le_word b0 b1 b2 b3) = [b0, b1, b2, b3]"
  unfolding le_bytes_def le_word_def
  by (simp; intro conjI; rule bit_word_eqI) (auto simp: bit_simps dest: bit_imp_le_length)

lemma length_le_bytes [simp]:
  "length (le_bytes w) = 4" "length (le_bytes16 h) = 2" "length (le_bytes64 x) = 8"
  by (simp_all add: le_bytes_def le_bytes16_def le_bytes64_def)

lemma load16_at: "i = length xs \<Longrightarrow> load16 (xs @ le_bytes16 w @ ys) i = w"
proof -
  assume i: "i = length xs"
  have "load16 (xs @ le_bytes16 w @ ys) i = ucast (ucast w :: byte) OR push_bit 8 (ucast (ucast (drop_bit 8 w) :: byte))"
    using i by (simp add: load16_def le_bytes16_def nth_append)
  also have "\<dots> = w"
  proof (rule bit_word_eqI)
    fix n :: nat
    assume "n < LENGTH(16)"
    then show "bit (ucast (ucast w :: byte) OR push_bit 8 (ucast (ucast (drop_bit 8 w) :: byte)) :: u16) n = bit w n"
      by (cases "n < 8") (auto simp: bit_simps)
  qed
  finally show ?thesis .
qed

lemma load32_at: "i = length xs \<Longrightarrow> load32 (xs @ le_bytes w @ ys) i = w"
  by (simp add: load32_def le_bytes_def nth_append)

lemma load64_at: "i = length xs \<Longrightarrow> load64 (xs @ le_bytes64 w @ ys) i = w"
proof -
  assume i: "i = length xs"
  have "load64 (xs @ le_bytes64 w @ ys) i = ucast (ucast w :: u32) OR push_bit 32 (ucast (ucast (drop_bit 32 w) :: u32))"
    using i load32_at [of i xs "ucast w" "le_bytes (ucast (drop_bit 32 w)) @ ys"]
      load32_at [of "i + 4" "xs @ le_bytes (ucast w)" "ucast (drop_bit 32 w)" ys]
    by (simp add: load64_def le_bytes64_def)
  also have "\<dots> = w"
  proof (rule bit_word_eqI)
    fix n :: nat
    assume "n < LENGTH(64)"
    then show "bit (ucast (ucast w :: u32) OR push_bit 32 (ucast (ucast (drop_bit 32 w) :: u32)) :: u64) n = bit w n"
      by (cases "n < 32") (auto simp: bit_simps)
  qed
  finally show ?thesis .
qed

text \<open>Loads from a concatenation: skip what precedes the offset, read what is there.\<close>

lemma load_skip:
  "length xs \<le> n \<Longrightarrow> load16 (xs @ ys) n = load16 ys (n - length xs)"
  "length xs \<le> n \<Longrightarrow> load32 (xs @ ys) n = load32 ys (n - length xs)"
  "length xs \<le> n \<Longrightarrow> load64 (xs @ ys) n = load64 ys (n - length xs)"
  by (auto simp: le_iff_add load16_def load64_def load32_def nth_append)

lemma load_Cons:
  "0 < n \<Longrightarrow> load16 (x # ys) n = load16 ys (n - 1)"
  "0 < n \<Longrightarrow> load32 (x # ys) n = load32 ys (n - 1)"
  "0 < n \<Longrightarrow> load64 (x # ys) n = load64 ys (n - 1)"
  using load_skip [of "[x]" n ys] by simp_all

lemma load_front:
  "load16 (le_bytes16 h @ ys) 0 = h" "load32 (le_bytes w @ ys) 0 = w" "load64 (le_bytes64 x @ ys) 0 = x"
  using load16_at [of 0 "[]" h ys] load32_at [of 0 "[]" w ys] load64_at [of 0 "[]" x ys] by simp_all

lemma load_alone:
  "load16 (le_bytes16 h) 0 = h" "load32 (le_bytes w) 0 = w" "load64 (le_bytes64 x) 0 = x"
  using load_front [of _ "[]"] by simp_all

lemmas load_simps = load_skip load_Cons load_front load_alone

section \<open>Stores of entries found by identifier\<close>

text \<open>
  The contract of the hash tables whose entries are found by a 64-bit identifier and then
  changed in place: a new entry is found under its own identifier, a change to the entry of one
  identifier is seen there and nowhere else, and both keep the table well-formed.
\<close>

locale id_store =
  fixes ok :: "'s \<Rightarrow> bool" and look :: "'k \<Rightarrow> 's \<Rightarrow> 'e option" and create :: "'e \<Rightarrow> 's \<Rightarrow> 's"
    and change :: "'k \<Rightarrow> ('e \<Rightarrow> 'e) \<Rightarrow> 's \<Rightarrow> 's" and key_of :: "'e \<Rightarrow> 'k"
  assumes ok_create: "ok s \<Longrightarrow> look (key_of e) s = None \<Longrightarrow> ok (create e s)"
    and ok_change: "ok s \<Longrightarrow> (\<And>e. key_of (f e) = key_of e) \<Longrightarrow> ok (change k f s)"
    and look_create: "ok s \<Longrightarrow> look (key_of e) s = None \<Longrightarrow>
      look k (create e s) = (if k = key_of e then Some e else look k s)"
    and look_change: "ok s \<Longrightarrow> (\<And>e. key_of (f e) = key_of e) \<Longrightarrow>
      look k' (change k f s) = (if k' = k then map_option f (look k s) else look k' s)"
begin

lemma ok_changes:
  "ok s \<Longrightarrow> (\<And>k e. k \<in> set ks \<Longrightarrow> key_of (f k e) = key_of e) \<Longrightarrow> ok (fold (\<lambda>k. change k (f k)) ks s)"
  by (induction ks arbitrary: s) (simp_all add: ok_change)

text \<open>Changes under distinct identifiers act independently.\<close>

lemma look_changes:
  "ok s \<Longrightarrow> distinct ks \<Longrightarrow> (\<And>k e. k \<in> set ks \<Longrightarrow> key_of (f k e) = key_of e) \<Longrightarrow>
   look k (fold (\<lambda>k. change k (f k)) ks s) = (if k \<in> set ks then map_option (f k) (look k s) else look k s)"
  by (induction ks arbitrary: s) (auto simp: ok_change look_change)

lemma change_create:
  "ok s \<Longrightarrow> look (key_of e) s = None \<Longrightarrow> (\<And>e. key_of (f e) = key_of e) \<Longrightarrow>
   look k (change (key_of e) f (create e s)) = (if k = key_of e then Some (f e) else look k s)"
  by (simp add: ok_create look_change look_create)

end

end
