(* ===== verification/Ipc_Radix.thy ===== *)
theory Ipc_Radix
  imports Uros_Prelude
begin

text \<open>
  The sparse radix tree of the kernel's IPC spaces, \<^verbatim>\<open>mach_kernel/ipc/ipc_radix.c\<close>: four
  levels of 64-way nodes that map a 24-bit port-name index to an entry.  A node holds 64
  pointers and the number of those that are not null; the level of a node tells whether a
  pointer leads to a child node or to an entry.  Insertion takes the nodes it needs from a
  supply stack that the caller allocated beforehand and that is linked through slot 0;
  deletion frees every node it empties, bottom up.

  The theory models every function of the file, shows that the tree implements a map from
  indices to entries (lookup after insertion and deletion, enumeration in ascending order),
  that the node counts stay exact, that four supplied nodes are always enough, and that no
  node is leaked: the nodes taken from the supply and the nodes freed account for the change
  of the tree.
\<close>

section \<open>Definitions\<close>

text \<open>A \<^verbatim>\<open>void *\<close> slot: null, a pointer to a node, or a pointer to an entry.\<close>

datatype 'e irt_node = Node (node_slots: "'e irt_slot list") (node_count: u32)
and 'e irt_slot = Null | Child "'e irt_node" | Entry 'e

record 'e ipc_radix_tree =
  irt_root :: "'e irt_slot"
  irt_count :: u32

text \<open>\<^verbatim>\<open>IRT_SLOT(index, lvl)\<close>: the six bits of the index that select the slot at a level.\<close>

definition IRT_SLOT :: "u32 \<Rightarrow> nat \<Rightarrow> nat" where
  "IRT_SLOT index lvl = unat (drop_bit (lvl * 6) index AND 63)"

definition ipc_radix_node_alloc :: "'e irt_node" where
  "ipc_radix_node_alloc = Node (replicate 64 Null) 0"

text \<open>
  \<^verbatim>\<open>irt_pop\<close>: take the first node off the supply stack, which is linked through slot 0.
  The source asserts that the supply is not empty; here that is \<open>None\<close>.
\<close>

fun irt_pop :: "'e irt_slot \<Rightarrow> ('e irt_node \<times> 'e irt_slot) option" where
  "irt_pop (Child (Node ss c)) = Some (Node (ss[0 := Null]) c, ss ! 0)"
| "irt_pop Null = None"
| "irt_pop (Entry e) = None"

definition ipc_radix_init :: "'e ipc_radix_tree" where
  "ipc_radix_init = \<lparr>irt_root = Null, irt_count = 0\<rparr>"

text \<open>The descent of \<^verbatim>\<open>ipc_radix_lookup\<close> from the pointer to a node at level \<open>lvl\<close>.\<close>

fun irt_lookup_from :: "nat \<Rightarrow> u32 \<Rightarrow> 'e irt_slot \<Rightarrow> 'e option" where
  "irt_lookup_from 0 index p =
     (case p of
        Child n \<Rightarrow> (case node_slots n ! IRT_SLOT index 0 of Entry e \<Rightarrow> Some e | _ \<Rightarrow> None)
      | _ \<Rightarrow> None)"
| "irt_lookup_from (Suc lvl) index p =
     (case p of
        Child n \<Rightarrow> irt_lookup_from lvl index (node_slots n ! IRT_SLOT index (Suc lvl))
      | _ \<Rightarrow> None)"

definition ipc_radix_lookup :: "'e ipc_radix_tree \<Rightarrow> u32 \<Rightarrow> 'e option" where
  "ipc_radix_lookup tree index = irt_lookup_from 3 index (irt_root tree)"

text \<open>
  The descent of \<^verbatim>\<open>ipc_radix_insert\<close> below a node at level \<open>lvl\<close>.  \<open>None\<close> stands for a
  failed assertion: the supply ran out, or the name is already present.
\<close>

fun irt_insert_from ::
  "nat \<Rightarrow> u32 \<Rightarrow> 'e \<Rightarrow> 'e irt_node \<Rightarrow> 'e irt_slot \<Rightarrow> ('e irt_node \<times> 'e irt_slot) option" where
  "irt_insert_from 0 index e n supply =
     (let s = IRT_SLOT index 0
      in case node_slots n ! s of
           Null \<Rightarrow> Some (Node ((node_slots n)[s := Entry e]) (node_count n + 1), supply)
         | _ \<Rightarrow> None)"
| "irt_insert_from (Suc lvl) index e n supply =
     (let s = IRT_SLOT index (Suc lvl)
      in case node_slots n ! s of
           Null \<Rightarrow>
             (case irt_pop supply of
                None \<Rightarrow> None
              | Some (c, supply') \<Rightarrow>
                  (case irt_insert_from lvl index e c supply' of
                     None \<Rightarrow> None
                   | Some (c', supply'') \<Rightarrow>
                       Some (Node ((node_slots n)[s := Child c']) (node_count n + 1), supply'')))
         | Child c \<Rightarrow>
             (case irt_insert_from lvl index e c supply of
                None \<Rightarrow> None
              | Some (c', supply') \<Rightarrow>
                  Some (Node ((node_slots n)[s := Child c']) (node_count n), supply'))
         | Entry _ \<Rightarrow> None)"

definition ipc_radix_insert ::
  "'e ipc_radix_tree \<Rightarrow> u32 \<Rightarrow> 'e \<Rightarrow> 'e irt_slot \<Rightarrow> ('e ipc_radix_tree \<times> 'e irt_slot) option" where
  "ipc_radix_insert tree index e supply =
     (case (case irt_root tree of Child r \<Rightarrow> Some (r, supply) | _ \<Rightarrow> irt_pop supply) of
        None \<Rightarrow> None
      | Some (r, supply') \<Rightarrow>
          (case irt_insert_from 3 index e r supply' of
             None \<Rightarrow> None
           | Some (r', supply'') \<Rightarrow>
               Some (\<lparr>irt_root = Child r', irt_count = irt_count tree + 1\<rparr>, supply'')))"

text \<open>
  \<^verbatim>\<open>ipc_radix_delete\<close> records the nodes it passes (\<^verbatim>\<open>path[]\<close>, \<^verbatim>\<open>slot[]\<close>, here a list from
  the leaf's parent up to the root), clears the leaf slot and then prunes.
\<close>

fun irt_descend ::
  "nat \<Rightarrow> u32 \<Rightarrow> 'e irt_node \<Rightarrow> ('e irt_node \<times> nat) list
     \<Rightarrow> ('e irt_node \<times> ('e irt_node \<times> nat) list) option" where
  "irt_descend 0 index n path = Some (n, path)"
| "irt_descend (Suc lvl) index n path =
     (let s = IRT_SLOT index (Suc lvl)
      in case node_slots n ! s of
           Child c \<Rightarrow> irt_descend lvl index c ((n, s) # path)
         | _ \<Rightarrow> None)"

fun irt_plug :: "'e irt_node \<Rightarrow> ('e irt_node \<times> nat) list \<Rightarrow> 'e irt_node" where
  "irt_plug c [] = c"
| "irt_plug c ((n, s) # path) = irt_plug (Node ((node_slots n)[s := Child c]) (node_count n)) path"

text \<open>The pruning loop: the new root and the number of nodes freed.\<close>

fun irt_prune :: "'e irt_node \<Rightarrow> ('e irt_node \<times> nat) list \<Rightarrow> 'e irt_node \<times> nat" where
  "irt_prune c [] = (c, 0)"
| "irt_prune c ((n, s) # path) =
     (if node_count c \<noteq> 0 then (irt_plug c ((n, s) # path), 0)
      else let (r, freed) = irt_prune (Node ((node_slots n)[s := Null]) (node_count n - 1)) path
           in (r, Suc freed))"

definition ipc_radix_delete ::
  "'e ipc_radix_tree \<Rightarrow> u32 \<Rightarrow> 'e option \<times> 'e ipc_radix_tree \<times> nat" where
  "ipc_radix_delete tree index =
     (case irt_root tree of
        Child r \<Rightarrow>
          (case irt_descend 3 index r [] of
             None \<Rightarrow> (None, tree, 0)
           | Some (leaf, path) \<Rightarrow>
               (let s = IRT_SLOT index 0
                in case node_slots leaf ! s of
                     Entry e \<Rightarrow>
                       (let leaf' = Node ((node_slots leaf)[s := Null]) (node_count leaf - 1);
                            (r', freed) = irt_prune leaf' path
                        in if node_count r' = 0
                           then (Some e, \<lparr>irt_root = Null, irt_count = irt_count tree - 1\<rparr>, Suc freed)
                           else (Some e, \<lparr>irt_root = Child r', irt_count = irt_count tree - 1\<rparr>, freed))
                   | _ \<Rightarrow> (None, tree, 0)))
      | _ \<Rightarrow> (None, tree, 0))"

text \<open>\<^verbatim>\<open>irt_iterate_node\<close>: the calls \<^verbatim>\<open>fn(index, entry)\<close> it makes, in order.\<close>

fun irt_iterate_node :: "nat \<Rightarrow> u32 \<Rightarrow> 'e irt_node \<Rightarrow> (u32 \<times> 'e) list" where
  "irt_iterate_node 0 prefix n =
     concat (map (\<lambda>s. case node_slots n ! s of
                        Entry e \<Rightarrow> [(prefix OR of_nat s, e)] | _ \<Rightarrow> []) [0..<64])"
| "irt_iterate_node (Suc lvl) prefix n =
     concat (map (\<lambda>s. case node_slots n ! s of
                        Child c \<Rightarrow> irt_iterate_node lvl
                                     (prefix OR push_bit (Suc lvl * 6) (of_nat s)) c
                      | _ \<Rightarrow> []) [0..<64])"

definition ipc_radix_iterate :: "'e ipc_radix_tree \<Rightarrow> (u32 \<times> 'e) list" where
  "ipc_radix_iterate tree =
     (case irt_root tree of Child r \<Rightarrow> irt_iterate_node 3 0 r | _ \<Rightarrow> [])"

text \<open>
  \<^verbatim>\<open>irt_destroy_node\<close>: the calls of the callback (none when it is null) and the number of
  nodes freed.
\<close>

fun irt_destroy_node :: "nat \<Rightarrow> bool \<Rightarrow> u32 \<Rightarrow> 'e irt_node \<Rightarrow> (u32 \<times> 'e) list \<times> nat" where
  "irt_destroy_node 0 fn prefix n =
     ((if fn then concat (map (\<lambda>s. case node_slots n ! s of
                                  Entry e \<Rightarrow> [(prefix OR of_nat s, e)] | _ \<Rightarrow> []) [0..<64])
       else []), 1)"
| "irt_destroy_node (Suc lvl) fn prefix n =
     (let rs = map (\<lambda>s. case node_slots n ! s of
                         Child c \<Rightarrow> irt_destroy_node lvl fn
                                      (prefix OR push_bit (Suc lvl * 6) (of_nat s)) c
                       | _ \<Rightarrow> ([], 0)) [0..<64]
      in (concat (map fst rs), Suc (sum_list (map snd rs))))"

definition ipc_radix_destroy ::
  "'e ipc_radix_tree \<Rightarrow> bool \<Rightarrow> (u32 \<times> 'e) list \<times> nat \<times> 'e ipc_radix_tree" where
  "ipc_radix_destroy tree fn =
     (case irt_root tree of
        Child r \<Rightarrow> (let (calls, freed) = irt_destroy_node 3 fn 0 r
                   in (calls, freed, \<lparr>irt_root = Null, irt_count = 0\<rparr>))
      | _ \<Rightarrow> ([], 0, \<lparr>irt_root = Null, irt_count = 0\<rparr>))"

text \<open>
  The supply a caller builds before it takes the space lock, as in
  \<^verbatim>\<open>ipc_entry_alloc_name\<close>: \<open>k\<close> fresh nodes pushed one by one, linked through slot 0.
\<close>

primrec ipc_radix_supply :: "nat \<Rightarrow> 'e irt_slot" where
  "ipc_radix_supply 0 = Null"
| "ipc_radix_supply (Suc k) =
     (let n = ipc_radix_node_alloc
      in Child (Node ((node_slots n)[0 := ipc_radix_supply k]) (node_count n)))"

text \<open>The radix tree with the four fresh nodes that the callers supply.\<close>

definition radix_insert4 :: "'e ipc_radix_tree \<Rightarrow> u32 \<Rightarrow> 'e \<Rightarrow> 'e ipc_radix_tree option" where
  "radix_insert4 t i e = map_option fst (ipc_radix_insert t i e (ipc_radix_supply 4))"

definition radix_delete :: "'e ipc_radix_tree \<Rightarrow> u32 \<Rightarrow> 'e option \<times> 'e ipc_radix_tree" where
  "radix_delete t i = (case ipc_radix_delete t i of (e, t', _) \<Rightarrow> (e, t'))"

section \<open>Invariant and abstraction\<close>

text \<open>
  A well-formed node: 64 slots, an exact count, entries at the leaf level and non-empty
  well-formed children above it.
\<close>

definition node_ok :: "'e irt_node \<Rightarrow> bool" where
  "node_ok n \<longleftrightarrow> length (node_slots n) = 64 \<and>
     unat (node_count n) = length (filter (\<lambda>s. s \<noteq> Null) (node_slots n))"

primrec irt_wf :: "nat \<Rightarrow> 'e irt_node \<Rightarrow> bool" where
  "irt_wf 0 n = (node_ok n \<and> (\<forall>s \<in> set (node_slots n). \<forall>c. s \<noteq> Child c))"
| "irt_wf (Suc lvl) n = (node_ok n \<and>
     (\<forall>s \<in> set (node_slots n).
        case s of Null \<Rightarrow> True | Child c \<Rightarrow> node_count c \<noteq> 0 \<and> irt_wf lvl c | Entry _ \<Rightarrow> False))"

primrec irt_entries :: "nat \<Rightarrow> 'e irt_node \<Rightarrow> nat" where
  "irt_entries 0 n = length (filter (\<lambda>s. s \<noteq> Null) (node_slots n))"
| "irt_entries (Suc lvl) n =
     sum_list (map (\<lambda>s. case s of Child c \<Rightarrow> irt_entries lvl c | _ \<Rightarrow> 0) (node_slots n))"

primrec irt_nodes :: "nat \<Rightarrow> 'e irt_node \<Rightarrow> nat" where
  "irt_nodes 0 n = 1"
| "irt_nodes (Suc lvl) n =
     Suc (sum_list (map (\<lambda>s. case s of Child c \<Rightarrow> irt_nodes lvl c | _ \<Rightarrow> 0) (node_slots n)))"

text \<open>What a pointer contributes to these totals.\<close>

abbreviation slot_entries :: "nat \<Rightarrow> 'e irt_slot \<Rightarrow> nat" where
  "slot_entries lvl p \<equiv> case p of Child c \<Rightarrow> irt_entries lvl c | _ \<Rightarrow> 0"

abbreviation slot_nodes :: "nat \<Rightarrow> 'e irt_slot \<Rightarrow> nat" where
  "slot_nodes lvl p \<equiv> case p of Child c \<Rightarrow> irt_nodes lvl c | _ \<Rightarrow> 0"

definition tree_ok :: "'e ipc_radix_tree \<Rightarrow> bool" where
  "tree_ok t \<longleftrightarrow>
     (case irt_root t of
        Null \<Rightarrow> irt_count t = 0
      | Child r \<Rightarrow> irt_wf 3 r \<and> node_count r \<noteq> 0 \<and> unat (irt_count t) = irt_entries 3 r
      | Entry _ \<Rightarrow> False)"

definition tree_nodes :: "'e ipc_radix_tree \<Rightarrow> nat" where
  "tree_nodes t = (case irt_root t of Child r \<Rightarrow> irt_nodes 3 r | _ \<Rightarrow> 0)"

text \<open>A supply of \<open>k\<close> nodes as \<^verbatim>\<open>irt_pop\<close> expects it.\<close>

primrec supply_ok :: "nat \<Rightarrow> 'e irt_slot \<Rightarrow> bool" where
  "supply_ok 0 p \<longleftrightarrow> p = Null"
| "supply_ok (Suc k) p \<longleftrightarrow>
     (\<exists>q. p = Child (Node ((replicate 64 Null)[0 := q]) 0) \<and> supply_ok k q)"

text \<open>The part of an index that a node at a level still has to distinguish.\<close>

definition irt_key :: "nat \<Rightarrow> u32 \<Rightarrow> nat" where
  "irt_key lvl index = unat index mod 64 ^ Suc lvl"

text \<open>
  Deletion with pruning as one recursive descent: the form in which its effect is proved.
  The operation itself walks down, then prunes along the recorded path.
\<close>

fun irt_del :: "nat \<Rightarrow> u32 \<Rightarrow> 'e irt_node \<Rightarrow> 'e irt_node \<times> nat" where
  "irt_del 0 index n = (Node ((node_slots n)[IRT_SLOT index 0 := Null]) (node_count n - 1), 0)"
| "irt_del (Suc lvl) index n =
     (let s = IRT_SLOT index (Suc lvl)
      in case node_slots n ! s of
           Child c \<Rightarrow>
             (let (c', freed) = irt_del lvl index c
              in if node_count c' \<noteq> 0 then (Node ((node_slots n)[s := Child c']) (node_count n), freed)
                 else (Node ((node_slots n)[s := Null]) (node_count n - 1), Suc freed))
         | _ \<Rightarrow> (n, 0))"

definition delete_post where
  "delete_post lvl index n n' freed \<longleftrightarrow>
     irt_wf lvl n' \<and>
     (\<forall>j. irt_lookup_from lvl j (Child n')
          = (if irt_key lvl j = irt_key lvl index then None else irt_lookup_from lvl j (Child n))) \<and>
     Suc (irt_entries lvl n') = irt_entries lvl n \<and>
     irt_nodes lvl n' + freed = irt_nodes lvl n"

text \<open>What one insertion below a node establishes, with \<open>k\<close> nodes in the supply.\<close>

definition insert_post where
  "insert_post lvl index e n k n' supply' \<longleftrightarrow>
     irt_wf lvl n' \<and> node_count n' \<noteq> 0 \<and>
     (\<forall>j. irt_lookup_from lvl j (Child n')
          = (if irt_key lvl j = irt_key lvl index then Some e else irt_lookup_from lvl j (Child n))) \<and>
     irt_entries lvl n' = Suc (irt_entries lvl n) \<and>
     (\<exists>k'. supply_ok k' supply' \<and> irt_nodes lvl n' + k' = irt_nodes lvl n + k)"

text \<open>A small tree for the concrete instances below.\<close>

definition example_tree :: "nat ipc_radix_tree" where
  "example_tree = the (Option.bind (radix_insert4 ipc_radix_init 70 700)
                                   (\<lambda>t. radix_insert4 t 4096 40960))"

section \<open>Slots and keys\<close>

lemma IRT_SLOT_div: "IRT_SLOT index lvl = unat index div 64 ^ lvl mod 64"
proof -
  have mask: "(63 :: u32) = mask 6" by (simp add: mask_eq_exp_minus_1)
  have pow: "(2::nat) ^ (lvl * 6) = 64 ^ lvl"
    by (simp only: mult.commute [of lvl] power_mult) simp
  show ?thesis
    unfolding IRT_SLOT_def mask unat_and_mask_mod unat_drop_bit_div pow by simp
qed

lemma IRT_SLOT_less [simp]: "IRT_SLOT index lvl < 64"
  by (simp add: IRT_SLOT_div)

lemma irt_key_0: "irt_key 0 index = IRT_SLOT index 0"
  by (simp add: irt_key_def IRT_SLOT_div)

lemma irt_key_Suc:
  "irt_key (Suc lvl) index = IRT_SLOT index (Suc lvl) * 64 ^ Suc lvl + irt_key lvl index"
proof -
  have "unat index mod (64 ^ Suc lvl * 64)
        = 64 ^ Suc lvl * (unat index div 64 ^ Suc lvl mod 64) + unat index mod 64 ^ Suc lvl"
    by (rule mod_mult2_eq)
  then show ?thesis
    by (simp only: irt_key_def IRT_SLOT_div power_Suc mult.commute mult.left_commute)
qed

lemma irt_key_less: "irt_key lvl index < 64 ^ Suc lvl"
  by (simp add: irt_key_def)

lemma irt_key_Suc_eq:
  "irt_key (Suc lvl) i = irt_key (Suc lvl) j \<longleftrightarrow>
     IRT_SLOT i (Suc lvl) = IRT_SLOT j (Suc lvl) \<and> irt_key lvl i = irt_key lvl j"
proof -
  let ?b = "64 ^ Suc lvl :: nat"
  have "(a * ?b + c) div ?b = a \<and> (a * ?b + c) mod ?b = c" if "c < ?b" for a c :: nat
    using that by simp
  then show ?thesis
    unfolding irt_key_Suc using irt_key_less by metis
qed

section \<open>The supply stack\<close>

lemma irt_pop_ok:
  assumes "supply_ok (Suc k) p"
  obtains q where "irt_pop p = Some (ipc_radix_node_alloc, q)" and "supply_ok k q"
proof -
  from assms obtain q where p: "p = Child (Node ((replicate 64 Null)[0 := q]) 0)"
    and q: "supply_ok k q" by auto
  have "irt_pop p = Some (ipc_radix_node_alloc, q)"
    unfolding p by (simp add: ipc_radix_node_alloc_def list_update_same_conv)
  then show ?thesis using q that by blast
qed

lemma ipc_radix_supply_ok: "supply_ok k (ipc_radix_supply k)"
  by (induction k) (auto simp: ipc_radix_node_alloc_def Let_def)

lemma node_ok_alloc: "node_ok ipc_radix_node_alloc"
  by (simp add: node_ok_def ipc_radix_node_alloc_def)

lemma irt_wf_alloc: "irt_wf lvl ipc_radix_node_alloc"
  by (cases lvl) (simp_all add: node_ok_alloc, simp_all add: ipc_radix_node_alloc_def)

lemma irt_wf_node_ok: "irt_wf lvl n \<Longrightarrow> node_ok n"
  by (cases lvl) simp_all

section \<open>Updating one slot of a node\<close>

lemma node_ok_len [simp]: "node_ok n \<Longrightarrow> length (node_slots n) = 64"
  by (simp add: node_ok_def)

lemma node_ok_count_le: "node_ok n \<Longrightarrow> unat (node_count n) \<le> 64"
  unfolding node_ok_def using length_filter_le [of "\<lambda>s. s \<noteq> Null" "node_slots n"] by simp

lemma node_ok_count_pos:
  assumes "node_ok n" and "s < 64" and "node_slots n ! s \<noteq> Null"
  shows "node_count n \<noteq> 0"
proof -
  have "node_slots n ! s \<in> set (filter (\<lambda>s. s \<noteq> Null) (node_slots n))"
    using assms by simp
  then have "0 < length (filter (\<lambda>s. s \<noteq> Null) (node_slots n))"
    by (metis length_pos_if_in_set)
  then show ?thesis using assms(1) by (auto simp: node_ok_def)
qed

lemma node_ok_fill:
  assumes "node_ok n" and "s < 64" and "node_slots n ! s = Null" and "x \<noteq> Null"
  shows "node_ok (Node ((node_slots n)[s := x]) (node_count n + 1))" "node_count n + 1 \<noteq> 0"
proof -
  have "unat (node_count n) \<le> 64" using assms(1) by (rule node_ok_count_le)
  then have u: "unat (node_count n + 1) = unat (node_count n) + 1"
    by (simp add: unat_word_ariths)
  then show "node_count n + 1 \<noteq> 0" by auto
  show "node_ok (Node ((node_slots n)[s := x]) (node_count n + 1))"
    using filter_length_update [of s "node_slots n" "\<lambda>s. s \<noteq> Null" x] assms u
    by (simp add: node_ok_def)
qed

lemma node_ok_replace:
  assumes "node_ok n" and "s < 64" and "node_slots n ! s \<noteq> Null" and "x \<noteq> Null"
  shows "node_ok (Node ((node_slots n)[s := x]) (node_count n))"
  using filter_length_update [of s "node_slots n" "\<lambda>s. s \<noteq> Null" x] assms
  by (simp add: node_ok_def)

lemma node_ok_clear:
  assumes "node_ok n" and "s < 64" and "node_slots n ! s \<noteq> Null"
  shows "node_ok (Node ((node_slots n)[s := Null]) (node_count n - 1))"
proof -
  have "unat (node_count n - 1) = unat (node_count n) - 1"
    using node_ok_count_pos [OF assms] by (simp add: unat_minus_one)
  moreover have "0 < unat (node_count n)"
    using node_ok_count_pos [OF assms] by (simp add: word_neq_0_conv word_less_nat_alt)
  ultimately show ?thesis
    using filter_length_update [of s "node_slots n" "\<lambda>s. s \<noteq> Null" Null] assms
    by (simp add: node_ok_def)
qed

lemma irt_wf_child:
  assumes "irt_wf (Suc lvl) n" and "s < 64" and "node_slots n ! s = Child c"
  shows "irt_wf lvl c" "node_count c \<noteq> 0"
proof -
  have "Child c \<in> set (node_slots n)"
    using assms irt_wf_node_ok [OF assms(1)] by (metis node_ok_len nth_mem)
  then show "irt_wf lvl c" "node_count c \<noteq> 0" using assms(1) by auto
qed

lemma irt_wf_no_entry:
  assumes "irt_wf (Suc lvl) n" and "s < 64"
  shows "node_slots n ! s \<noteq> Entry e"
proof
  assume "node_slots n ! s = Entry e"
  then have "Entry e \<in> set (node_slots n)"
    using assms irt_wf_node_ok [OF assms(1)] by (metis node_ok_len nth_mem)
  then show False using assms(1) by auto
qed

lemma irt_wf_0_no_child:
  assumes "irt_wf 0 n" and "s < 64"
  shows "node_slots n ! s \<noteq> Child c"
  using assms by (metis irt_wf.simps(1) node_ok_len nth_mem)

lemma irt_wf_put_child:
  assumes "irt_wf (Suc lvl) n" and "node_ok (Node ((node_slots n)[s := Child c]) k)"
    and "irt_wf lvl c" and "node_count c \<noteq> 0"
  shows "irt_wf (Suc lvl) (Node ((node_slots n)[s := Child c]) k)"
proof -
  have "\<forall>x \<in> set ((node_slots n)[s := Child c]).
          case x of Null \<Rightarrow> True | Child c \<Rightarrow> node_count c \<noteq> 0 \<and> irt_wf lvl c | Entry _ \<Rightarrow> False"
    using set_update_subset [of "node_slots n" s "Child c"] assms(1,3,4) by fastforce
  then show ?thesis using assms(2) by simp
qed

lemma irt_lookup_put_child:
  assumes "length (node_slots n) = 64"
  shows "irt_lookup_from (Suc lvl) j (Child (Node ((node_slots n)[IRT_SLOT i (Suc lvl) := p]) k))
         = (if IRT_SLOT j (Suc lvl) = IRT_SLOT i (Suc lvl) then irt_lookup_from lvl j p
            else irt_lookup_from (Suc lvl) j (Child n))"
  using assms by (simp add: nth_list_update)

lemma irt_lookup_Null [simp]: "irt_lookup_from lvl j Null = None"
  by (cases lvl) simp_all

lemma irt_lookup_alloc [simp]: "irt_lookup_from lvl j (Child ipc_radix_node_alloc) = None"
  by (cases lvl) (simp_all add: ipc_radix_node_alloc_def)

lemma irt_entries_alloc [simp]: "irt_entries lvl ipc_radix_node_alloc = 0"
  by (cases lvl) (simp_all add: ipc_radix_node_alloc_def)

lemma irt_nodes_alloc [simp]: "irt_nodes lvl ipc_radix_node_alloc = 1"
  by (cases lvl) (simp_all add: ipc_radix_node_alloc_def)

text \<open>Replacing the pointer in one slot changes the totals by the difference of the two subtrees.\<close>

lemma irt_entries_put:
  assumes "s < length (node_slots n)"
  shows "irt_entries (Suc lvl) (Node ((node_slots n)[s := p]) k) + slot_entries lvl (node_slots n ! s)
         = irt_entries (Suc lvl) n + slot_entries lvl p"
  using sum_list_update_nat [OF assms, of "slot_entries lvl" p] by simp

lemma irt_nodes_put:
  assumes "s < length (node_slots n)"
  shows "irt_nodes (Suc lvl) (Node ((node_slots n)[s := p]) k) + slot_nodes lvl (node_slots n ! s)
         = irt_nodes (Suc lvl) n + slot_nodes lvl p"
  using sum_list_update_nat [OF assms, of "slot_nodes lvl" p] by simp

section \<open>Insertion\<close>

lemma irt_insert_leaf:
  assumes wf: "irt_wf 0 n" and sup: "supply_ok k supply"
    and ins: "irt_insert_from 0 index e n supply = Some (n', supply')"
  shows "insert_post 0 index e n k n' supply'"
proof -
  let ?s = "IRT_SLOT index 0"
  from ins have null: "node_slots n ! ?s = Null" and s': "supply' = supply"
    and n': "n' = Node ((node_slots n)[?s := Entry e]) (node_count n + 1)"
    by (auto simp: Let_def split: irt_slot.splits)
  have ok: "node_ok n" using wf by simp
  have ok': "node_ok n'" "node_count n' \<noteq> 0"
    using node_ok_fill [OF ok _ null, of "Entry e"] by (simp_all add: n')
  have "irt_wf 0 n'"
    using ok' wf set_update_subset [of "node_slots n" ?s "Entry e"] by (auto simp: n')
  moreover have "irt_lookup_from 0 j (Child n')
      = (if irt_key 0 j = irt_key 0 index then Some e else irt_lookup_from 0 j (Child n))" for j
    using ok by (simp add: n' irt_key_0 nth_list_update)
  moreover have "irt_entries 0 n' = Suc (irt_entries 0 n)"
    using filter_length_update [of ?s "node_slots n" "\<lambda>s. s \<noteq> Null" "Entry e"] ok null
    by (simp add: n')
  ultimately show ?thesis using ok'(2) sup by (auto simp: insert_post_def s')
qed

lemma insert_post_lift:
  assumes wf: "irt_wf (Suc lvl) n" and s: "s = IRT_SLOT index (Suc lvl)"
    and ok: "node_ok (Node ((node_slots n)[s := Child c']) cnt)" "cnt \<noteq> 0"
    and old: "\<And>j. irt_lookup_from lvl j (node_slots n ! s) = irt_lookup_from lvl j (Child c)"
      "slot_entries lvl (node_slots n ! s) = irt_entries lvl c"
      "irt_nodes lvl c + kc = slot_nodes lvl (node_slots n ! s) + k"
    and post: "insert_post lvl index e c kc c' supply'"
  shows "insert_post (Suc lvl) index e n k (Node ((node_slots n)[s := Child c']) cnt) supply'"
proof -
  let ?n' = "Node ((node_slots n)[s := Child c']) cnt"
  have len: "length (node_slots n) = 64" using irt_wf_node_ok [OF wf] by simp
  have c': "irt_wf lvl c'" "node_count c' \<noteq> 0" "irt_entries lvl c' = Suc (irt_entries lvl c)"
    using post by (simp_all add: insert_post_def)
  have "irt_wf (Suc lvl) ?n'" by (rule irt_wf_put_child [OF wf ok(1) c'(1,2)])
  moreover have "irt_lookup_from (Suc lvl) j (Child ?n')
      = (if irt_key (Suc lvl) j = irt_key (Suc lvl) index then Some e
         else irt_lookup_from (Suc lvl) j (Child n))" for j
  proof -
    have "irt_lookup_from lvl j (Child c')
        = (if irt_key lvl j = irt_key lvl index then Some e else irt_lookup_from lvl j (Child c))"
      using post by (simp add: insert_post_def)
    then show ?thesis
      unfolding s irt_lookup_put_child [OF len] irt_key_Suc_eq using old(1) by (auto simp: s)
  qed
  moreover have "irt_entries (Suc lvl) ?n' = Suc (irt_entries (Suc lvl) n)"
    using irt_entries_put [of s n lvl "Child c'" cnt] len c'(3) old(2) by (simp add: s)
  moreover obtain k' where "supply_ok k' supply'" "irt_nodes lvl c' + k' = irt_nodes lvl c + kc"
    using post by (auto simp: insert_post_def)
  then have "\<exists>k'. supply_ok k' supply' \<and> irt_nodes (Suc lvl) ?n' + k' = irt_nodes (Suc lvl) n + k"
    using irt_nodes_put [of s n lvl "Child c'" cnt] len old(3) by (intro exI [of _ k']) (simp add: s)
  ultimately show ?thesis using ok(2) by (simp add: insert_post_def)
qed

lemma irt_insert_from_post:
  assumes "irt_wf lvl n" and "supply_ok k supply"
    and "irt_insert_from lvl index e n supply = Some (n', supply')"
  shows "insert_post lvl index e n k n' supply'"
  using assms
proof (induction lvl arbitrary: n k "supply" n' supply')
  case 0
  then show ?case by (rule irt_insert_leaf)
next
  case (Suc lvl)
  let ?s = "IRT_SLOT index (Suc lvl)"
  have ok: "node_ok n" using Suc.prems(1) by (rule irt_wf_node_ok)
  show ?case
  proof (cases "node_slots n ! ?s")
    case Null
    with Suc.prems(3) obtain c q c' where pop: "irt_pop supply = Some (c, q)"
      and ins: "irt_insert_from lvl index e c q = Some (c', supply')"
      and n': "n' = Node ((node_slots n)[?s := Child c']) (node_count n + 1)"
      by (auto simp: Let_def split: option.splits)
    from pop have "supply \<noteq> Null" by auto
    with Suc.prems(2) obtain k0 where k: "k = Suc k0" by (cases k) auto
    with Suc.prems(2) pop have c: "c = ipc_radix_node_alloc" and q: "supply_ok k0 q"
      using irt_pop_ok [of k0 "supply"] by (metis option.inject prod.inject)+
    have "insert_post lvl index e c k0 c' supply'"
      using Suc.IH [OF _ q ins] irt_wf_alloc c by blast
    moreover note node_ok_fill [OF ok _ Null, of "Child c'"]
    ultimately show ?thesis
      unfolding n' by (intro insert_post_lift [OF Suc.prems(1) refl, where c = c and kc = k0])
        (simp_all add: Null c k)
  next
    case (Child c)
    with Suc.prems(3) obtain c' where ins: "irt_insert_from lvl index e c supply = Some (c', supply')"
      and n': "n' = Node ((node_slots n)[?s := Child c']) (node_count n)"
      by (auto simp: Let_def split: option.splits)
    have "insert_post lvl index e c k c' supply'"
      using Suc.IH [OF _ Suc.prems(2) ins] irt_wf_child(1) [OF Suc.prems(1) _ Child] by simp
    moreover note node_ok_replace [OF ok, of ?s "Child c'"] node_ok_count_pos [OF ok, of ?s]
    ultimately show ?thesis
      unfolding n' by (intro insert_post_lift [OF Suc.prems(1) refl, where c = c and kc = k])
        (simp_all add: Child)
  next
    case (Entry x)
    with Suc.prems(3) show ?thesis by (simp add: Let_def)
  qed
qed

lemma irt_insert_from_succeeds:
  assumes "irt_wf lvl n" and "supply_ok k supply" and "lvl \<le> k"
    and "irt_lookup_from lvl index (Child n) = None"
  shows "\<exists>r. irt_insert_from lvl index e n supply = Some r"
  using assms
proof (induction lvl arbitrary: n k "supply")
  case 0
  then show ?case
    using irt_wf_0_no_child [OF "0"(1), of "IRT_SLOT index 0"]
    by (auto simp: Let_def split: irt_slot.splits)
next
  case (Suc lvl)
  let ?s = "IRT_SLOT index (Suc lvl)"
  show ?case
  proof (cases "node_slots n ! ?s")
    case Null
    from Suc.prems(3) obtain k0 where k: "k = Suc k0" "lvl \<le> k0" by (cases k) auto
    from Suc.prems(2) k(1) obtain q where pop: "irt_pop supply = Some (ipc_radix_node_alloc, q)"
      and q: "supply_ok k0 q" using irt_pop_ok by metis
    have "\<exists>r. irt_insert_from lvl index e ipc_radix_node_alloc q = Some r"
      by (rule Suc.IH [OF irt_wf_alloc q k(2)]) simp
    then show ?thesis using Null pop by (auto simp: Let_def)
  next
    case (Child c)
    have "\<exists>r. irt_insert_from lvl index e c supply = Some r"
      using Suc.prems Child irt_wf_child(1) [OF Suc.prems(1) _ Child]
      by (intro Suc.IH [where k = k]) auto
    then show ?thesis using Child by (auto simp: Let_def)
  next
    case (Entry x)
    then show ?thesis using irt_wf_no_entry [OF Suc.prems(1), of ?s x] by simp
  qed
qed

section \<open>Deletion\<close>

lemma node_empty:
  assumes "node_ok n" and "node_count n = 0"
  shows "n = ipc_radix_node_alloc"
proof -
  have "filter (\<lambda>s. s \<noteq> Null) (node_slots n) = []" using assms by (simp add: node_ok_def)
  then have "\<forall>s \<in> set (node_slots n). s = Null" by (simp add: filter_empty_conv)
  then have "node_slots n = replicate 64 Null"
    using assms(1) by (intro replicate_eqI) simp_all
  then show ?thesis using assms(2) by (cases n) (simp add: ipc_radix_node_alloc_def)
qed

lemma irt_wf_put_null:
  assumes "irt_wf (Suc lvl) n" and "node_ok (Node ((node_slots n)[s := Null]) k)"
  shows "irt_wf (Suc lvl) (Node ((node_slots n)[s := Null]) k)"
proof -
  have "\<forall>x \<in> set ((node_slots n)[s := Null]).
          case x of Null \<Rightarrow> True | Child c \<Rightarrow> node_count c \<noteq> 0 \<and> irt_wf lvl c | Entry _ \<Rightarrow> False"
    using set_update_subset [of "node_slots n" s Null] assms(1) by fastforce
  then show ?thesis using assms(2) by simp
qed

lemma irt_lookup_SomeE:
  assumes "irt_lookup_from (Suc lvl) index (Child n) = Some e"
  obtains c where "node_slots n ! IRT_SLOT index (Suc lvl) = Child c"
    and "irt_lookup_from lvl index (Child c) = Some e"
proof (cases "node_slots n ! IRT_SLOT index (Suc lvl)")
  case (Entry x)
  with assms show ?thesis by (cases lvl) simp_all
qed (use assms that in simp_all)

lemma irt_del_leaf_post:
  assumes wf: "irt_wf 0 n" and found: "irt_lookup_from 0 index (Child n) = Some e"
  shows "delete_post 0 index n (Node ((node_slots n)[IRT_SLOT index 0 := Null]) (node_count n - 1)) 0"
proof -
  let ?s = "IRT_SLOT index 0"
  have ok: "node_ok n" using wf by simp
  have e: "node_slots n ! ?s = Entry e" using found by (simp split: irt_slot.splits)
  have ok': "node_ok (Node ((node_slots n)[?s := Null]) (node_count n - 1))"
    by (rule node_ok_clear [OF ok]) (simp_all add: e)
  then have "irt_wf 0 (Node ((node_slots n)[?s := Null]) (node_count n - 1))"
    using wf set_update_subset [of "node_slots n" ?s Null] by auto
  then show ?thesis
    using filter_length_update [of ?s "node_slots n" "\<lambda>s. s \<noteq> Null" Null] ok e
    by (auto simp: delete_post_def irt_key_0 nth_list_update)
qed

lemma delete_post_lift:
  assumes wf: "irt_wf (Suc lvl) n" and s: "s = IRT_SLOT index (Suc lvl)"
    and child: "node_slots n ! s = Child c" and post: "delete_post lvl index c c' freed"
    and p: "p = (if node_count c' \<noteq> 0 then Child c' else Null)"
    and cnt: "cnt = (if node_count c' \<noteq> 0 then node_count n else node_count n - 1)"
    and f: "freed' = (if node_count c' \<noteq> 0 then freed else Suc freed)"
  shows "delete_post (Suc lvl) index n (Node ((node_slots n)[s := p]) cnt) freed'"
proof -
  let ?n' = "Node ((node_slots n)[s := p]) cnt"
  have ok: "node_ok n" using wf by (rule irt_wf_node_ok)
  have s64: "s < 64" by (simp add: s)
  have c': "irt_wf lvl c'" using post by (simp add: delete_post_def)
  have empty: "c' = ipc_radix_node_alloc" if "node_count c' = 0"
    using node_empty irt_wf_node_ok c' that by blast
  have wf': "irt_wf (Suc lvl) ?n'"
  proof (cases "node_count c' = 0")
    case True
    then show ?thesis using irt_wf_put_null [OF wf node_ok_clear [OF ok s64]] child by (simp add: p cnt)
  next
    case False
    then show ?thesis
      using irt_wf_put_child [OF wf node_ok_replace [OF ok s64]] child c' by (simp add: p cnt)
  qed
  have p_look: "irt_lookup_from lvl j p = irt_lookup_from lvl j (Child c')" for j
    using empty irt_lookup_alloc irt_lookup_Null p by metis
  have "irt_lookup_from (Suc lvl) j (Child ?n')
      = (if irt_key (Suc lvl) j = irt_key (Suc lvl) index then None
         else irt_lookup_from (Suc lvl) j (Child n))" for j
    using post child unfolding s irt_lookup_put_child [OF node_ok_len [OF ok]] irt_key_Suc_eq p_look
    by (auto simp: delete_post_def)
  moreover have "Suc (irt_entries (Suc lvl) ?n') = irt_entries (Suc lvl) n"
    using irt_entries_put [of s n lvl p cnt] post child ok empty s64
    by (auto simp: delete_post_def p)
  moreover have "irt_nodes (Suc lvl) ?n' + freed' = irt_nodes (Suc lvl) n"
    using irt_nodes_put [of s n lvl p cnt] post child ok empty s64
    by (auto simp: delete_post_def p f)
  ultimately show ?thesis using wf' by (simp add: delete_post_def)
qed

lemma irt_del_post:
  assumes "irt_wf lvl n" and "irt_lookup_from lvl index (Child n) = Some e"
  shows "delete_post lvl index n (fst (irt_del lvl index n)) (snd (irt_del lvl index n))"
  using assms
proof (induction lvl arbitrary: n)
  case 0
  then show ?case using irt_del_leaf_post by simp
next
  case (Suc lvl)
  from Suc.prems(2) obtain c where c: "node_slots n ! IRT_SLOT index (Suc lvl) = Child c"
    "irt_lookup_from lvl index (Child c) = Some e" by (rule irt_lookup_SomeE)
  have "delete_post lvl index c (fst (irt_del lvl index c)) (snd (irt_del lvl index c))"
    using Suc.IH [OF _ c(2)] irt_wf_child(1) [OF Suc.prems(1) _ c(1)] by simp
  from delete_post_lift [OF Suc.prems(1) refl c(1) this refl refl refl] show ?case
    using c(1) by (cases "node_count (fst (irt_del lvl index c)) = 0") (simp_all add: Let_def split_beta)
qed

text \<open>Walking down and pruning along the path does what the recursive form does.\<close>

lemma irt_prune_nonempty: "node_count c \<noteq> 0 \<Longrightarrow> irt_prune c path = (irt_plug c path, 0)"
  by (cases path) auto

lemma irt_descend_prune:
  assumes "irt_wf lvl n" and "irt_lookup_from lvl index (Child n) = Some e"
  shows "\<exists>leaf q. irt_descend lvl index n path = Some (leaf, q) \<and>
           node_slots leaf ! IRT_SLOT index 0 = Entry e \<and>
           irt_prune (Node ((node_slots leaf)[IRT_SLOT index 0 := Null]) (node_count leaf - 1)) q
           = apsnd ((+) (snd (irt_del lvl index n))) (irt_prune (fst (irt_del lvl index n)) path)"
  using assms
proof (induction lvl arbitrary: n path)
  case 0
  then show ?case by (auto simp: apsnd_def map_prod_def split_beta split: irt_slot.splits)
next
  case (Suc lvl)
  let ?s = "IRT_SLOT index (Suc lvl)"
  from Suc.prems(2) obtain c where c: "node_slots n ! ?s = Child c"
    "irt_lookup_from lvl index (Child c) = Some e" by (rule irt_lookup_SomeE)
  obtain c' f where d: "irt_del lvl index c = (c', f)" by fastforce
  have wfc: "irt_wf lvl c" using irt_wf_child(1) [OF Suc.prems(1) _ c(1)] by simp
  have pos: "node_count n \<noteq> 0"
    using node_ok_count_pos [OF irt_wf_node_ok [OF Suc.prems(1)], of ?s] c(1) by simp
  from Suc.IH [OF wfc c(2), of "(n, ?s) # path"] d obtain leaf q where
    "irt_descend lvl index c ((n, ?s) # path) = Some (leaf, q)"
    "node_slots leaf ! IRT_SLOT index 0 = Entry e"
    "irt_prune (Node ((node_slots leaf)[IRT_SLOT index 0 := Null]) (node_count leaf - 1)) q
     = apsnd ((+) f) (irt_prune c' ((n, ?s) # path))" by auto
  then show ?case
    using c(1) d pos
    by (auto simp: Let_def irt_prune_nonempty apsnd_def map_prod_def split_beta)
qed

lemma irt_descend_absent:
  assumes "irt_lookup_from lvl index (Child n) = None"
  shows "irt_descend lvl index n path = None \<or>
         (\<exists>leaf q. irt_descend lvl index n path = Some (leaf, q) \<and>
                   (\<forall>e. node_slots leaf ! IRT_SLOT index 0 \<noteq> Entry e))"
  using assms
proof (induction lvl arbitrary: n path)
  case 0
  then show ?case by (auto split: irt_slot.splits)
next
  case (Suc lvl)
  show ?case
  proof (cases "node_slots n ! IRT_SLOT index (Suc lvl)")
    case (Child c)
    with Suc.prems have "irt_lookup_from lvl index (Child c) = None" by simp
    from Suc.IH [OF this] Child show ?thesis by (simp add: Let_def)
  qed (simp_all add: Let_def)
qed

section \<open>Enumeration\<close>

lemma irt_prefix:
  assumes "64 ^ Suc lvl dvd unat p" and "unat p + 64 ^ Suc lvl \<le> 2 ^ 32" and "s < 64"
  shows "unat (p OR push_bit (lvl * 6) (of_nat s) :: u32) = unat p + s * 64 ^ lvl"
proof -
  have pow: "(64::nat) ^ k = 2 ^ (k * 6)" for k
    by (simp only: mult.commute [of k] power_mult) simp
  have less: "s * 64 ^ lvl < 64 ^ Suc lvl" using assms(3) by simp
  have pb: "push_bit (lvl * 6) (of_nat s :: u32) = of_nat (s * 64 ^ lvl)"
    by (simp add: push_bit_eq_mult pow)
  have "s * 64 ^ lvl < 2 ^ 32" using less assms(2) by linarith
  then have "unat (push_bit (lvl * 6) (of_nat s :: u32)) = s * 64 ^ lvl"
    unfolding pb unat_of_nat by simp
  moreover have "unat p OR s * 64 ^ lvl = unat p + s * 64 ^ lvl"
    using assms(1) less unfolding pow [of "Suc lvl"] by (rule or_disjoint_add)
  ultimately show ?thesis by (simp add: unsigned_or_eq)
qed

lemma irt_child_prefix:
  fixes p :: u32
  assumes "64 ^ Suc (Suc lvl) dvd unat p" and "unat p + 64 ^ Suc (Suc lvl) \<le> 2 ^ 32" and "s < 64"
  defines "q \<equiv> p OR push_bit (Suc lvl * 6) (of_nat s)"
  shows "unat q = unat p + s * 64 ^ Suc lvl" "64 ^ Suc lvl dvd unat q"
    "unat q + 64 ^ Suc lvl \<le> 2 ^ 32" "s * 64 ^ Suc lvl + 64 ^ Suc lvl \<le> 64 ^ Suc (Suc lvl)"
proof -
  let ?B = "64 ^ Suc lvl :: nat"
  show q: "unat q = unat p + s * ?B" unfolding q_def by (rule irt_prefix [OF assms(1-3)])
  show "?B dvd unat q"
    unfolding q using dvd_trans [OF le_imp_power_dvd assms(1), of "Suc lvl"] by simp
  have "Suc s * ?B \<le> 64 * ?B" by (rule mult_le_mono1) (use assms(3) in simp)
  then show le: "s * ?B + ?B \<le> 64 ^ Suc (Suc lvl)" by simp
  show "unat q + ?B \<le> 2 ^ 32" unfolding q using le assms(2) by linarith
qed

lemma irt_slot_of_range:
  assumes "64 ^ Suc lvl dvd unat p" and "s < 64"
    and "unat p + s * 64 ^ lvl \<le> unat i" and "unat i < unat p + s * 64 ^ lvl + 64 ^ lvl"
  shows "IRT_SLOT i lvl = s"
proof -
  let ?B = "64 ^ lvl :: nat"
  from assms(1) obtain q where q: "unat p = 64 * ?B * q" by (auto simp: dvd_def)
  define r where "r = unat i - (unat p + s * ?B)"
  have i: "unat i = (64 * q + s) * ?B + r" using assms(3) q by (simp add: r_def algebra_simps)
  have r: "r < ?B" using assms(3,4) by (simp add: r_def)
  have "unat i div ?B = 64 * q + s" unfolding i using r by simp
  then show ?thesis using assms(2) by (simp add: IRT_SLOT_div)
qed

lemma irt_range_of_slot:
  assumes "64 ^ Suc lvl dvd unat p" and "unat p \<le> unat i" and "unat i < unat p + 64 ^ Suc lvl"
  shows "unat p + IRT_SLOT i lvl * 64 ^ lvl \<le> unat i"
    and "unat i < unat p + IRT_SLOT i lvl * 64 ^ lvl + 64 ^ lvl"
proof -
  let ?B = "64 ^ lvl :: nat"
  from assms(1) obtain q where q: "unat p = 64 * ?B * q" by (auto simp: dvd_def)
  define r where "r = unat i - unat p"
  have i: "unat i = 64 * q * ?B + r" using assms(2) q by (simp add: r_def algebra_simps)
  have r: "r < 64 * ?B" using assms(2,3) by (simp add: r_def)
  then have "r div ?B < 64" by (simp add: less_mult_imp_div_less)
  then have slot: "IRT_SLOT i lvl = r div ?B" unfolding IRT_SLOT_div i by simp
  show "unat p + IRT_SLOT i lvl * ?B \<le> unat i"
    unfolding slot i q using div_times_less_eq_dividend [of r ?B] by (simp add: algebra_simps)
  show "unat i < unat p + IRT_SLOT i lvl * ?B + ?B"
    unfolding slot i q using dividend_less_div_times [of ?B r] by (simp add: algebra_simps)
qed

lemma mem_child_case:
  "x \<in> set (case p of Child c \<Rightarrow> f c | _ \<Rightarrow> []) \<longleftrightarrow> (\<exists>c. p = Child c \<and> x \<in> set (f c))"
  by (cases p) simp_all

lemma irt_iterate_mem:
  assumes "64 ^ Suc lvl dvd unat p" and "unat p + 64 ^ Suc lvl \<le> 2 ^ 32"
  shows "(i, e) \<in> set (irt_iterate_node lvl p n) \<longleftrightarrow>
         unat p \<le> unat i \<and> unat i < unat p + 64 ^ Suc lvl \<and> irt_lookup_from lvl i (Child n) = Some e"
  using assms
proof (induction lvl arbitrary: p n)
  case 0
  have pre: "unat (p OR of_nat s :: u32) = unat p + s" if "s < 64" for s
    using irt_prefix [OF 0 that] by simp
  show ?case
  proof
    assume "(i, e) \<in> set (irt_iterate_node 0 p n)"
    then obtain s where s: "s < 64" "node_slots n ! s = Entry e" "i = p OR of_nat s"
      by (auto split: irt_slot.splits)
    with pre have i: "unat i = unat p + s" by simp
    have "IRT_SLOT i 0 = s" by (rule irt_slot_of_range [OF "0"(1) s(1)]) (simp_all add: i)
    then show "unat p \<le> unat i \<and> unat i < unat p + 64 ^ Suc 0 \<and> irt_lookup_from 0 i (Child n) = Some e"
      using s i by simp
  next
    assume r: "unat p \<le> unat i \<and> unat i < unat p + 64 ^ Suc 0 \<and> irt_lookup_from 0 i (Child n) = Some e"
    then have e: "node_slots n ! IRT_SLOT i 0 = Entry e" by (auto split: irt_slot.splits)
    have "unat i = unat p + IRT_SLOT i 0"
      using irt_range_of_slot [OF "0"(1), of i] r by simp
    then have "i = p OR of_nat (IRT_SLOT i 0)" using pre [OF IRT_SLOT_less] by (simp add: word_eq_unatI)
    then show "(i, e) \<in> set (irt_iterate_node 0 p n)"
      using e by (auto intro!: bexI [of _ "IRT_SLOT i 0"])
  qed
next
  case (Suc lvl)
  let ?B = "64 ^ Suc lvl :: nat" and ?p = "\<lambda>s. p OR push_bit (Suc lvl * 6) (of_nat s) :: u32"
  note pre = irt_child_prefix(1) [OF Suc.prems]
    and dvd = irt_child_prefix(2) [OF Suc.prems]
    and bound = irt_child_prefix(3) [OF Suc.prems]
    and top = irt_child_prefix(4) [OF Suc.prems]
  have mem: "(i, e) \<in> set (irt_iterate_node lvl (?p s) c) \<longleftrightarrow>
      unat p + s * ?B \<le> unat i \<and> unat i < unat p + s * ?B + ?B \<and> irt_lookup_from lvl i (Child c) = Some e"
    if "s < 64" for s c
    using Suc.IH [OF dvd [OF that] bound [OF that]] pre [OF that] by simp
  show ?case
  proof
    assume "(i, e) \<in> set (irt_iterate_node (Suc lvl) p n)"
    then obtain s c where s: "s < 64" "node_slots n ! s = Child c"
      and "(i, e) \<in> set (irt_iterate_node lvl (?p s) c)"
      by (auto simp: mem_child_case dest: sym)
    with mem have r: "unat p + s * ?B \<le> unat i" "unat i < unat p + s * ?B + ?B"
      "irt_lookup_from lvl i (Child c) = Some e" by auto
    have "IRT_SLOT i (Suc lvl) = s" by (rule irt_slot_of_range [OF Suc.prems(1) s(1) r(1,2)])
    then have "irt_lookup_from (Suc lvl) i (Child n) = Some e" using r(3) s(2) by simp
    moreover have "unat i < unat p + 64 ^ Suc (Suc lvl)" using r(2) top [OF s(1)] by linarith
    ultimately show "unat p \<le> unat i \<and> unat i < unat p + 64 ^ Suc (Suc lvl) \<and>
        irt_lookup_from (Suc lvl) i (Child n) = Some e"
      using r(1) by simp
  next
    assume r: "unat p \<le> unat i \<and> unat i < unat p + 64 ^ Suc (Suc lvl) \<and>
        irt_lookup_from (Suc lvl) i (Child n) = Some e"
    then obtain c where c: "node_slots n ! IRT_SLOT i (Suc lvl) = Child c"
      "irt_lookup_from lvl i (Child c) = Some e" by (metis irt_lookup_SomeE)
    have "(i, e) \<in> set (irt_iterate_node lvl (?p (IRT_SLOT i (Suc lvl))) c)"
      using mem [OF IRT_SLOT_less] irt_range_of_slot [OF Suc.prems(1), of i] r c(2) by simp
    then show "(i, e) \<in> set (irt_iterate_node (Suc lvl) p n)"
      using c(1) by (auto intro!: bexI [of _ "IRT_SLOT i (Suc lvl)"])
  qed
qed

lemma irt_iterate_sorted:
  assumes "64 ^ Suc lvl dvd unat p" and "unat p + 64 ^ Suc lvl \<le> 2 ^ 32"
  shows "sorted_wrt (\<lambda>x y. unat (fst x) < unat (fst y)) (irt_iterate_node lvl p n)"
  using assms
proof (induction lvl arbitrary: p n)
  case 0
  have pre: "unat (p OR of_nat s :: u32) = unat p + s" if "s < 64" for s
    using irt_prefix [OF 0 that] by simp
  show ?case
    unfolding irt_iterate_node.simps
    by (rule sorted_wrt_concat_upt) (auto simp: pre split: irt_slot.splits)
next
  case (Suc lvl)
  let ?B = "64 ^ Suc lvl :: nat" and ?p = "\<lambda>s. p OR push_bit (Suc lvl * 6) (of_nat s) :: u32"
  note pre = irt_child_prefix(1) [OF Suc.prems]
    and dvd = irt_child_prefix(2) [OF Suc.prems]
    and bound = irt_child_prefix(3) [OF Suc.prems]
    and top = irt_child_prefix(4) [OF Suc.prems]
  let ?f = "\<lambda>s. case node_slots n ! s of Child c \<Rightarrow> irt_iterate_node lvl (?p s) c | _ \<Rightarrow> []"
  have range: "unat p + s * ?B \<le> unat (fst x) \<and> unat (fst x) < unat p + s * ?B + ?B"
    if "s < 64" "x \<in> set (?f s)" for s x
  proof -
    from that(2) obtain c where "x \<in> set (irt_iterate_node lvl (?p s) c)"
      unfolding mem_child_case by blast
    then show ?thesis
      using irt_iterate_mem [OF dvd [OF that(1)] bound [OF that(1)], of "fst x" "snd x" c]
      unfolding pre [OF that(1)] by simp
  qed
  have srt: "sorted_wrt (\<lambda>x y. unat (fst x) < unat (fst y)) (?f s)" if "s < 64" for s
    using Suc.IH [OF dvd [OF that] bound [OF that]] by (simp split: irt_slot.splits)
  have less: "unat (fst x) < unat (fst y)"
    if "s < t" "t < 64" "x \<in> set (?f s)" "y \<in> set (?f t)" for s t x y
  proof -
    have "Suc s * ?B \<le> t * ?B" by (rule mult_le_mono1) (use that(1) in simp)
    then have le: "s * ?B + ?B \<le> t * ?B" by simp
    have "s < 64" using that(1,2) by simp
    then show ?thesis using range [OF _ that(3)] range [OF that(2,4)] le by linarith
  qed
  show ?case
    unfolding irt_iterate_node.simps by (rule sorted_wrt_concat_upt [OF srt less])
qed

section \<open>Teardown\<close>

lemma irt_destroy_calls: "fst (irt_destroy_node lvl True p n) = irt_iterate_node lvl p n"
proof (induction lvl arbitrary: p n)
  case 0
  then show ?case by simp
next
  case (Suc lvl)
  let ?g = "\<lambda>s. case node_slots n ! s of
               Child c \<Rightarrow> irt_destroy_node lvl True (p OR push_bit (Suc lvl * 6) (of_nat s)) c
             | _ \<Rightarrow> ([], 0)"
  have "(fst \<circ> ?g) s = (case node_slots n ! s of
             Child c \<Rightarrow> irt_iterate_node lvl (p OR push_bit (Suc lvl * 6) (of_nat s)) c | _ \<Rightarrow> [])" for s
    using Suc.IH by (simp split: irt_slot.split)
  then have "map (fst \<circ> ?g) [0..<64] = map (\<lambda>s. case node_slots n ! s of
             Child c \<Rightarrow> irt_iterate_node lvl (p OR push_bit (Suc lvl * 6) (of_nat s)) c | _ \<Rightarrow> []) [0..<64]"
    by (intro map_cong refl)
  then show ?case
    by (simp only: irt_destroy_node.simps irt_iterate_node.simps Let_def fst_conv map_map)
qed

lemma irt_destroy_frees:
  assumes "irt_wf lvl n"
  shows "snd (irt_destroy_node lvl fn p n) = irt_nodes lvl n"
  using assms
proof (induction lvl arbitrary: p n)
  case 0
  then show ?case by simp
next
  case (Suc lvl)
  let ?g = "\<lambda>s. case node_slots n ! s of
               Child c \<Rightarrow> irt_destroy_node lvl fn (p OR push_bit (Suc lvl * 6) (of_nat s)) c
             | _ \<Rightarrow> ([], 0)"
  have len: "length (node_slots n) = 64" using irt_wf_node_ok [OF Suc.prems] by simp
  have "(snd \<circ> ?g) s = slot_nodes lvl (node_slots n ! s)" if "s < 64" for s
    using Suc.IH irt_wf_child(1) [OF Suc.prems that] by (auto split: irt_slot.split)
  then have "map (snd \<circ> ?g) [0..<64] = map (\<lambda>s. slot_nodes lvl (node_slots n ! s)) [0..<64]"
    by (intro map_cong refl) simp
  also have "\<dots> = map (slot_nodes lvl) (node_slots n)"
    by (intro nth_equalityI) (simp_all only: length_map length_upt len nth_map nth_upt diff_zero add_0)
  finally show ?case
    by (simp only: irt_destroy_node.simps irt_nodes.simps Let_def snd_conv map_map)
qed
section \<open>The tree as a map\<close>

lemma irt_entries_le: "irt_wf lvl n \<Longrightarrow> irt_entries lvl n \<le> 64 ^ Suc lvl"
proof (induction lvl arbitrary: n)
  case 0
  then have "length (node_slots n) = 64" by (simp add: node_ok_def)
  then show ?case using length_filter_le [of "\<lambda>s. s \<noteq> Null" "node_slots n"] by simp
next
  case (Suc lvl)
  have len: "length (node_slots n) = 64" using irt_wf_node_ok [OF Suc.prems] by simp
  have "slot_entries lvl s \<le> 64 ^ Suc lvl" if "s \<in> set (node_slots n)" for s
    using Suc.IH Suc.prems that by (fastforce split: irt_slot.splits)
  then have "sum_list (map (slot_entries lvl) (node_slots n))
        \<le> sum_list (map (\<lambda>_. 64 ^ Suc lvl) (node_slots n))"
    by (rule sum_list_mono)
  also have "\<dots> = 64 ^ Suc (Suc lvl)"
    by (simp add: map_replicate_const sum_list_replicate len)
  finally show ?case by simp
qed

lemma irt_key_index: "unat i < 2 ^ 24 \<Longrightarrow> irt_key 3 i = unat i"
  by (simp add: irt_key_def)

lemma irt_key_index_eq:
  "unat i < 2 ^ 24 \<Longrightarrow> unat j < 2 ^ 24 \<Longrightarrow> irt_key 3 j = irt_key 3 i \<longleftrightarrow> j = i"
  by (simp add: irt_key_index word_unat_eq_iff)

text \<open>The count of a tree never comes near the width of \<^verbatim>\<open>irt_count\<close>.\<close>

lemma tree_ok_count: "tree_ok t \<Longrightarrow> unat (irt_count t) \<le> 2 ^ 24"
  using irt_entries_le [of 3] by (fastforce simp: tree_ok_def split: irt_slot.splits)

lemma tree_ok_init: "tree_ok ipc_radix_init"
  by (simp add: tree_ok_def ipc_radix_init_def)

lemma ipc_radix_lookup_init: "ipc_radix_lookup ipc_radix_init i = None"
  by (simp add: ipc_radix_lookup_def ipc_radix_init_def)

lemma irt_count_Suc:
  assumes "unat (c :: u32) \<le> 2 ^ 24"
  shows "unat (c + 1) = Suc (unat c)"
  using assms by (simp add: unat_word_ariths)

text \<open>
  The root an insertion starts from (the tree's own, or the first node of the supply) and
  what it has left of the supply.
\<close>

lemma insert_root:
  assumes "tree_ok t" and "supply_ok k supply" and "4 \<le> k"
  obtains r s' k' where
    "(case irt_root t of Child r \<Rightarrow> Some (r, supply) | _ \<Rightarrow> irt_pop supply) = Some (r, s')"
    "irt_wf 3 r" "supply_ok k' s'" "3 \<le> k'" "irt_nodes 3 r + k' = tree_nodes t + k"
    "irt_entries 3 r = unat (irt_count t)"
    "\<And>j. irt_lookup_from 3 j (Child r) = ipc_radix_lookup t j"
proof (cases "irt_root t")
  case Null
  obtain k0 where k: "k = Suc k0" "3 \<le> k0" using assms(3) by (cases k) auto
  with assms(2) obtain q where "irt_pop supply = Some (ipc_radix_node_alloc, q)" "supply_ok k0 q"
    using irt_pop_ok by metis
  with Null k assms(1) show ?thesis
    by (intro that [of ipc_radix_node_alloc q k0])
      (simp_all add: irt_wf_alloc tree_nodes_def tree_ok_def ipc_radix_lookup_def)
next
  case (Child r)
  with assms show ?thesis
    by (intro that [of r "supply" k]) (simp_all add: tree_nodes_def tree_ok_def ipc_radix_lookup_def)
next
  case (Entry e)
  with assms(1) show ?thesis by (simp add: tree_ok_def)
qed

lemma ipc_radix_insert_spec:
  assumes "tree_ok t" and "ipc_radix_lookup t i = None" and "supply_ok k supply" and "4 \<le> k"
  obtains t' s' k' where
    "ipc_radix_insert t i e supply = Some (t', s')" "tree_ok t'"
    "\<And>j. ipc_radix_lookup t' j = (if irt_key 3 j = irt_key 3 i then Some e else ipc_radix_lookup t j)"
    "irt_count t' = irt_count t + 1" "supply_ok k' s'" "tree_nodes t' + k' = tree_nodes t + k"
proof -
  from assms(1,3,4) obtain r s1 k1 where
    root: "(case irt_root t of Child r \<Rightarrow> Some (r, supply) | _ \<Rightarrow> irt_pop supply) = Some (r, s1)"
    and r: "irt_wf 3 r" "supply_ok k1 s1" "3 \<le> k1"
    and n: "irt_nodes 3 r + k1 = tree_nodes t + k" "irt_entries 3 r = unat (irt_count t)"
    and l: "\<And>j. irt_lookup_from 3 j (Child r) = ipc_radix_lookup t j"
    by (rule insert_root) (rule that)
  have "irt_lookup_from 3 i (Child r) = None" using l assms(2) by simp
  from irt_insert_from_succeeds [OF r this] obtain r' s' where
    ins: "irt_insert_from 3 i e r s1 = Some (r', s')" by fastforce
  from irt_insert_from_post [OF r(1,2) ins] obtain k' where
    post: "irt_wf 3 r'" "node_count r' \<noteq> 0" "irt_entries 3 r' = Suc (irt_entries 3 r)"
      "supply_ok k' s'" "irt_nodes 3 r' + k' = irt_nodes 3 r + k1"
      "\<And>j. irt_lookup_from 3 j (Child r')
        = (if irt_key 3 j = irt_key 3 i then Some e else irt_lookup_from 3 j (Child r))"
    unfolding insert_post_def by blast
  show ?thesis
  proof (rule that)
    show "ipc_radix_insert t i e supply
          = Some (\<lparr>irt_root = Child r', irt_count = irt_count t + 1\<rparr>, s')"
      unfolding ipc_radix_insert_def root using ins by simp
    show "tree_ok \<lparr>irt_root = Child r', irt_count = irt_count t + 1\<rparr>"
      using post(1-3) n(2) irt_count_Suc [OF tree_ok_count [OF assms(1)]] by (simp add: tree_ok_def)
    show "tree_nodes \<lparr>irt_root = Child r', irt_count = irt_count t + 1\<rparr> + k' = tree_nodes t + k"
      using post(5) n(1) by (simp add: tree_nodes_def)
  qed (use post(4,6) l in \<open>simp_all add: ipc_radix_lookup_def\<close>)
qed

lemma ipc_radix_delete_absent:
  assumes "ipc_radix_lookup t i = None"
  shows "ipc_radix_delete t i = (None, t, 0)"
proof (cases "irt_root t")
  case (Child r)
  with assms have "irt_lookup_from 3 i (Child r) = None" by (simp add: ipc_radix_lookup_def)
  from irt_descend_absent [OF this, of "[]"] Child show ?thesis
    by (auto simp: ipc_radix_delete_def Let_def split: irt_slot.split)
qed (simp_all add: ipc_radix_delete_def)

lemma ipc_radix_delete_spec:
  assumes "tree_ok t" and "ipc_radix_lookup t i = Some e"
  obtains t' freed where
    "ipc_radix_delete t i = (Some e, t', freed)" "tree_ok t'"
    "\<And>j. ipc_radix_lookup t' j = (if irt_key 3 j = irt_key 3 i then None else ipc_radix_lookup t j)"
    "irt_count t' = irt_count t - 1" "tree_nodes t' + freed = tree_nodes t"
proof -
  from assms(2) obtain r where root: "irt_root t = Child r"
    by (cases "irt_root t") (auto simp: ipc_radix_lookup_def numeral_3_eq_3)
  with assms have r: "irt_wf 3 r" "unat (irt_count t) = irt_entries 3 r"
    and look: "irt_lookup_from 3 i (Child r) = Some e"
    by (simp_all add: tree_ok_def ipc_radix_lookup_def)
  obtain r' f where d: "irt_del 3 i r = (r', f)" by fastforce
  have post: "irt_wf 3 r'" "Suc (irt_entries 3 r') = irt_entries 3 r"
    "irt_nodes 3 r' + f = irt_nodes 3 r"
    "\<And>j. irt_lookup_from 3 j (Child r')
        = (if irt_key 3 j = irt_key 3 i then None else irt_lookup_from 3 j (Child r))"
    using irt_del_post [OF r(1) look] d by (auto simp: delete_post_def)
  have cnt: "unat (irt_count t - 1) = irt_entries 3 r'"
    using r(2) post(2) unat_minus_one [of "irt_count t"] by fastforce
  from irt_descend_prune [OF r(1) look, of "[]"] d obtain leaf q where
    "irt_descend 3 i r [] = Some (leaf, q)" "node_slots leaf ! IRT_SLOT i 0 = Entry e"
    "irt_prune (Node ((node_slots leaf)[IRT_SLOT i 0 := Null]) (node_count leaf - 1)) q = (r', f)"
    by auto
  then have del: "ipc_radix_delete t i =
      (if node_count r' = 0
       then (Some e, \<lparr>irt_root = Null, irt_count = irt_count t - 1\<rparr>, Suc f)
       else (Some e, \<lparr>irt_root = Child r', irt_count = irt_count t - 1\<rparr>, f))"
    by (simp add: ipc_radix_delete_def root Let_def)
  show ?thesis
  proof (cases "node_count r' = 0")
    case True
    then have e: "r' = ipc_radix_node_alloc" by (rule node_empty [OF irt_wf_node_ok [OF post(1)]])
    then have z: "irt_count t - 1 = 0" using cnt by (simp add: unat_eq_0)
    have none: "irt_lookup_from 3 j (Child r) = None" if "irt_key 3 j \<noteq> irt_key 3 i" for j
      using post(4) [of j] e that by simp
    show ?thesis
    proof (rule that)
      show "ipc_radix_delete t i = (Some e, \<lparr>irt_root = Null, irt_count = irt_count t - 1\<rparr>, Suc f)"
        using del True by simp
    qed (use e z post(3) none root in \<open>simp_all add: tree_ok_def tree_nodes_def ipc_radix_lookup_def\<close>)
  next
    case False
    show ?thesis
    proof (rule that)
      show "ipc_radix_delete t i = (Some e, \<lparr>irt_root = Child r', irt_count = irt_count t - 1\<rparr>, f)"
        using del False by simp
    qed (use cnt False post root in \<open>simp_all add: tree_ok_def tree_nodes_def ipc_radix_lookup_def\<close>)
  qed
qed

lemma ipc_radix_iterate_mem:
  "(i, e) \<in> set (ipc_radix_iterate t) \<longleftrightarrow> unat i < 2 ^ 24 \<and> ipc_radix_lookup t i = Some e"
proof (cases "irt_root t")
  case (Child r)
  have "64 ^ Suc 3 = (2 :: nat) ^ 24" by simp
  then show ?thesis
    using irt_iterate_mem [of 3 0 i e r] Child
    by (simp add: ipc_radix_iterate_def ipc_radix_lookup_def)
qed (simp_all add: ipc_radix_iterate_def ipc_radix_lookup_def numeral_3_eq_3)

lemma ipc_radix_iterate_sorted:
  "sorted_wrt (\<lambda>x y. unat (fst x) < unat (fst y)) (ipc_radix_iterate t)"
  by (cases "irt_root t") (simp_all add: ipc_radix_iterate_def irt_iterate_sorted)

lemma ipc_radix_destroy_spec:
  assumes "tree_ok t"
  shows "ipc_radix_destroy t True = (ipc_radix_iterate t, tree_nodes t, ipc_radix_init)"
  using assms irt_destroy_frees [of 3 _ True 0] irt_destroy_calls [of 3 0]
  by (auto simp: ipc_radix_destroy_def ipc_radix_iterate_def tree_nodes_def ipc_radix_init_def
      tree_ok_def split_beta split: irt_slot.splits)

lemma irt_wf_code [code]:
  "irt_wf 0 n = (node_ok n \<and> (\<forall>s \<in> set (node_slots n). case s of Child _ \<Rightarrow> False | _ \<Rightarrow> True))"
  "irt_wf (Suc lvl) n = (node_ok n \<and>
     (\<forall>s \<in> set (node_slots n).
        case s of Null \<Rightarrow> True | Child c \<Rightarrow> node_count c \<noteq> 0 \<and> irt_wf lvl c | Entry _ \<Rightarrow> False))"
  by (auto split: irt_slot.splits)

section \<open>The interface to the name space\<close>

text \<open>
  What a user of the tree relies on: a finite map on 24-bit indices whose insertion never
  fails for want of memory and whose enumeration is ascending.  The facts that follow from
  the laws alone are proved here once; they do not depend on how the map is represented.
\<close>

locale index_map =
  fixes inv :: "'t \<Rightarrow> bool" and empty :: 't
    and look :: "'t \<Rightarrow> u32 \<Rightarrow> 'e option"
    and ins :: "'t \<Rightarrow> u32 \<Rightarrow> 'e \<Rightarrow> 't option"
    and del :: "'t \<Rightarrow> u32 \<Rightarrow> 'e option \<times> 't"
    and items :: "'t \<Rightarrow> (u32 \<times> 'e) list"
  assumes inv_empty: "inv empty"
    and look_empty: "look empty i = None"
    and ins_law: "inv t \<Longrightarrow> unat i < 2 ^ 24 \<Longrightarrow> look t i = None \<Longrightarrow>
      \<exists>t'. ins t i e = Some t' \<and> inv t' \<and>
           (\<forall>j. unat j < 2 ^ 24 \<longrightarrow> look t' j = (if j = i then Some e else look t j))"
    and del_law: "inv t \<Longrightarrow> unat i < 2 ^ 24 \<Longrightarrow>
      \<exists>t'. del t i = (look t i, t') \<and> inv t' \<and>
           (\<forall>j. unat j < 2 ^ 24 \<longrightarrow> look t' j = (if j = i then None else look t j))"
    and items_mem: "(i, e) \<in> set (items t) \<longleftrightarrow> unat i < 2 ^ 24 \<and> look t i = Some e"
    and items_sorted: "sorted_wrt (\<lambda>x y. unat (fst x) < unat (fst y)) (items t)"
begin

lemma items_distinct: "distinct (map fst (items t))"
proof -
  have "sorted_wrt (<) (map (unat \<circ> fst) (items t))"
    using items_sorted by (simp add: sorted_wrt_map o_def)
  then have "distinct (map (unat \<circ> fst) (items t))" by (simp add: strict_sorted_iff)
  then show ?thesis by (metis distinct_map map_map)
qed

text \<open>The enumeration is determined by the map alone.\<close>

lemma items_ext:
  assumes "\<And>j. unat j < 2 ^ 24 \<Longrightarrow> look t j = look u j"
  shows "items t = items u"
proof -
  have "set (items t) = set (items u)" using assms by (auto simp: items_mem)
  then show ?thesis by (rule sorted_wrt_set_unique [OF items_sorted items_sorted])
qed

lemma del_items:
  assumes "inv t" and "unat i < 2 ^ 24"
  shows "items (snd (del t i)) = filter (\<lambda>x. fst x \<noteq> i) (items t)"
proof -
  from del_law [OF assms] have
    "\<forall>j. unat j < 2 ^ 24 \<longrightarrow> look (snd (del t i)) j = (if j = i then None else look t j)" by auto
  then have "set (items (snd (del t i))) = set (filter (\<lambda>x. fst x \<noteq> i) (items t))"
    by (auto simp: items_mem split: if_splits)
  then show ?thesis
    by (rule sorted_wrt_set_unique [OF items_sorted sorted_wrt_filter [OF items_sorted]])
qed

lemma ins_del:
  assumes "inv t" and "unat i < 2 ^ 24" and "look t i = None"
  shows "\<exists>t'. ins t i e = Some t' \<and> fst (del t' i) = Some e \<and> items (snd (del t' i)) = items t"
proof -
  from ins_law [OF assms] obtain t' where t': "ins t i e = Some t'" "inv t'"
    and l: "\<forall>j. unat j < 2 ^ 24 \<longrightarrow> look t' j = (if j = i then Some e else look t j)" by blast
  from del_law [OF t'(2) assms(2)] l assms(2) have "fst (del t' i) = Some e" by auto
  moreover have "look (snd (del t' i)) j = look t j" if "unat j < 2 ^ 24" for j
    using del_law [OF t'(2) assms(2)] l that assms(3) by auto
  then have "items (snd (del t' i)) = items t" by (rule items_ext)
  ultimately show ?thesis using t'(1) by blast
qed

end

interpretation radix: index_map tree_ok ipc_radix_init ipc_radix_lookup radix_insert4 radix_delete
  ipc_radix_iterate
proof
  fix t :: "'e ipc_radix_tree" and i :: u32 and e
  assume t: "tree_ok t" and i: "unat i < 2 ^ 24"
  show "\<exists>t'. radix_insert4 t i e = Some t' \<and> tree_ok t' \<and> (\<forall>j. unat j < 2 ^ 24 \<longrightarrow>
      ipc_radix_lookup t' j = (if j = i then Some e else ipc_radix_lookup t j))"
    if n: "ipc_radix_lookup t i = None"
    by (rule ipc_radix_insert_spec [OF t n ipc_radix_supply_ok order_refl, of e])
      (use i in \<open>auto simp: radix_insert4_def irt_key_index_eq\<close>)
  show "\<exists>t'. radix_delete t i = (ipc_radix_lookup t i, t') \<and> tree_ok t' \<and> (\<forall>j. unat j < 2 ^ 24 \<longrightarrow>
      ipc_radix_lookup t' j = (if j = i then None else ipc_radix_lookup t j))"
  proof (cases "ipc_radix_lookup t i")
    case None
    then show ?thesis using t by (auto simp: radix_delete_def ipc_radix_delete_absent)
  next
    case (Some e)
    show ?thesis
      by (rule ipc_radix_delete_spec [OF t Some])
        (use i in \<open>auto simp: radix_delete_def irt_key_index_eq Some\<close>)
  qed
qed (simp_all add: tree_ok_init ipc_radix_lookup_init ipc_radix_iterate_mem ipc_radix_iterate_sorted)

section \<open>Properties\<close>

text \<open>
  C20. Insertion with a supply of at least four nodes always succeeds on a free 24-bit index:
  the tree stays well formed, the new entry is found under its index, every other lookup is
  unchanged, the count grows by one, and the nodes taken from the supply are exactly the
  nodes the tree has gained.
\<close>

theorem radix_insert_correct:
  assumes "tree_ok t" and "ipc_radix_lookup t i = None" and "unat i < 2 ^ 24"
    and "supply_ok k supply" and "4 \<le> k"
  shows "\<exists>t' supply' k'. ipc_radix_insert t i e supply = Some (t', supply') \<and> tree_ok t' \<and>
    (\<forall>j. unat j < 2 ^ 24 \<longrightarrow>
        ipc_radix_lookup t' j = (if j = i then Some e else ipc_radix_lookup t j)) \<and>
    irt_count t' = irt_count t + 1 \<and>
    supply_ok k' supply' \<and> tree_nodes t' + k' = tree_nodes t + k"
  by (rule ipc_radix_insert_spec [OF assms(1,2,4,5), of e])
    (use assms(3) in \<open>auto simp: irt_key_index_eq\<close>)

lemma example_tree_ok: "tree_ok example_tree"
  "ipc_radix_lookup example_tree 6 = None" "ipc_radix_lookup example_tree 70 = Some 700"
proof -
  obtain t :: "nat ipc_radix_tree" where t: "radix_insert4 ipc_radix_init 70 700 = Some t" "tree_ok t"
    and l: "\<forall>j. unat j < 2 ^ 24 \<longrightarrow> ipc_radix_lookup t j = (if j = 70 then Some 700 else None)"
    using radix.ins_law [OF radix.inv_empty, of 70 "700 :: nat"] by (auto simp: radix.look_empty)
  obtain u where "radix_insert4 t 4096 40960 = Some u" "tree_ok u"
    and "\<forall>j. unat j < 2 ^ 24 \<longrightarrow>
        ipc_radix_lookup u j = (if j = 4096 then Some 40960 else ipc_radix_lookup t j)"
    using radix.ins_law [OF t(2), of 4096 40960] l by auto
  with t l show "tree_ok example_tree"
    "ipc_radix_lookup example_tree 6 = None" "ipc_radix_lookup example_tree 70 = Some 700"
    by (simp_all add: example_tree_def)
qed

theorem radix_insert_correct_witness:
  "\<exists>t' supply' k'. ipc_radix_insert example_tree 6 9 (ipc_radix_supply 4) = Some (t', supply') \<and>
     tree_ok t' \<and> ipc_radix_lookup t' 6 = Some 9 \<and> ipc_radix_lookup t' 70 = Some 700 \<and>
     tree_nodes t' + k' = tree_nodes example_tree + 4"
  using radix_insert_correct [OF example_tree_ok(1,2) _ ipc_radix_supply_ok order_refl, of 9]
    example_tree_ok(3) by fastforce

text \<open>
  C21. Deletion returns exactly what a lookup would have found, removes that entry and no
  other, keeps the tree well formed, and prunes: the nodes it frees are exactly the nodes the
  tree has lost.
\<close>

theorem radix_delete_correct:
  assumes "tree_ok t" and "unat i < 2 ^ 24"
  shows "\<exists>t' freed. ipc_radix_delete t i = (ipc_radix_lookup t i, t', freed) \<and> tree_ok t' \<and>
    (\<forall>j. unat j < 2 ^ 24 \<longrightarrow>
        ipc_radix_lookup t' j = (if j = i then None else ipc_radix_lookup t j)) \<and>
    irt_count t' = (if ipc_radix_lookup t i = None then irt_count t else irt_count t - 1) \<and>
    tree_nodes t' + freed = tree_nodes t"
proof (cases "ipc_radix_lookup t i")
  case None
  then show ?thesis using assms(1) by (auto simp: ipc_radix_delete_absent)
next
  case (Some e)
  then show ?thesis
    by (rule ipc_radix_delete_spec [OF assms(1)]) (use assms(2) in \<open>auto simp: irt_key_index_eq Some\<close>)
qed

theorem radix_delete_correct_witness:
  "\<exists>t' freed. ipc_radix_delete example_tree 70 = (Some 700, t', freed) \<and> tree_ok t' \<and>
     ipc_radix_lookup t' 70 = None \<and> tree_nodes t' + freed = tree_nodes example_tree"
  using radix_delete_correct [OF example_tree_ok(1), of 70] example_tree_ok(3) by fastforce

text \<open>
  C22. The enumeration visits the entries in strictly ascending index order, visits exactly
  the pairs a lookup finds, and tearing a well-formed tree down reports the same sequence,
  frees every node of the tree and leaves the empty tree.
\<close>

theorem radix_iterate_destroy_correct:
  assumes "tree_ok t"
  shows "sorted_wrt (\<lambda>x y. unat (fst x) < unat (fst y)) (ipc_radix_iterate t) \<and>
    set (ipc_radix_iterate t) = {(i, e). unat i < 2 ^ 24 \<and> ipc_radix_lookup t i = Some e} \<and>
    ipc_radix_destroy t True = (ipc_radix_iterate t, tree_nodes t, ipc_radix_init)"
  using assms by (auto simp: ipc_radix_iterate_sorted ipc_radix_iterate_mem ipc_radix_destroy_spec)

theorem radix_iterate_destroy_witness:
  "set (ipc_radix_iterate example_tree)
     = {(i, e). unat i < 2 ^ 24 \<and> ipc_radix_lookup example_tree i = Some e} \<and>
   ipc_radix_destroy example_tree True
     = (ipc_radix_iterate example_tree, tree_nodes example_tree, ipc_radix_init)"
  using radix_iterate_destroy_correct [OF example_tree_ok(1)] by blast

text \<open>
  C23. Enumeration does not depend on the shape history: deleting an index filters it out of
  the enumeration, and deleting what was just inserted restores the enumeration exactly.
\<close>

theorem radix_insert_delete_roundtrip:
  assumes "tree_ok t" and "unat i < 2 ^ 24" and "ipc_radix_lookup t i = None"
  shows "\<exists>t'. radix_insert4 t i e = Some t' \<and> fst (radix_delete t' i) = Some e \<and>
           ipc_radix_iterate (snd (radix_delete t' i)) = ipc_radix_iterate t"
  using assms by (rule radix.ins_del)

theorem radix_insert_delete_roundtrip_witness:
  "\<exists>t'. radix_insert4 example_tree 6 9 = Some t' \<and> fst (radix_delete t' 6) = Some 9 \<and>
     ipc_radix_iterate (snd (radix_delete t' 6)) = ipc_radix_iterate example_tree"
  using radix_insert_delete_roundtrip [OF example_tree_ok(1) _ example_tree_ok(2)] by simp

end
