(* ===== verification/Proc_Table.thy ===== *)
theory Proc_Table
  imports Uros_Prelude
begin

text \<open>
  The state of the process server, \<^verbatim>\<open>proc_server/proc_main.c\<close>: the fixed table of 256 pid
  entries, the pid and handle counters, and the record of the Mach calls the server has
  issued.  The server runs a single \<^verbatim>\<open>mach_msg_server\<close> loop, so a handler runs from start
  to end before the next one; \<^verbatim>\<open>pid_lock\<close> is therefore never contended and a handler is one
  function on the state.

  The kernel and the other servers are a parameter \<open>K\<close> of every handler: the answer to a
  call may depend on the call and on everything that was called before.
\<close>

section \<open>Types\<close>

type_synonym proc_pid = u32
type_synonym i32 = "32 word"

abbreviation (input) PROC_PID_NONE :: proc_pid where "PROC_PID_NONE \<equiv> 0"
abbreviation (input) PROC_PID_INIT :: proc_pid where "PROC_PID_INIT \<equiv> 1"

definition PROC_MAX_TASKS :: nat where "PROC_MAX_TASKS = 256"
definition PROC_CMDLINE_MAX :: nat where "PROC_CMDLINE_MAX = 128"

definition PROC_STATE_RUNNING :: u8 where "PROC_STATE_RUNNING = 82"
definition PROC_STATE_ZOMBIE :: u8 where "PROC_STATE_ZOMBIE = 90"

text \<open>Result codes of the \<^verbatim>\<open>proc.defs\<close> calls (\<^verbatim>\<open>PROC_OK\<close> and \<^verbatim>\<open>PROC_ERR_*\<close>).\<close>

datatype proc_result =
    PROC_OK | PROC_ERR_INVAL | PROC_ERR_NO_SLOT | PROC_ERR_NOT_FOUND | PROC_ERR_KERNEL
  | PROC_ERR_BAD_SIGNO | PROC_ERR_PERM | PROC_ERR_DIFF_SESS | PROC_ERR_NO_CTTY
  | PROC_ERR_NO_CHILD

record proc_rusage =
  utime_sec :: u32
  utime_usec :: u32
  stime_sec :: u32
  stime_usec :: u32
  maxrss_kb :: u32
  virtual_kb :: u32
  minflt :: u32
  majflt :: u32
  msgsnd :: u32
  msgrcv :: u32

definition zero_rusage :: proc_rusage where
  "zero_rusage = \<lparr>utime_sec = 0, utime_usec = 0, stime_sec = 0, stime_usec = 0, maxrss_kb = 0,
     virtual_kb = 0, minflt = 0, majflt = 0, msgsnd = 0, msgrcv = 0\<rparr>"

text \<open>\<^verbatim>\<open>struct pid_entry\<close>; flags the source keeps in an int are booleans.\<close>

record pid_entry =
  pe_in_use :: bool
  pe_pid :: proc_pid
  pe_ppid :: proc_pid
  pe_pgrp_id :: proc_pid
  pe_sid :: proc_pid
  pe_ctty_port :: mach_port
  pe_fg_pgrp_id :: proc_pid
  pe_stopped :: bool
  pe_task_port :: mach_port
  pe_cmdline :: string
  pe_state :: u8
  pe_exit_code :: i32
  pe_exit_notify :: mach_port
  pe_signal_port :: mach_port
  pe_last_rusage :: proc_rusage
  pe_stat_handle_in_use :: bool
  pe_stat_handle_id :: u64
  pe_stat_offset :: u64

text \<open>An entry after \<^verbatim>\<open>memset(e, 0, sizeof(*e))\<close>.\<close>

definition zero_entry :: pid_entry where
  "zero_entry = \<lparr>pe_in_use = False, pe_pid = 0, pe_ppid = 0, pe_pgrp_id = 0, pe_sid = 0,
     pe_ctty_port = MACH_PORT_NULL, pe_fg_pgrp_id = 0, pe_stopped = False,
     pe_task_port = MACH_PORT_NULL, pe_cmdline = [], pe_state = 0, pe_exit_code = 0,
     pe_exit_notify = MACH_PORT_NULL, pe_signal_port = MACH_PORT_NULL,
     pe_last_rusage = zero_rusage, pe_stat_handle_in_use = False, pe_stat_handle_id = 0,
     pe_stat_offset = 0\<rparr>"

section \<open>Calls to the kernel and to other servers\<close>

datatype pcall =
    Port_deallocate mach_port
  | Request_dead_name mach_port mach_port
  | Send_exit_msg mach_port proc_pid i32
  | Send_signal_msg mach_port int proc_pid
  | Send_ctty_release mach_port proc_pid
  | Task_terminate mach_port
  | Task_suspend mach_port
  | Task_resume mach_port
  | Task_basic_info mach_port
  | Task_events_info mach_port
  | Vm_allocate nat
  | Usleep nat
  | Netname_list_mounts
  | Netname_look_up_mount string
  | Fs_unmount mach_port
  | Host_reboot u32

text \<open>What comes back: the return code and the out-parameters of the calls that have any.\<close>

record task_basic =
  tb_user_sec :: u32
  tb_user_usec :: u32
  tb_sys_sec :: u32
  tb_sys_usec :: u32
  tb_virtual_size :: u32
  tb_resident_size :: u32

record task_events =
  te_zero_fills :: u32
  te_cow_faults :: u32
  te_pageins :: u32
  te_messages_sent :: u32
  te_messages_received :: u32

record reply =
  r_kr :: kern_return
  r_port :: mach_port
  r_basic :: task_basic
  r_events :: task_events
  r_text :: string

type_synonym kernel = "pcall list \<Rightarrow> pcall \<Rightarrow> reply"

record proc_state =
  pid_table :: "pid_entry list"
  next_pid :: proc_pid
  next_stat_handle :: u64
  notify_port :: mach_port
  calls :: "pcall list"

definition kcall :: "kernel \<Rightarrow> pcall \<Rightarrow> proc_state \<Rightarrow> reply \<times> proc_state" where
  "kcall K c s = (K (calls s) c, s\<lparr>calls := calls s @ [c]\<rparr>)"

text \<open>A call whose return code the source casts to \<^verbatim>\<open>void\<close>.\<close>

definition kdo :: "pcall \<Rightarrow> proc_state \<Rightarrow> proc_state" where
  "kdo c s = s\<lparr>calls := calls s @ [c]\<rparr>"

definition kdo_if :: "bool \<Rightarrow> pcall \<Rightarrow> proc_state \<Rightarrow> proc_state" where
  "kdo_if b c s = (if b then kdo c s else s)"

section \<open>The table\<close>

definition initial_state :: "mach_port \<Rightarrow> proc_state" where
  "initial_state nport = \<lparr>pid_table = replicate PROC_MAX_TASKS zero_entry,
     next_pid = PROC_PID_INIT + 1, next_stat_handle = 1, notify_port = nport, calls = []\<rparr>"

definition find_by_pid_locked :: "proc_pid \<Rightarrow> proc_state \<Rightarrow> nat option" where
  "find_by_pid_locked p s = scan (\<lambda>e. pe_in_use e \<and> pe_pid e = p) (pid_table s)"

definition find_by_task_locked :: "mach_port \<Rightarrow> proc_state \<Rightarrow> nat option" where
  "find_by_task_locked t s = scan (\<lambda>e. pe_in_use e \<and> pe_task_port e = t) (pid_table s)"

definition find_session_leader_locked :: "proc_pid \<Rightarrow> proc_state \<Rightarrow> nat option" where
  "find_session_leader_locked sid s =
     (if sid = 0 then None
      else case find_by_pid_locked sid s of
             None \<Rightarrow> None
           | Some i \<Rightarrow> if pe_sid (pid_table s ! i) = sid then Some i else None)"

definition find_by_handle_locked :: "u64 \<Rightarrow> proc_state \<Rightarrow> nat option" where
  "find_by_handle_locked h s =
     scan (\<lambda>e. pe_in_use e \<and> pe_stat_handle_in_use e \<and> pe_stat_handle_id e = h) (pid_table s)"

definition entry :: "proc_state \<Rightarrow> nat \<Rightarrow> pid_entry" where
  "entry s i = pid_table s ! i"

definition set_entry :: "nat \<Rightarrow> pid_entry \<Rightarrow> proc_state \<Rightarrow> proc_state" where
  "set_entry i e s = s\<lparr>pid_table := (pid_table s)[i := e]\<rparr>"

text \<open>\<^verbatim>\<open>strncpy(dst, src, size - 1); dst[size - 1] = 0\<close>, as the string that results.\<close>

definition strncpy_z :: "nat \<Rightarrow> string \<Rightarrow> string" where
  "strncpy_z n src = take (n - 1) (takeWhile (\<lambda>c. c \<noteq> CHR 0x00) src)"

definition live :: "pid_entry \<Rightarrow> bool" where
  "live e \<longleftrightarrow> pe_in_use e \<and> pe_state e \<noteq> PROC_STATE_ZOMBIE"

text \<open>A kernel that accepts every call, for concrete runs.\<close>

definition ok_reply :: reply where
  "ok_reply = \<lparr>r_kr = KERN_SUCCESS, r_port = MACH_PORT_NULL,
     r_basic = \<lparr>tb_user_sec = 0, tb_user_usec = 0, tb_sys_sec = 0, tb_sys_usec = 0,
                tb_virtual_size = 0, tb_resident_size = 0\<rparr>,
     r_events = \<lparr>te_zero_fills = 0, te_cow_faults = 0, te_pageins = 0, te_messages_sent = 0,
                 te_messages_received = 0\<rparr>,
     r_text = []\<rparr>"

definition quiet_kernel :: kernel where
  "quiet_kernel h c = ok_reply"

end
