(* ===== verification/Proc_Server.thy ===== *)
theory Proc_Server
  imports Proc_Table
begin

text \<open>
  The handlers of the process server (\<^verbatim>\<open>proc_server/proc_main.c\<close>), one definition each, in
  the order of the source: registration and exec handoff, exit subscription and reaping,
  signals, sessions and process groups, the controlling terminal, shutdown, resource usage
  and the dead-name notification.  A handler returns its out-parameters and the new state.
\<close>

section \<open>Registration\<close>

definition fire_exit_notify :: "mach_port \<Rightarrow> proc_pid \<Rightarrow> i32 \<Rightarrow> proc_state \<Rightarrow> proc_state" where
  "fire_exit_notify notify pid code s =
     kdo_if (notify \<noteq> MACH_PORT_NULL) (Send_exit_msg notify pid code) s"

text \<open>
  The dead-name request both \<^verbatim>\<open>register\<close> and \<^verbatim>\<open>exec_handoff\<close> make; a previously registered
  notification right that comes back is dropped.  A failure is only reported on the console.
\<close>

definition request_dead_name :: "kernel \<Rightarrow> mach_port \<Rightarrow> proc_state \<Rightarrow> proc_state" where
  "request_dead_name K task s =
     (let (r, s) = kcall K (Request_dead_name task (notify_port s)) s
      in kdo_if (r_port r \<noteq> MACH_PORT_NULL) (Port_deallocate (r_port r)) s)"

text \<open>The entry \<^verbatim>\<open>proc_S_register\<close> writes over a free slot.\<close>

definition register_entry ::
  "proc_pid \<Rightarrow> proc_pid \<Rightarrow> mach_port \<Rightarrow> string \<Rightarrow> proc_state \<Rightarrow> pid_entry \<Rightarrow> pid_entry" where
  "register_entry pid parent_pid task_port cmdline s e =
     (let parent = (if parent_pid \<noteq> PROC_PID_NONE
                    then find_by_pid_locked parent_pid s else None)
      in e\<lparr>pe_in_use := True, pe_pid := pid, pe_ppid := parent_pid,
           pe_pgrp_id := (case parent of Some j \<Rightarrow> pe_pgrp_id (entry s j) | None \<Rightarrow> pid),
           pe_sid := (case parent of Some j \<Rightarrow> pe_sid (entry s j) | None \<Rightarrow> pid),
           pe_task_port := task_port, pe_state := PROC_STATE_RUNNING, pe_exit_code := 0,
           pe_exit_notify := MACH_PORT_NULL, pe_signal_port := MACH_PORT_NULL,
           pe_last_rusage := zero_rusage, pe_stat_handle_in_use := False,
           pe_cmdline := strncpy_z PROC_CMDLINE_MAX cmdline\<rparr>)"

text \<open>
  The new slot is marked in use and given its pid before the parent is looked up, so the
  lookup runs on a table that already holds the new pid.
\<close>

definition proc_S_register ::
  "kernel \<Rightarrow> proc_pid \<Rightarrow> mach_port \<Rightarrow> string \<Rightarrow> proc_state
     \<Rightarrow> (proc_pid \<times> proc_result) \<times> proc_state" where
  "proc_S_register K parent_pid task_port cmdline s =
     (case scan (\<lambda>e. pe_in_use e \<and> pe_task_port e = task_port) (pid_table s) of
        Some i \<Rightarrow> ((pe_pid (entry s i), PROC_OK), kdo (Port_deallocate task_port) s)
      | None \<Rightarrow>
          (case scan (\<lambda>e. \<not> pe_in_use e) (pid_table s) of
             None \<Rightarrow> ((0, PROC_ERR_NO_SLOT), s)
           | Some i \<Rightarrow>
               (let pid = next_pid s;
                    s1 = set_entry i ((entry s i)\<lparr>pe_in_use := True, pe_pid := pid,
                                                   pe_ppid := parent_pid\<rparr>)
                           (s\<lparr>next_pid := next_pid s + 1\<rparr>);
                    s2 = set_entry i (register_entry pid parent_pid task_port cmdline s1 (entry s1 i)) s1
                in ((pid, PROC_OK), request_dead_name K task_port s2))))"

definition proc_S_exec_handoff ::
  "kernel \<Rightarrow> proc_pid \<Rightarrow> mach_port \<Rightarrow> string \<Rightarrow> proc_state \<Rightarrow> proc_result \<times> proc_state" where
  "proc_S_exec_handoff K old_pid new_task cmdline s =
     (case find_by_pid_locked old_pid s of
        None \<Rightarrow> (PROC_ERR_NOT_FOUND,
                 kdo_if (new_task \<noteq> MACH_PORT_NULL) (Port_deallocate new_task) s)
      | Some i \<Rightarrow>
          (let e = entry s i;
               old_port = pe_task_port e;
               old_sigport = pe_signal_port e;
               s = set_entry i (e\<lparr>pe_task_port := new_task, pe_state := PROC_STATE_RUNNING,
                                   pe_signal_port := MACH_PORT_NULL,
                                   pe_cmdline := strncpy_z PROC_CMDLINE_MAX cmdline\<rparr>) s;
               s = kdo_if (old_sigport \<noteq> MACH_PORT_NULL) (Port_deallocate old_sigport) s;
               s = request_dead_name K new_task s;
               s = kdo_if (old_port \<noteq> MACH_PORT_NULL \<and> old_port \<noteq> new_task)
                     (Port_deallocate old_port) s
           in (PROC_OK, s)))"

section \<open>Exit subscription and reaping\<close>

definition proc_S_subscribe_exit ::
  "proc_pid \<Rightarrow> mach_port \<Rightarrow> proc_state \<Rightarrow> proc_result \<times> proc_state" where
  "proc_S_subscribe_exit pid notify s =
     (case find_by_pid_locked pid s of
        None \<Rightarrow> (PROC_ERR_NOT_FOUND, kdo_if (notify \<noteq> MACH_PORT_NULL) (Port_deallocate notify) s)
      | Some i \<Rightarrow>
          (let e = entry s i
           in if pe_state e = PROC_STATE_ZOMBIE then
                (let s = set_entry i zero_entry s;
                     s = kdo_if (pe_signal_port e \<noteq> MACH_PORT_NULL)
                           (Port_deallocate (pe_signal_port e)) s
                 in (PROC_OK, fire_exit_notify notify pid (pe_exit_code e) s))
              else if pe_exit_notify e \<noteq> MACH_PORT_NULL then
                (let s = set_entry i (e\<lparr>pe_exit_notify := MACH_PORT_NULL\<rparr>) s;
                     s = kdo (Port_deallocate (pe_exit_notify e)) s
                 in case find_by_pid_locked pid s of
                      None \<Rightarrow> (PROC_ERR_NOT_FOUND,
                               kdo_if (notify \<noteq> MACH_PORT_NULL) (Port_deallocate notify) s)
                    | Some j \<Rightarrow> (PROC_OK, set_entry j ((entry s j)\<lparr>pe_exit_notify := notify\<rparr>) s))
              else (PROC_OK, set_entry i (e\<lparr>pe_exit_notify := notify\<rparr>) s)))"

text \<open>The scan of \<^verbatim>\<open>proc_S_reap_zombie\<close> stops at the first zombie child it meets.\<close>

definition proc_S_reap_zombie ::
  "proc_pid \<Rightarrow> proc_state \<Rightarrow> (proc_pid \<times> i32 \<times> proc_result) \<times> proc_state" where
  "proc_S_reap_zombie parent_pid s =
     (case scan (\<lambda>e. pe_in_use e \<and> pe_ppid e = parent_pid \<and> pe_state e = PROC_STATE_ZOMBIE)
             (pid_table s) of
        Some i \<Rightarrow>
          (let e = entry s i;
               s = set_entry i zero_entry s;
               s = kdo_if (pe_signal_port e \<noteq> MACH_PORT_NULL) (Port_deallocate (pe_signal_port e)) s;
               s = kdo_if (pe_exit_notify e \<noteq> MACH_PORT_NULL) (Port_deallocate (pe_exit_notify e)) s
           in ((pe_pid e, pe_exit_code e, PROC_OK), s))
      | None \<Rightarrow>
          ((0, 0, if \<exists>e \<in> set (pid_table s). pe_in_use e \<and> pe_ppid e = parent_pid
                  then PROC_ERR_NOT_FOUND else PROC_ERR_NO_CHILD), s))"

record proc_entry =
  out_pid :: proc_pid
  out_ppid :: proc_pid
  out_state :: u8
  out_exit_code :: i32
  out_cmdline :: string

definition proc_S_list ::
  "kernel \<Rightarrow> proc_state \<Rightarrow> (proc_entry list \<times> nat \<times> proc_result) \<times> proc_state" where
  "proc_S_list K s =
     (let (r, s) = kcall K (Vm_allocate (144 * PROC_MAX_TASKS)) s
      in if r_kr r \<noteq> KERN_SUCCESS then (([], 0, PROC_ERR_KERNEL), s)
         else let out = map (\<lambda>e. \<lparr>out_pid = pe_pid e, out_ppid = pe_ppid e, out_state = pe_state e,
                                  out_exit_code = pe_exit_code e,
                                  out_cmdline = strncpy_z PROC_CMDLINE_MAX (pe_cmdline e)\<rparr>)
                        (filter pe_in_use (pid_table s))
              in ((out, length out, PROC_OK), s))"

section \<open>Signals\<close>

abbreviation (input) PROC_SIGKILL :: int where "PROC_SIGKILL \<equiv> 9"
abbreviation (input) PROC_SIGTERM :: int where "PROC_SIGTERM \<equiv> 15"
abbreviation (input) PROC_SIGCHLD :: int where "PROC_SIGCHLD \<equiv> 17"
abbreviation (input) PROC_SIGCONT :: int where "PROC_SIGCONT \<equiv> 18"
abbreviation (input) PROC_SIGSTOP :: int where "PROC_SIGSTOP \<equiv> 19"
abbreviation (input) PROC_SIGTSTP :: int where "PROC_SIGTSTP \<equiv> 20"
abbreviation (input) PROC_SIGTTIN :: int where "PROC_SIGTTIN \<equiv> 21"
abbreviation (input) PROC_SIGTTOU :: int where "PROC_SIGTTOU \<equiv> 22"
abbreviation (input) PROC_NSIG :: int where "PROC_NSIG \<equiv> 32"

definition signo_valid :: "int \<Rightarrow> bool" where
  "signo_valid signo \<longleftrightarrow> signo > 0 \<and> signo < PROC_NSIG"

datatype sig_dfl = SIG_DFL_TERM | SIG_DFL_STOP | SIG_DFL_IGN

definition sig_default_action :: "int \<Rightarrow> sig_dfl" where
  "sig_default_action signo =
     (if signo = PROC_SIGCHLD then SIG_DFL_IGN
      else if signo = PROC_SIGTSTP \<or> signo = PROC_SIGTTIN \<or> signo = PROC_SIGTTOU then SIG_DFL_STOP
      else SIG_DFL_TERM)"

text \<open>Suspend a task and, when that worked, mark its pid so that SIGCONT resumes it.\<close>

definition suspend_and_mark ::
  "kernel \<Rightarrow> proc_pid \<Rightarrow> mach_port \<Rightarrow> proc_state \<Rightarrow> proc_result \<times> proc_state" where
  "suspend_and_mark K pid task s =
     (let (r, s) = kcall K (Task_suspend task) s
      in if r_kr r = KERN_SUCCESS
         then (PROC_OK, case find_by_pid_locked pid s of
                          Some i \<Rightarrow> set_entry i ((entry s i)\<lparr>pe_stopped := True\<rparr>) s
                        | None \<Rightarrow> s)
         else (PROC_ERR_KERNEL, s))"

definition apply_default_disposition ::
  "kernel \<Rightarrow> proc_pid \<Rightarrow> int \<Rightarrow> mach_port \<Rightarrow> proc_state \<Rightarrow> proc_result \<times> proc_state" where
  "apply_default_disposition K pid signo task s =
     (if task = MACH_PORT_NULL then (PROC_ERR_KERNEL, s)
      else case sig_default_action signo of
             SIG_DFL_TERM \<Rightarrow>
               (let (r, s) = kcall K (Task_terminate task) s
                in (if r_kr r = KERN_SUCCESS then PROC_OK else PROC_ERR_KERNEL, s))
           | SIG_DFL_STOP \<Rightarrow> suspend_and_mark K pid task s
           | SIG_DFL_IGN \<Rightarrow> (PROC_OK, s))"

definition proc_S_set_signal_port ::
  "proc_pid \<Rightarrow> mach_port \<Rightarrow> proc_state \<Rightarrow> proc_result \<times> proc_state" where
  "proc_S_set_signal_port pid signal_port s =
     (case find_by_pid_locked pid s of
        None \<Rightarrow> (PROC_ERR_NOT_FOUND,
                 kdo_if (signal_port \<noteq> MACH_PORT_NULL) (Port_deallocate signal_port) s)
      | Some i \<Rightarrow>
          (let old = pe_signal_port (entry s i);
               s = set_entry i ((entry s i)\<lparr>pe_signal_port := signal_port\<rparr>) s
           in (PROC_OK, kdo_if (old \<noteq> MACH_PORT_NULL) (Port_deallocate old) s)))"

text \<open>The members a SIGCONT resumes, and the table with their marks cleared.\<close>

definition cont_member :: "proc_pid \<Rightarrow> pid_entry \<Rightarrow> bool" where
  "cont_member grp e \<longleftrightarrow> pe_in_use e \<and> pe_state e \<noteq> PROC_STATE_ZOMBIE \<and> pe_pgrp_id e = grp \<and> pe_stopped e"

definition continue_group :: "proc_pid \<Rightarrow> proc_state \<Rightarrow> proc_state" where
  "continue_group grp s =
     (let tasks = map pe_task_port (filter (cont_member grp) (pid_table s));
          s = s\<lparr>pid_table := map (\<lambda>e. if cont_member grp e then e\<lparr>pe_stopped := False\<rparr> else e)
                               (pid_table s)\<rparr>
      in fold (\<lambda>t. kdo (Task_resume t)) tasks s)"

text \<open>Forget a signal port that could not be sent to, unless it has been replaced meanwhile.\<close>

definition drop_stale_sigport :: "proc_pid \<Rightarrow> mach_port \<Rightarrow> proc_state \<Rightarrow> proc_state" where
  "drop_stale_sigport pid sigport s =
     (case find_by_pid_locked pid s of
        Some i \<Rightarrow>
          if pe_signal_port (entry s i) = sigport
          then kdo (Port_deallocate sigport)
                 (set_entry i ((entry s i)\<lparr>pe_signal_port := MACH_PORT_NULL\<rparr>) s)
          else s
      | None \<Rightarrow> s)"

definition proc_S_kill ::
  "kernel \<Rightarrow> proc_pid \<Rightarrow> int \<Rightarrow> proc_state \<Rightarrow> proc_result \<times> proc_state" where
  "proc_S_kill K pid signo s =
     (if \<not> signo_valid signo then (PROC_ERR_BAD_SIGNO, s)
      else case find_by_pid_locked pid s of
             None \<Rightarrow> (PROC_ERR_NOT_FOUND, s)
           | Some i \<Rightarrow>
               (let e = entry s i; task = pe_task_port e; sigport = pe_signal_port e
                in if pe_state e = PROC_STATE_ZOMBIE then (PROC_ERR_NOT_FOUND, s)
                   else if signo = PROC_SIGCONT then (PROC_OK, continue_group (pe_pgrp_id e) s)
                   else if signo = PROC_SIGKILL then
                     (let (r, s) = kcall K (Task_terminate task) s
                      in (if r_kr r = KERN_SUCCESS then PROC_OK else PROC_ERR_KERNEL, s))
                   else if signo = PROC_SIGSTOP then suspend_and_mark K pid task s
                   else if sigport = MACH_PORT_NULL then apply_default_disposition K pid signo task s
                   else (let (r, s) = kcall K (Send_signal_msg sigport signo PROC_PID_NONE) s
                         in if r_kr r \<noteq> KERN_SUCCESS
                            then apply_default_disposition K pid signo task
                                   (drop_stale_sigport pid sigport s)
                            else (PROC_OK, s))))"

section \<open>Sessions and process groups\<close>

definition proc_S_setsid :: "proc_pid \<Rightarrow> proc_state \<Rightarrow> (proc_pid \<times> proc_result) \<times> proc_state" where
  "proc_S_setsid pid s =
     (case find_by_pid_locked pid s of
        None \<Rightarrow> ((0, PROC_ERR_NOT_FOUND), s)
      | Some i \<Rightarrow>
          if \<exists>e \<in> set (pid_table s). pe_in_use e \<and> pe_pgrp_id e = pid then ((0, PROC_ERR_PERM), s)
          else ((pid, PROC_OK),
                set_entry i ((entry s i)\<lparr>pe_sid := pid, pe_pgrp_id := pid,
                                          pe_ctty_port := MACH_PORT_NULL, pe_fg_pgrp_id := 0\<rparr>) s))"

definition proc_S_setpgid :: "proc_pid \<Rightarrow> proc_pid \<Rightarrow> proc_state \<Rightarrow> proc_result \<times> proc_state" where
  "proc_S_setpgid pid pgrp s =
     (case find_by_pid_locked pid s of
        None \<Rightarrow> (PROC_ERR_NOT_FOUND, s)
      | Some i \<Rightarrow>
          (let target_pgrp = (if pgrp = 0 then pid else pgrp)
           in case scan (\<lambda>e. pe_in_use e \<and> pe_pgrp_id e = target_pgrp) (pid_table s) of
                Some j \<Rightarrow>
                  if pe_sid (entry s j) \<noteq> pe_sid (entry s i) then (PROC_ERR_DIFF_SESS, s)
                  else (PROC_OK, set_entry i ((entry s i)\<lparr>pe_pgrp_id := target_pgrp\<rparr>) s)
              | None \<Rightarrow> (PROC_OK, set_entry i ((entry s i)\<lparr>pe_pgrp_id := target_pgrp\<rparr>) s)))"

definition proc_S_getsid :: "proc_pid \<Rightarrow> proc_state \<Rightarrow> (proc_pid \<times> proc_result) \<times> proc_state" where
  "proc_S_getsid pid s =
     (case find_by_pid_locked pid s of
        Some i \<Rightarrow> ((pe_sid (entry s i), PROC_OK), s)
      | None \<Rightarrow> ((0, PROC_ERR_NOT_FOUND), s))"

definition proc_S_getpgid :: "proc_pid \<Rightarrow> proc_state \<Rightarrow> (proc_pid \<times> proc_result) \<times> proc_state" where
  "proc_S_getpgid pid s =
     (case find_by_pid_locked pid s of
        Some i \<Rightarrow> ((pe_pgrp_id (entry s i), PROC_OK), s)
      | None \<Rightarrow> ((0, PROC_ERR_NOT_FOUND), s))"

text \<open>
  \<^verbatim>\<open>killpg\<close> first records the live members of the group, each with the ports it will need,
  then dispatches; the count is the number of dispatches that worked.
\<close>

record killpg_target =
  kt_port :: mach_port
  kt_task :: mach_port
  kt_pid :: proc_pid

definition killpg_member :: "proc_pid \<Rightarrow> pid_entry \<Rightarrow> bool" where
  "killpg_member pgrp e \<longleftrightarrow> pe_in_use e \<and> pe_state e \<noteq> PROC_STATE_ZOMBIE \<and> pe_pgrp_id e = pgrp"

definition killpg_target_of :: "(pid_entry \<Rightarrow> mach_port) \<Rightarrow> pid_entry \<Rightarrow> killpg_target" where
  "killpg_target_of f e = \<lparr>kt_port = f e, kt_task = pe_task_port e, kt_pid = pe_pid e\<rparr>"

definition killpg_uncatch1 ::
  "kernel \<Rightarrow> int \<Rightarrow> killpg_target \<Rightarrow> nat \<times> proc_state \<Rightarrow> nat \<times> proc_state" where
  "killpg_uncatch1 K signo t = (\<lambda>(sent, s).
     (let (r, s) = kcall K (if signo = PROC_SIGKILL then Task_terminate (kt_port t)
                            else if signo = PROC_SIGSTOP then Task_suspend (kt_port t)
                            else Task_resume (kt_port t)) s
      in (if r_kr r = KERN_SUCCESS then Suc sent else sent, s)))"

definition killpg_default1 ::
  "kernel \<Rightarrow> int \<Rightarrow> proc_pid \<Rightarrow> mach_port \<Rightarrow> nat \<times> proc_state \<Rightarrow> nat \<times> proc_state" where
  "killpg_default1 K signo pid task = (\<lambda>(sent, s).
     (let (r, s) = apply_default_disposition K pid signo task s
      in (if r = PROC_OK then Suc sent else sent, s)))"

definition killpg_catch1 ::
  "kernel \<Rightarrow> int \<Rightarrow> killpg_target \<Rightarrow> nat \<times> proc_state \<Rightarrow> nat \<times> proc_state" where
  "killpg_catch1 K signo t = (\<lambda>(sent, s).
     (let (r, s) = kcall K (Send_signal_msg (kt_port t) signo PROC_PID_NONE) s
      in if r_kr r = KERN_SUCCESS then (Suc sent, s)
         else killpg_default1 K signo (kt_pid t) (kt_task t)
                (sent, drop_stale_sigport (kt_pid t) (kt_port t) s)))"

definition proc_S_killpg ::
  "kernel \<Rightarrow> proc_pid \<Rightarrow> int \<Rightarrow> proc_state \<Rightarrow> (nat \<times> proc_result) \<times> proc_state" where
  "proc_S_killpg K pgrp signo s =
     (if \<not> signo_valid signo then ((0, PROC_ERR_BAD_SIGNO), s)
      else
        (let members = filter (killpg_member pgrp) (pid_table s);
             is_uncatch = (signo = PROC_SIGKILL \<or> signo = PROC_SIGSTOP \<or> signo = PROC_SIGCONT);
             (sent, s) =
               (if is_uncatch
                then fold (killpg_uncatch1 K signo)
                       (map (killpg_target_of pe_task_port) members) (0, s)
                else
                  (let catchable = map (killpg_target_of pe_signal_port)
                                     (filter (\<lambda>e. pe_signal_port e \<noteq> MACH_PORT_NULL) members);
                       dfl = map (killpg_target_of pe_task_port)
                               (filter (\<lambda>e. pe_signal_port e = MACH_PORT_NULL) members)
                   in fold (\<lambda>t. killpg_default1 K signo (kt_pid t) (kt_port t)) dfl
                        (fold (killpg_catch1 K signo) catchable (0, s))))
         in ((sent, if sent > 0 then PROC_OK else PROC_ERR_NOT_FOUND), s)))"

section \<open>Controlling terminal\<close>

definition proc_S_set_ctty :: "proc_pid \<Rightarrow> mach_port \<Rightarrow> proc_state \<Rightarrow> proc_result \<times> proc_state" where
  "proc_S_set_ctty sid tty_port s =
     (case find_session_leader_locked sid s of
        None \<Rightarrow> (PROC_ERR_NOT_FOUND,
                 kdo_if (tty_port \<noteq> MACH_PORT_NULL) (Port_deallocate tty_port) s)
      | Some i \<Rightarrow>
          if pe_ctty_port (entry s i) \<noteq> MACH_PORT_NULL
          then (PROC_ERR_PERM, kdo_if (tty_port \<noteq> MACH_PORT_NULL) (Port_deallocate tty_port) s)
          else (PROC_OK, set_entry i ((entry s i)\<lparr>pe_ctty_port := tty_port,
                                              pe_fg_pgrp_id := pe_pgrp_id (entry s i)\<rparr>) s))"

definition notify_ctty_release :: "mach_port \<Rightarrow> proc_pid \<Rightarrow> proc_state \<Rightarrow> proc_state" where
  "notify_ctty_release ctty sid s = kdo_if (ctty \<noteq> MACH_PORT_NULL) (Send_ctty_release ctty sid) s"

definition proc_S_clear_ctty :: "proc_pid \<Rightarrow> proc_state \<Rightarrow> proc_result \<times> proc_state" where
  "proc_S_clear_ctty sid s =
     (case find_session_leader_locked sid s of
        None \<Rightarrow> (PROC_ERR_NOT_FOUND, s)
      | Some i \<Rightarrow>
          (let old = pe_ctty_port (entry s i);
               s = set_entry i ((entry s i)\<lparr>pe_ctty_port := MACH_PORT_NULL, pe_fg_pgrp_id := 0\<rparr>) s
           in (PROC_OK, if old \<noteq> MACH_PORT_NULL
                        then kdo (Port_deallocate old) (notify_ctty_release old sid s) else s)))"

definition proc_S_tcsetpgrp :: "proc_pid \<Rightarrow> proc_pid \<Rightarrow> proc_state \<Rightarrow> proc_result \<times> proc_state" where
  "proc_S_tcsetpgrp sid pgrp s =
     (case find_session_leader_locked sid s of
        None \<Rightarrow> (PROC_ERR_NOT_FOUND, s)
      | Some i \<Rightarrow>
          if pe_ctty_port (entry s i) = MACH_PORT_NULL then (PROC_ERR_NO_CTTY, s)
          else (PROC_OK, set_entry i ((entry s i)\<lparr>pe_fg_pgrp_id := pgrp\<rparr>) s))"

definition proc_S_tcgetpgrp :: "proc_pid \<Rightarrow> proc_state \<Rightarrow> (proc_pid \<times> proc_result) \<times> proc_state" where
  "proc_S_tcgetpgrp sid s =
     (case find_session_leader_locked sid s of
        None \<Rightarrow> ((0, PROC_ERR_NOT_FOUND), s)
      | Some i \<Rightarrow>
          if pe_ctty_port (entry s i) = MACH_PORT_NULL then ((0, PROC_ERR_NO_CTTY), s)
          else ((pe_fg_pgrp_id (entry s i), PROC_OK), s))"

section \<open>Shutdown\<close>

text \<open>The SIGTERM sweep; what happens during the grace period is not the server's doing.\<close>

definition proc_drain_sigterm_sweep :: "proc_state \<Rightarrow> proc_state" where
  "proc_drain_sigterm_sweep s =
     (let ports = map pe_signal_port
            (filter (\<lambda>e. pe_in_use e \<and> pe_state e \<noteq> PROC_STATE_ZOMBIE \<and>
                         pe_signal_port e \<noteq> MACH_PORT_NULL) (pid_table s))
      in if ports = [] then s
         else kdo (Usleep 800000)
                (fold (\<lambda>p. kdo (Send_signal_msg p PROC_SIGTERM PROC_PID_NONE)) ports s))"

text \<open>
  The newline-separated list of mounts, walked like the source: a line is what precedes the
  next newline, and the walk stops at the end of the string.
\<close>

function mount_lines :: "string \<Rightarrow> string list" where
  "mount_lines [] = []"
| "mount_lines (c # cs) =
     takeWhile (\<lambda>x. x \<noteq> CHR 0x0A) (c # cs)
       # mount_lines (tl (dropWhile (\<lambda>x. x \<noteq> CHR 0x0A) (c # cs)))"
  by pat_completeness auto
termination
proof (relation "measure length")
  show "(tl (dropWhile (\<lambda>x. x \<noteq> CHR 0x0A) (c # cs)), c # cs) \<in> measure length" for c cs
    using length_dropWhile_le [of "\<lambda>x. x \<noteq> CHR 0x0A" cs] by (auto simp: less_Suc_eq_le)
qed simp

definition PROC_MOUNT_PATH :: string where "PROC_MOUNT_PATH = ''/proc''"

definition proc_drain_mount :: "kernel \<Rightarrow> string \<Rightarrow> proc_state \<Rightarrow> proc_state" where
  "proc_drain_mount K line s =
     (if line \<noteq> [] \<and> line \<noteq> PROC_MOUNT_PATH
      then let (r, s) = kcall K (Netname_look_up_mount line) s
           in if r_kr r = KERN_SUCCESS \<and> r_port r \<noteq> MACH_PORT_NULL
              then kdo (Port_deallocate (r_port r)) (kdo (Fs_unmount (r_port r)) s)
              else s
      else s)"

definition proc_drain_fs_sync :: "kernel \<Rightarrow> proc_state \<Rightarrow> proc_state" where
  "proc_drain_fs_sync K s =
     (let (r, s) = kcall K Netname_list_mounts s
      in if r_kr r \<noteq> KERN_SUCCESS then s
         else fold (proc_drain_mount K)
                (mount_lines (takeWhile (\<lambda>x. x \<noteq> CHR 0x00) (r_text r))) s)"

definition HOST_REBOOT_HALT :: u32 where "HOST_REBOOT_HALT = 8"

definition proc_S_shutdown :: "kernel \<Rightarrow> int \<Rightarrow> proc_state \<Rightarrow> proc_result \<times> proc_state" where
  "proc_S_shutdown K mode s =
     (if mode \<noteq> 0 \<and> mode \<noteq> 1 then (PROC_ERR_INVAL, s)
      else
        (let options = (if mode = 0 then HOST_REBOOT_HALT else 0);
             s = proc_drain_fs_sync K (proc_drain_sigterm_sweep s);
             (r, s) = kcall K (Host_reboot options) s
         in (if r_kr r = KERN_SUCCESS then PROC_OK else PROC_ERR_KERNEL, s)))"

section \<open>Resource accounting\<close>

definition query_kernel_rusage ::
  "kernel \<Rightarrow> mach_port \<Rightarrow> proc_state \<Rightarrow> (kern_return \<times> proc_rusage) \<times> proc_state" where
  "query_kernel_rusage K task s =
     (let (rb, s) = kcall K (Task_basic_info task) s
      in if r_kr rb \<noteq> KERN_SUCCESS then ((r_kr rb, zero_rusage), s)
         else
           (let b = r_basic rb;
                out = zero_rusage\<lparr>utime_sec := tb_user_sec b, utime_usec := tb_user_usec b,
                        stime_sec := tb_sys_sec b, stime_usec := tb_sys_usec b,
                        virtual_kb := tb_virtual_size b div 1024,
                        maxrss_kb := tb_resident_size b div 1024\<rparr>;
                (re, s) = kcall K (Task_events_info task) s;
                v = r_events re
            in ((KERN_SUCCESS,
                 if r_kr re = KERN_SUCCESS
                 then out\<lparr>minflt := te_zero_fills v + te_cow_faults v, majflt := te_pageins v,
                          msgsnd := te_messages_sent v, msgrcv := te_messages_received v\<rparr>
                 else out), s)))"

definition refresh_rusage_for_pid :: "kernel \<Rightarrow> proc_pid \<Rightarrow> proc_state \<Rightarrow> proc_state" where
  "refresh_rusage_for_pid K pid s =
     (case find_by_pid_locked pid s of
        None \<Rightarrow> s
      | Some i \<Rightarrow>
          (let e = entry s i
           in if pe_state e = PROC_STATE_ZOMBIE \<or> pe_task_port e = MACH_PORT_NULL then s
              else
                (let ((kr, fresh), s) = query_kernel_rusage K (pe_task_port e) s
                 in if kr \<noteq> KERN_SUCCESS then s
                    else case find_by_pid_locked pid s of
                           Some j \<Rightarrow> set_entry j ((entry s j)\<lparr>pe_last_rusage := fresh\<rparr>) s
                         | None \<Rightarrow> s)))"

definition proc_S_getrusage ::
  "kernel \<Rightarrow> proc_pid \<Rightarrow> proc_state \<Rightarrow> (proc_rusage \<times> proc_result) \<times> proc_state" where
  "proc_S_getrusage K pid s =
     (let s = refresh_rusage_for_pid K pid s
      in case find_by_pid_locked pid s of
           Some i \<Rightarrow> ((pe_last_rusage (entry s i), PROC_OK), s)
         | None \<Rightarrow> ((zero_rusage, PROC_ERR_NOT_FOUND), s))"

definition proc_S_set_exit_code :: "proc_pid \<Rightarrow> i32 \<Rightarrow> proc_state \<Rightarrow> proc_result \<times> proc_state" where
  "proc_S_set_exit_code pid code s =
     (case find_by_pid_locked pid s of
        Some i \<Rightarrow> (PROC_OK, set_entry i ((entry s i)\<lparr>pe_exit_code := code\<rparr>) s)
      | None \<Rightarrow> (PROC_ERR_NOT_FOUND, s))"

section \<open>Death of a task\<close>

text \<open>What the dead-name handler leaves in the entry before it decides whether to free it.\<close>

definition zombify :: "pid_entry \<Rightarrow> pid_entry" where
  "zombify e =
     (let e = e\<lparr>pe_state := PROC_STATE_ZOMBIE, pe_exit_notify := MACH_PORT_NULL\<rparr>
      in if pe_ctty_port e \<noteq> MACH_PORT_NULL
         then e\<lparr>pe_ctty_port := MACH_PORT_NULL, pe_fg_pgrp_id := 0\<rparr> else e)"

definition do_mach_notify_dead_name :: "mach_port \<Rightarrow> proc_state \<Rightarrow> proc_state" where
  "do_mach_notify_dead_name name s =
     (case find_by_task_locked name s of
        None \<Rightarrow> kdo (Port_deallocate name) s
      | Some i \<Rightarrow>
          (let e = entry s i;
               subscriber = pe_exit_notify e;
               pid = pe_pid e;
               ctty = pe_ctty_port e;
               s = set_entry i (zombify e) s;
               parent_sigport =
                 (if pe_ppid e \<noteq> PROC_PID_NONE
                  then case find_by_pid_locked (pe_ppid e) s of
                         Some j \<Rightarrow> pe_signal_port (entry s j) | None \<Rightarrow> MACH_PORT_NULL
                  else MACH_PORT_NULL);
               dead_sigport = (if subscriber \<noteq> MACH_PORT_NULL then pe_signal_port e
                               else MACH_PORT_NULL);
               s = (if subscriber \<noteq> MACH_PORT_NULL then set_entry i zero_entry s else s);
               s = kdo (Port_deallocate name) s;
               s = kdo_if (dead_sigport \<noteq> MACH_PORT_NULL) (Port_deallocate dead_sigport) s;
               s = (if ctty \<noteq> MACH_PORT_NULL
                    then kdo (Port_deallocate ctty) (notify_ctty_release ctty pid s) else s);
               s = fire_exit_notify subscriber pid (pe_exit_code e) s
           in kdo_if (parent_sigport \<noteq> MACH_PORT_NULL)
                (Send_signal_msg parent_sigport PROC_SIGCHLD pid) s))"

end
