(* ===== verification/Proc_Vfs.thy ===== *)
theory Proc_Vfs
  imports Proc_Server
begin

text \<open>
  The read-only \<^verbatim>\<open>/proc\<close> file system of the process server: path parsing, the open handle of
  \<^verbatim>\<open>/proc/N/stat\<close>, the line it holds, and reading it; then the dispatch of a request to its
  handler (\<^verbatim>\<open>proc_demux\<close>) as one step of the server.
\<close>

section \<open>Paths\<close>

definition is_digit :: "char \<Rightarrow> bool" where
  "is_digit c \<longleftrightarrow> 48 \<le> (of_char c :: nat) \<and> (of_char c :: nat) \<le> 57"

fun parse_digits :: "proc_pid \<Rightarrow> string \<Rightarrow> proc_pid \<times> string" where
  "parse_digits pid [] = (pid, [])"
| "parse_digits pid (c # cs) =
     (if is_digit c then parse_digits (pid * 10 + of_nat (of_char c - 48)) cs else (pid, c # cs))"

text \<open>
  \<^verbatim>\<open>parse_proc_path\<close>: the pid and the rest of the path after it, or \<open>None\<close> for a malformed
  path.  A C string is the list of its characters, so the final NUL is the end of the list.
\<close>

definition parse_proc_path :: "string \<Rightarrow> (proc_pid \<times> string) option" where
  "parse_proc_path path =
     (let p = (case path of c # cs \<Rightarrow> if c = CHR ''/'' then cs else path | [] \<Rightarrow> path);
          p = (if take 5 p = ''proc/'' then drop 5 p else p)
      in case p of
           [] \<Rightarrow> None
         | c # _ \<Rightarrow>
             if \<not> is_digit c then None
             else (case parse_digits 0 p of
                     (pid, []) \<Rightarrow> Some (pid, [])
                   | (pid, d # rest) \<Rightarrow> if d = CHR ''/'' then Some (pid, rest) else None))"

section \<open>The stat line\<close>

definition digit_char :: "nat \<Rightarrow> char" where
  "digit_char d = char_of (48 + d)"

text \<open>\<^verbatim>\<open>%u\<close> of \<^verbatim>\<open>printf\<close>.\<close>

fun dec :: "nat \<Rightarrow> string" where
  "dec n = (if n < 10 then [digit_char n] else dec (n div 10) @ [digit_char (n mod 10)])"

declare dec.simps [simp del]

definition stat_text :: "pid_entry \<Rightarrow> string" where
  "stat_text e =
     (let r = pe_last_rusage e;
          ch = (if pe_state e = 0 then [] else [char_of (unat (pe_state e))]);
          u = (\<lambda>w :: u32. dec (unat w));
          utime_ticks = utime_sec r * 100 + utime_usec r div 10000;
          stime_ticks = stime_sec r * 100 + stime_usec r div 10000;
          vsize_bytes = virtual_kb r * 1024;
          rss_pages = maxrss_kb r div 4
      in u (pe_pid e) @ '' ('' @ pe_cmdline e @ '') '' @ ch @ '' '' @ u (pe_ppid e) @ '' ''
         @ u (pe_pgrp_id e) @ '' '' @ u (pe_sid e) @ '' 0 -1 0 '' @ u (minflt r) @ '' 0 ''
         @ u (majflt r) @ '' 0 '' @ u utime_ticks @ '' '' @ u stime_ticks @ '' 0 0 0 0 0 0 0 ''
         @ u vsize_bytes @ '' '' @ u rss_pages
         @ '' 0 0 0 0 0 0 0 0 0 0 0 0 0 0 0 0 0 0'' @ [CHR 0x0A])"

text \<open>\<^verbatim>\<open>format_stat\<close>: what \<^verbatim>\<open>snprintf\<close> leaves in a buffer of \<open>n\<close> bytes.\<close>

definition format_stat :: "pid_entry \<Rightarrow> nat \<Rightarrow> string" where
  "format_stat e n = take (n - 1) (stat_text e)"

section \<open>Handles\<close>

definition KERN_FAILURE :: kern_return where "KERN_FAILURE = 5"
definition KERN_INVALID_ARGUMENT :: kern_return where "KERN_INVALID_ARGUMENT = 4"

definition vfs_open ::
  "mach_port \<Rightarrow> string \<Rightarrow> proc_state \<Rightarrow> (u64 \<times> u32 \<times> kern_return) \<times> proc_state" where
  "vfs_open client_task path s =
     (let s = kdo (Port_deallocate client_task) s
      in case parse_proc_path path of
           None \<Rightarrow> ((0, 0, KERN_FAILURE), s)
         | Some (pid, tail) \<Rightarrow>
             if tail \<noteq> ''stat'' then ((0, 0, KERN_FAILURE), s)
             else
               (case find_by_pid_locked pid s of
                  None \<Rightarrow> ((0, 0, KERN_FAILURE), s)
                | Some i \<Rightarrow>
                    if pe_stat_handle_in_use (entry s i) then ((0, 0, KERN_FAILURE), s)
                    else
                      (let h = next_stat_handle s;
                           s = s\<lparr>next_stat_handle := next_stat_handle s + 1\<rparr>
                       in ((h, 1, KERN_SUCCESS),
                           set_entry i ((entry s i)\<lparr>pe_stat_handle_in_use := True,
                                                     pe_stat_handle_id := h, pe_stat_offset := 0\<rparr>) s))))"

definition vfs_close :: "u64 \<Rightarrow> proc_state \<Rightarrow> kern_return \<times> proc_state" where
  "vfs_close handle s =
     (case find_by_handle_locked handle s of
        Some i \<Rightarrow> (KERN_SUCCESS, set_entry i ((entry s i)\<lparr>pe_stat_handle_in_use := False,
                                                          pe_stat_handle_id := 0\<rparr>) s)
      | None \<Rightarrow> (KERN_INVALID_ARGUMENT, s))"

text \<open>The refresh that \<^verbatim>\<open>vfs_read\<close> and \<^verbatim>\<open>vfs_fstat\<close> make before they look at the entry.\<close>

definition refresh_by_handle :: "kernel \<Rightarrow> u64 \<Rightarrow> proc_state \<Rightarrow> proc_state" where
  "refresh_by_handle K handle s =
     (let target_pid = (case find_by_handle_locked handle s of Some i \<Rightarrow> pe_pid (entry s i) | None \<Rightarrow> 0)
      in if target_pid \<noteq> 0 then refresh_rusage_for_pid K target_pid s else s)"

definition vfs_read ::
  "kernel \<Rightarrow> u64 \<Rightarrow> u64 \<Rightarrow> u32 \<Rightarrow> proc_state \<Rightarrow> (string \<times> kern_return) \<times> proc_state" where
  "vfs_read K handle offset count s =
     (let s = refresh_by_handle K handle s
      in case find_by_handle_locked handle s of
           None \<Rightarrow> (([], KERN_INVALID_ARGUMENT), s)
         | Some i \<Rightarrow>
             (let tmp = format_stat (entry s i) 512; len = length tmp
              in if unat offset \<ge> len then (([], KERN_SUCCESS), s)
                 else
                   (let to_copy = min (len - unat offset) (unat count);
                        (r, s) = kcall K (Vm_allocate to_copy) s
                    in if r_kr r \<noteq> KERN_SUCCESS then (([], r_kr r), s)
                       else ((take to_copy (drop (unat offset) tmp), KERN_SUCCESS), s))))"

record vfs_stat_t =
  st_size :: nat
  st_blksize :: u32
  st_nlink :: u32
  st_mode :: u32
  st_type :: u32

definition stat_of :: "pid_entry \<Rightarrow> vfs_stat_t" where
  "stat_of e = \<lparr>st_size = length (format_stat e 512), st_blksize = 4096, st_nlink = 1,
                st_mode = 292, st_type = 1\<rparr>"

definition vfs_fstat ::
  "kernel \<Rightarrow> u64 \<Rightarrow> proc_state \<Rightarrow> (vfs_stat_t option \<times> kern_return) \<times> proc_state" where
  "vfs_fstat K handle s =
     (let s = refresh_by_handle K handle s
      in case find_by_handle_locked handle s of
           None \<Rightarrow> ((None, KERN_INVALID_ARGUMENT), s)
         | Some i \<Rightarrow> ((Some (stat_of (entry s i)), KERN_SUCCESS), s))"

definition vfs_stat ::
  "kernel \<Rightarrow> string \<Rightarrow> proc_state \<Rightarrow> (vfs_stat_t option \<times> kern_return) \<times> proc_state" where
  "vfs_stat K path s =
     (case parse_proc_path path of
        None \<Rightarrow> ((None, KERN_FAILURE), s)
      | Some (pid, tail) \<Rightarrow>
          if tail \<noteq> ''stat'' then ((None, KERN_FAILURE), s)
          else
            (let s = refresh_rusage_for_pid K pid s
             in case find_by_pid_locked pid s of
                  None \<Rightarrow> ((None, KERN_FAILURE), s)
                | Some i \<Rightarrow> ((Some (stat_of (entry s i)), KERN_SUCCESS), s)))"

section \<open>Dispatch\<close>

text \<open>The messages the server receives, with the arguments the generated stubs unpack.\<close>

datatype proc_request =
    Register proc_pid mach_port string
  | Exec_handoff proc_pid mach_port string
  | Subscribe_exit proc_pid mach_port
  | Reap_zombie proc_pid
  | List_procs
  | Set_signal_port proc_pid mach_port
  | Kill proc_pid int
  | Setsid proc_pid
  | Setpgid proc_pid proc_pid
  | Getsid proc_pid
  | Getpgid proc_pid
  | Killpg proc_pid int
  | Set_ctty proc_pid mach_port
  | Clear_ctty proc_pid
  | Tcsetpgrp proc_pid proc_pid
  | Tcgetpgrp proc_pid
  | Shutdown int
  | Getrusage proc_pid
  | Set_exit_code proc_pid i32
  | Open_stat mach_port string
  | Close_stat u64
  | Read_stat u64 u64 u32
  | Fstat u64
  | Stat string
  | Dead_name mach_port

primrec proc_demux :: "kernel \<Rightarrow> proc_request \<Rightarrow> proc_state \<Rightarrow> proc_state" where
  "proc_demux K (Register p t c) s = snd (proc_S_register K p t c s)"
| "proc_demux K (Exec_handoff p t c) s = snd (proc_S_exec_handoff K p t c s)"
| "proc_demux K (Subscribe_exit p n) s = snd (proc_S_subscribe_exit p n s)"
| "proc_demux K (Reap_zombie p) s = snd (proc_S_reap_zombie p s)"
| "proc_demux K List_procs s = snd (proc_S_list K s)"
| "proc_demux K (Set_signal_port p q) s = snd (proc_S_set_signal_port p q s)"
| "proc_demux K (Kill p n) s = snd (proc_S_kill K p n s)"
| "proc_demux K (Setsid p) s = snd (proc_S_setsid p s)"
| "proc_demux K (Setpgid p g) s = snd (proc_S_setpgid p g s)"
| "proc_demux K (Getsid p) s = snd (proc_S_getsid p s)"
| "proc_demux K (Getpgid p) s = snd (proc_S_getpgid p s)"
| "proc_demux K (Killpg g n) s = snd (proc_S_killpg K g n s)"
| "proc_demux K (Set_ctty d t) s = snd (proc_S_set_ctty d t s)"
| "proc_demux K (Clear_ctty d) s = snd (proc_S_clear_ctty d s)"
| "proc_demux K (Tcsetpgrp d g) s = snd (proc_S_tcsetpgrp d g s)"
| "proc_demux K (Tcgetpgrp d) s = snd (proc_S_tcgetpgrp d s)"
| "proc_demux K (Shutdown m) s = snd (proc_S_shutdown K m s)"
| "proc_demux K (Getrusage p) s = snd (proc_S_getrusage K p s)"
| "proc_demux K (Set_exit_code p c) s = snd (proc_S_set_exit_code p c s)"
| "proc_demux K (Open_stat t p) s = snd (vfs_open t p s)"
| "proc_demux K (Close_stat h) s = snd (vfs_close h s)"
| "proc_demux K (Read_stat h off n) s = snd (vfs_read K h off n s)"
| "proc_demux K (Fstat h) s = snd (vfs_fstat K h s)"
| "proc_demux K (Stat p) s = snd (vfs_stat K p s)"
| "proc_demux K (Dead_name n) s = do_mach_notify_dead_name n s"

end
