(* ===== verification/Proc_Table_Inv.thy ===== *)
theory Proc_Table_Inv
  imports Proc_Vfs
begin

text \<open>
  The integrity of the pid table: 256 slots, free slots hold nothing, the pids in use are
  pairwise different, non-zero and below the counter.  Every handler of the server keeps it.
  Almost every handler changes the table in one way only: it rewrites fields of an entry that
  is in use without touching its pid, process group and session, or frees the slot.  That
  relation between two states is \<open>evolves\<close>; it is closed under composition, so the handlers are
  covered one helper at a time.  \<^verbatim>\<open>setsid\<close> and \<^verbatim>\<open>setpgid\<close> keep the pids (\<open>evolves_pid\<close>).
\<close>

section \<open>Definitions\<close>

definition table_ok :: "proc_state \<Rightarrow> bool" where
  "table_ok s \<longleftrightarrow>
     length (pid_table s) = PROC_MAX_TASKS \<and>
     (\<forall>e \<in> set (pid_table s). \<not> pe_in_use e \<longrightarrow> e = zero_entry) \<and>
     (\<forall>e \<in> set (pid_table s). pe_in_use e \<longrightarrow> pe_pid e \<noteq> 0 \<and> unat (pe_pid e) < unat (next_pid s)) \<and>
     (\<forall>i < length (pid_table s). \<forall>j < length (pid_table s).
        pe_in_use (entry s i) \<longrightarrow> pe_in_use (entry s j) \<longrightarrow> pe_pid (entry s i) = pe_pid (entry s j) \<longrightarrow> i = j)"

definition evolves_pid :: "proc_state \<Rightarrow> proc_state \<Rightarrow> bool" where
  "evolves_pid s s' \<longleftrightarrow>
     length (pid_table s') = length (pid_table s) \<and> next_pid s' = next_pid s \<and>
     (\<forall>i < length (pid_table s).
        entry s' i = entry s i \<or> entry s' i = zero_entry \<or>
        (pe_in_use (entry s i) \<and> pe_in_use (entry s' i) \<and> pe_pid (entry s' i) = pe_pid (entry s i)))"

text \<open>The stronger relation also keeps the process group and the session of an entry.\<close>

definition ids :: "pid_entry \<Rightarrow> proc_pid \<times> proc_pid \<times> proc_pid" where
  "ids e = (pe_pid e, pe_pgrp_id e, pe_sid e)"

definition evolves :: "proc_state \<Rightarrow> proc_state \<Rightarrow> bool" where
  "evolves s s' \<longleftrightarrow>
     length (pid_table s') = length (pid_table s) \<and> next_pid s' = next_pid s \<and>
     (\<forall>i < length (pid_table s).
        entry s' i = entry s i \<or> entry s' i = zero_entry \<or>
        (pe_in_use (entry s i) \<and> pe_in_use (entry s' i) \<and> ids (entry s' i) = ids (entry s i)))"

text \<open>The state in which \<^verbatim>\<open>proc_S_register\<close> looks for the parent.\<close>

definition reg_mark :: "proc_state \<Rightarrow> nat \<Rightarrow> proc_pid \<Rightarrow> proc_state" where
  "reg_mark s i p = set_entry i ((entry s i)\<lparr>pe_in_use := True, pe_pid := next_pid s, pe_ppid := p\<rparr>)
     (s\<lparr>next_pid := next_pid s + 1\<rparr>)"

named_theorems evolve_intros \<open>helpers and handlers that keep the slots' identities\<close>

section \<open>The table under calls and updates\<close>

lemma zero_entry_not_in_use [simp]: "\<not> pe_in_use zero_entry"
  by (simp add: zero_entry_def)

lemma kdo_table [simp]: "pid_table (kdo c s) = pid_table s" "next_pid (kdo c s) = next_pid s"
  "next_stat_handle (kdo c s) = next_stat_handle s" "notify_port (kdo c s) = notify_port s"
  "entry (kdo c s) i = entry s i" "calls (kdo c s) = calls s @ [c]"
  by (simp_all add: kdo_def entry_def)

lemma kdo_if_table [simp]: "pid_table (kdo_if b c s) = pid_table s"
  "next_pid (kdo_if b c s) = next_pid s" "next_stat_handle (kdo_if b c s) = next_stat_handle s"
  "notify_port (kdo_if b c s) = notify_port s" "entry (kdo_if b c s) i = entry s i"
  "calls (kdo_if b c s) = calls s @ (if b then [c] else [])"
  by (simp_all add: kdo_if_def)

lemma kcall_simps [simp]: "pid_table (snd (kcall K c s)) = pid_table s"
  "next_pid (snd (kcall K c s)) = next_pid s" "next_stat_handle (snd (kcall K c s)) = next_stat_handle s"
  "notify_port (snd (kcall K c s)) = notify_port s"
  "entry (snd (kcall K c s)) i = entry s i" "calls (snd (kcall K c s)) = calls s @ [c]"
  "fst (kcall K c s) = K (calls s) c"
  by (simp_all add: kcall_def entry_def)

lemma set_entry_table [simp]: "pid_table (set_entry i e s) = (pid_table s)[i := e]"
  "next_pid (set_entry i e s) = next_pid s" "calls (set_entry i e s) = calls s"
  "next_stat_handle (set_entry i e s) = next_stat_handle s" "notify_port (set_entry i e s) = notify_port s"
  by (simp_all add: set_entry_def)

lemma entry_set_entry: "i < length (pid_table s) \<Longrightarrow>
   entry (set_entry i e s) j = (if j = i then e else entry s j)"
  by (simp add: entry_def set_entry_def nth_list_update)

lemma ids_update [simp]: "ids (e\<lparr>pe_ppid := x0\<rparr>) = ids e"
  "ids (e\<lparr>pe_ctty_port := x1\<rparr>) = ids e" "ids (e\<lparr>pe_fg_pgrp_id := x2\<rparr>) = ids e"
  "ids (e\<lparr>pe_stopped := x3\<rparr>) = ids e" "ids (e\<lparr>pe_task_port := x4\<rparr>) = ids e"
  "ids (e\<lparr>pe_cmdline := x5\<rparr>) = ids e" "ids (e\<lparr>pe_state := x6\<rparr>) = ids e"
  "ids (e\<lparr>pe_exit_code := x7\<rparr>) = ids e" "ids (e\<lparr>pe_exit_notify := x8\<rparr>) = ids e"
  "ids (e\<lparr>pe_signal_port := x9\<rparr>) = ids e" "ids (e\<lparr>pe_last_rusage := x10\<rparr>) = ids e"
  "ids (e\<lparr>pe_stat_handle_in_use := x11\<rparr>) = ids e" "ids (e\<lparr>pe_stat_handle_id := x12\<rparr>) = ids e"
  "ids (e\<lparr>pe_stat_offset := x13\<rparr>) = ids e"
  by (simp_all add: ids_def)

lemma entry_in_set: "i < length (pid_table s) \<Longrightarrow> entry s i \<in> set (pid_table s)"
  by (simp add: entry_def)

lemma find_by_pid_Some:
  "find_by_pid_locked p s = Some i \<Longrightarrow> i < length (pid_table s) \<and> pe_in_use (entry s i) \<and> pe_pid (entry s i) = p"
  unfolding find_by_pid_locked_def entry_def by (auto dest: scan_SomeD)

lemma find_by_task_Some:
  "find_by_task_locked t s = Some i \<Longrightarrow>
     i < length (pid_table s) \<and> pe_in_use (entry s i) \<and> pe_task_port (entry s i) = t"
  unfolding find_by_task_locked_def entry_def by (auto dest: scan_SomeD)

lemma find_by_handle_Some:
  "find_by_handle_locked h s = Some i \<Longrightarrow>
     i < length (pid_table s) \<and> pe_in_use (entry s i) \<and> pe_stat_handle_in_use (entry s i) \<and>
     pe_stat_handle_id (entry s i) = h"
  unfolding find_by_handle_locked_def entry_def by (auto dest: scan_SomeD)

lemma find_session_leader_Some:
  "find_session_leader_locked sid s = Some i \<Longrightarrow>
     i < length (pid_table s) \<and> pe_in_use (entry s i) \<and> pe_pid (entry s i) = sid \<and>
     pe_sid (entry s i) = sid \<and> sid \<noteq> 0"
  unfolding find_session_leader_locked_def
  by (auto dest: find_by_pid_Some simp: entry_def split: if_splits option.splits)

lemmas find_Some = find_by_pid_Some find_by_task_Some find_by_handle_Some find_session_leader_Some

lemma find_by_pid_None:
  "find_by_pid_locked p s = None \<longleftrightarrow> (\<forall>e \<in> set (pid_table s). pe_in_use e \<longrightarrow> pe_pid e \<noteq> p)"
  unfolding find_by_pid_locked_def scan_None by blast

lemma table_ok_len: "table_ok s \<Longrightarrow> length (pid_table s) = PROC_MAX_TASKS"
  and table_ok_zero: "table_ok s \<Longrightarrow> e \<in> set (pid_table s) \<Longrightarrow> \<not> pe_in_use e \<Longrightarrow> e = zero_entry"
  and table_ok_pid: "table_ok s \<Longrightarrow> e \<in> set (pid_table s) \<Longrightarrow> pe_in_use e \<Longrightarrow>
    pe_pid e \<noteq> 0 \<and> unat (pe_pid e) < unat (next_pid s)"
  and table_ok_unique: "table_ok s \<Longrightarrow> i < length (pid_table s) \<Longrightarrow> j < length (pid_table s) \<Longrightarrow>
    pe_in_use (entry s i) \<Longrightarrow> pe_in_use (entry s j) \<Longrightarrow> pe_pid (entry s i) = pe_pid (entry s j) \<Longrightarrow> i = j"
  unfolding table_ok_def by blast+

section \<open>Evolution\<close>

lemma evolves_refl [evolve_intros]: "evolves s s"
  by (simp add: evolves_def)

lemma evolves_trans: "evolves s t \<Longrightarrow> evolves t u \<Longrightarrow> evolves s u"
  unfolding evolves_def by (metis zero_entry_not_in_use)

lemma evolves_kdo [evolve_intros]: "evolves s t \<Longrightarrow> evolves s (kdo c t)"
  by (simp add: evolves_def)

lemma evolves_kdo_if [evolve_intros]: "evolves s t \<Longrightarrow> evolves s (kdo_if b c t)"
  by (simp add: kdo_if_def evolves_kdo)

lemma evolves_kcall [evolve_intros]: "evolves s t \<Longrightarrow> evolves s (snd (kcall K c t))"
  by (simp add: evolves_def)

lemma evolves_set_entry:
  assumes "evolves s t" and "i < length (pid_table t)" and "pe_in_use (entry t i)"
    and "e = zero_entry \<or> (pe_in_use e \<and> ids e = ids (entry t i))"
  shows "evolves s (set_entry i e t)"
proof (rule evolves_trans [OF assms(1)])
  show "evolves t (set_entry i e t)"
    using assms(2-4) by (auto simp: evolves_def entry_set_entry)
qed

lemma evolves_fold:
  assumes "\<And>x t. evolves t (f x t)" shows "evolves s (fold f xs s)"
proof (induction xs arbitrary: s)
  case Nil
  then show ?case by (simp add: evolves_refl)
next
  case (Cons x xs)
  show ?case using evolves_trans [OF assms Cons, of s x] by simp
qed

lemma evolves_fold_snd:
  assumes "\<And>x n t. evolves t (snd (f x (n, t)))" shows "evolves (snd s) (snd (fold f xs s))"
proof (induction xs arbitrary: s)
  case Nil
  then show ?case by (simp add: evolves_refl)
next
  case (Cons x xs)
  have "evolves (snd s) (snd (f x s))" using assms [of "snd s" x "fst s"] by simp
  from evolves_trans [OF this Cons] show ?case by simp
qed

lemma evolves_map:
  assumes "\<And>e. f e = e \<or> (pe_in_use e \<and> pe_in_use (f e) \<and> ids (f e) = ids e)"
  shows "evolves s (s\<lparr>pid_table := map f (pid_table s)\<rparr>)"
  using assms by (auto simp: evolves_def entry_def)

lemma evolves_imp_pid: "evolves s s' \<Longrightarrow> evolves_pid s s'"
  by (auto simp: evolves_def evolves_pid_def ids_def)

lemma evolves_pid_table_ok:
  assumes "table_ok s" and "evolves_pid s s'"
  shows "table_ok s'"
proof -
  have len: "length (pid_table s') = length (pid_table s)" and np: "next_pid s' = next_pid s"
    and ev: "\<And>i. i < length (pid_table s) \<Longrightarrow>
        entry s' i = entry s i \<or> entry s' i = zero_entry \<or>
        (pe_in_use (entry s i) \<and> pe_in_use (entry s' i) \<and> pe_pid (entry s' i) = pe_pid (entry s i))"
    using assms(2) by (auto simp: evolves_pid_def)
  have in_use: "pe_in_use (entry s i) \<and> pe_pid (entry s' i) = pe_pid (entry s i)"
    if "i < length (pid_table s)" "pe_in_use (entry s' i)" for i
    using ev [OF that(1)] that(2) by auto
  have ok: "\<not> pe_in_use e \<longrightarrow> e = zero_entry"
    "pe_in_use e \<longrightarrow> pe_pid e \<noteq> 0 \<and> unat (pe_pid e) < unat (next_pid s)"
    if "e \<in> set (pid_table s)" for e
    using assms(1) that by (auto simp: table_ok_def)
  have all: "P e" if "\<And>i. i < length (pid_table s) \<Longrightarrow> P (entry s' i)" "e \<in> set (pid_table s')" for P e
    using that len by (auto simp: in_set_conv_nth entry_def)
  have 1: "\<forall>e \<in> set (pid_table s'). \<not> pe_in_use e \<longrightarrow> e = zero_entry"
    using all [of "\<lambda>e. \<not> pe_in_use e \<longrightarrow> e = zero_entry"] ev ok(1) entry_in_set by metis
  have 2: "\<forall>e \<in> set (pid_table s'). pe_in_use e \<longrightarrow> pe_pid e \<noteq> 0 \<and> unat (pe_pid e) < unat (next_pid s')"
    unfolding np
    using all [of "\<lambda>e. pe_in_use e \<longrightarrow> pe_pid e \<noteq> 0 \<and> unat (pe_pid e) < unat (next_pid s)"]
      in_use ok(2) entry_in_set by metis
  show ?thesis
    unfolding table_ok_def len using assms(1) 1 2 in_use by (simp add: table_ok_def)
qed

lemmas evolves_table_ok = evolves_pid_table_ok [OF _ evolves_imp_pid]

section \<open>The handlers\<close>

lemma evolves_fire_exit_notify [evolve_intros]: "evolves s t \<Longrightarrow> evolves s (fire_exit_notify n p c t)"
  by (simp add: fire_exit_notify_def evolves_kdo_if)

lemma evolves_request_dead_name [evolve_intros]: "evolves s t \<Longrightarrow> evolves s (request_dead_name K p t)"
  by (simp add: request_dead_name_def split_beta Let_def evolves_kdo_if evolves_kcall)

lemma evolves_notify_ctty_release [evolve_intros]: "evolves s t \<Longrightarrow> evolves s (notify_ctty_release c d t)"
  by (simp add: notify_ctty_release_def evolves_kdo_if)

lemma evolves_exec_handoff: "evolves s (snd (proc_S_exec_handoff K p t c s))"
  by (auto simp: proc_S_exec_handoff_def Let_def split: option.split dest!: find_Some
      intro!: evolve_intros evolves_set_entry)

lemma evolves_subscribe_exit: "evolves s (snd (proc_S_subscribe_exit p n s))"
  by (auto simp: proc_S_subscribe_exit_def Let_def entry_set_entry split: option.split
      dest!: find_Some intro!: evolve_intros evolves_set_entry)

lemma evolves_reap_zombie: "evolves s (snd (proc_S_reap_zombie p s))"
  by (auto simp: proc_S_reap_zombie_def Let_def entry_def scan_Some split: option.split
      intro!: evolve_intros evolves_set_entry)

lemma evolves_list: "evolves s (snd (proc_S_list K s))"
  by (auto simp: proc_S_list_def Let_def split_beta intro!: evolve_intros)

lemma evolves_set_signal_port: "evolves s (snd (proc_S_set_signal_port p q s))"
  by (auto simp: proc_S_set_signal_port_def Let_def split: option.split dest!: find_Some
      intro!: evolve_intros evolves_set_entry)

lemma evolves_suspend_and_mark: "evolves s (snd (suspend_and_mark K p t s))"
  by (auto simp: suspend_and_mark_def Let_def split_beta split: option.split dest!: find_Some
      intro!: evolve_intros evolves_set_entry)

lemma evolves_default: "evolves s (snd (apply_default_disposition K p n t s))"
  by (auto simp: apply_default_disposition_def Let_def split_beta split: sig_dfl.split
      intro!: evolve_intros evolves_suspend_and_mark)

lemma evolves_drop_stale: "evolves s (drop_stale_sigport p q s)"
  by (auto simp: drop_stale_sigport_def split: option.split dest!: find_Some
      intro!: evolve_intros evolves_set_entry)

lemma evolves_continue_group: "evolves s (continue_group g s)"
  unfolding continue_group_def Let_def
  by (intro evolves_trans [OF evolves_map evolves_fold] evolve_intros) (auto simp: cont_member_def)

lemma evolves_kill: "evolves s (snd (proc_S_kill K p n s))"
proof -
  have "evolves s (snd (apply_default_disposition K p n t (drop_stale_sigport p q (snd (kcall K c s)))))" for t q c
    by (meson evolves_trans evolves_default evolves_drop_stale evolves_kcall evolves_refl)
  then show ?thesis
    by (auto simp: proc_S_kill_def Let_def split_beta split: option.split
        intro!: evolve_intros evolves_suspend_and_mark evolves_default evolves_continue_group)
qed

lemma evolves_killpg: "evolves s (snd (proc_S_killpg K g n s))"
proof -
  have unc: "evolves t (snd (killpg_uncatch1 K n x (k, t)))" for x k t
    by (simp add: killpg_uncatch1_def split_beta Let_def evolves_kcall evolves_refl)
  have dfl: "evolves t (snd (killpg_default1 K n p q (k, t)))" for p q k t
    by (simp add: killpg_default1_def split_beta Let_def evolves_default)
  have cat: "evolves t (snd (killpg_catch1 K n x (k, t)))" for x k t
    using dfl evolves_drop_stale evolves_kcall [OF evolves_refl]
    by (auto simp: killpg_catch1_def split_beta Let_def) (meson evolves_trans)
  have two: "evolves s (snd (fold (\<lambda>t. killpg_default1 K n (kt_pid t) (kt_port t)) xs
      (fold (killpg_catch1 K n) ys (k, s))))" for xs ys k
    using evolves_trans [OF evolves_fold_snd evolves_fold_snd, OF cat dfl, of "(k, s)"] by simp
  have one: "evolves s (snd (fold (killpg_uncatch1 K n) xs (k, s)))" for xs k
    using evolves_fold_snd [OF unc, of "(k, s)"] by simp
  show ?thesis
    by (simp add: proc_S_killpg_def Let_def split_beta evolves_refl one two)
qed

lemma evolves_pid_set_entry:
  assumes "i < length (pid_table s)" and "pe_in_use (entry s i)" and "pe_in_use e" and "pe_pid e = pe_pid (entry s i)"
  shows "evolves_pid s (set_entry i e s)"
  using assms by (auto simp: evolves_pid_def entry_set_entry)

lemma evolves_pid_refl: "evolves_pid s s"
  by (simp add: evolves_pid_def)

lemma evolves_setsid: "evolves_pid s (snd (proc_S_setsid p s))"
  by (auto simp: proc_S_setsid_def split: option.split dest!: find_Some
      intro!: evolves_pid_refl evolves_pid_set_entry)

lemma evolves_setpgid: "evolves_pid s (snd (proc_S_setpgid p g s))"
  by (auto simp: proc_S_setpgid_def Let_def split: option.split dest!: find_Some
      intro!: evolves_pid_refl evolves_pid_set_entry)

lemma evolves_ctty: "evolves s (snd (proc_S_set_ctty d t s))" "evolves s (snd (proc_S_clear_ctty d s))"
  "evolves s (snd (proc_S_tcsetpgrp d g s))"
  by (auto simp: proc_S_set_ctty_def proc_S_clear_ctty_def proc_S_tcsetpgrp_def Let_def
      split: option.split dest!: find_Some intro!: evolve_intros evolves_set_entry)

lemma evolves_shutdown: "evolves s (snd (proc_S_shutdown K m s))"
proof -
  have mount: "evolves t (proc_drain_mount K l t)" for l t
    by (auto simp: proc_drain_mount_def split_beta Let_def intro!: evolve_intros)
  have "evolves t (proc_drain_fs_sync K t)" for t
    using evolves_trans [OF evolves_kcall [OF evolves_refl] evolves_fold [OF mount]]
    by (auto simp: proc_drain_fs_sync_def split_beta Let_def intro!: evolve_intros)
  moreover have "evolves t (proc_drain_sigterm_sweep t)" for t
    by (auto simp: proc_drain_sigterm_sweep_def Let_def intro!: evolve_intros evolves_fold)
  ultimately show ?thesis
    by (auto simp: proc_S_shutdown_def split_beta Let_def intro!: evolve_intros intro: evolves_trans)
qed

lemma evolves_refresh: "evolves s (refresh_rusage_for_pid K p s)"
proof -
  have "evolves t (snd (query_kernel_rusage K q t))" for q t
    by (auto simp: query_kernel_rusage_def split_beta Let_def intro!: evolve_intros)
  then show ?thesis
    by (auto simp: refresh_rusage_for_pid_def split_beta Let_def split: option.split dest!: find_Some
        intro!: evolve_intros evolves_set_entry)
qed

lemma evolves_dead_name: "evolves s (do_mach_notify_dead_name n s)"
  by (auto simp: do_mach_notify_dead_name_def zombify_def ids_def Let_def entry_set_entry split: option.split
      dest!: find_Some intro!: evolve_intros evolves_set_entry)

lemma evolves_vfs: "evolves s (snd (vfs_open t p s))" "evolves s (snd (vfs_close h s))"
proof -
  have "evolves u (set_entry i e (u\<lparr>next_stat_handle := n\<rparr>))"
    if "i < length (pid_table u)" "pe_in_use (entry u i)" "pe_in_use e" "ids e = ids (entry u i)" for u i e n
    using that by (auto simp: evolves_def entry_def nth_list_update)
  then have "evolves (kdo c s) (set_entry i e ((kdo c s)\<lparr>next_stat_handle := n\<rparr>))"
    if "i < length (pid_table s)" "pe_in_use (entry s i)" "pe_in_use e" "ids e = ids (entry s i)" for c i e n
    using that by simp
  then have "evolves s (set_entry i e ((kdo c s)\<lparr>next_stat_handle := n\<rparr>))"
    if "i < length (pid_table s)" "pe_in_use (entry s i)" "pe_in_use e" "ids e = ids (entry s i)" for c i e n
    using that evolves_trans [OF evolves_kdo [OF evolves_refl]] by blast
  moreover have "entry (u\<lparr>next_stat_handle := n\<rparr>) i = entry u i" for u n i by (simp add: entry_def)
  ultimately show "evolves s (snd (vfs_open t p s))"
    by (auto simp: vfs_open_def Let_def split: option.split dest!: find_by_pid_Some intro!: evolve_intros)
  show "evolves s (snd (vfs_close h s))"
    by (auto simp: vfs_close_def split: option.split dest!: find_Some intro!: evolve_intros evolves_set_entry)
qed

lemma evolves_vfs_read: "evolves s (snd (vfs_read K h off n s))" "evolves s (snd (vfs_fstat K h s))"
  "evolves s (snd (vfs_stat K p s))"
proof -
  have r: "evolves s (refresh_by_handle K h s)"
    by (simp add: refresh_by_handle_def Let_def evolves_refl evolves_refresh)
  then show "evolves s (snd (vfs_read K h off n s))" "evolves s (snd (vfs_fstat K h s))"
    by (simp_all add: vfs_read_def vfs_fstat_def Let_def split_beta evolves_kcall split: option.split)
  show "evolves s (snd (vfs_stat K p s))"
    by (auto simp: vfs_stat_def Let_def evolves_refl evolves_refresh split: option.split)
qed

lemma initial_table: "replicate PROC_MAX_TASKS zero_entry = zero_entry # replicate 255 zero_entry"
proof -
  have "PROC_MAX_TASKS = Suc 255" by (simp add: PROC_MAX_TASKS_def)
  then show ?thesis by (metis replicate_Suc)
qed

lemma table_ok_initial: "table_ok (initial_state n)"
  by (auto simp: table_ok_def initial_state_def entry_def)

text \<open>Registration is the one handler that brings a pid in: it is the counter's value.\<close>

lemma register_entry_id: "pe_in_use (register_entry pid p t c s e)"
  "pe_pid (register_entry pid p t c s e) = pid"
  by (simp_all add: register_entry_def Let_def)

lemma register_new:
  assumes "scan (\<lambda>e. pe_in_use e \<and> pe_task_port e = t) (pid_table s) = None"
    and "scan (\<lambda>e. \<not> pe_in_use e) (pid_table s) = Some i"
  shows "proc_S_register K p t c s =
    ((next_pid s, PROC_OK),
     request_dead_name K t (set_entry i (register_entry (next_pid s) p t c (reg_mark s i p)
       (entry (reg_mark s i p) i)) (reg_mark s i p)))"
  using assms by (simp add: proc_S_register_def Let_def reg_mark_def)

lemma set_entry_twice: "set_entry i e (set_entry i e' s) = set_entry i e s"
  by (simp add: set_entry_def)

lemma table_ok_insert:
  assumes ok: "table_ok s" and i: "i < length (pid_table s)" "\<not> pe_in_use (entry s i)"
    and e: "pe_in_use e" "pe_pid e = next_pid s" and np: "next_pid s \<noteq> - 1" "next_pid s \<noteq> 0"
  shows "table_ok (set_entry i e (s\<lparr>next_pid := next_pid s + 1\<rparr>))" (is "table_ok ?u")
proof -
  have up: "unat (next_pid s + 1) = Suc (unat (next_pid s))" by (rule unat_add_one [OF np(1)])
  have ent: "entry ?u j = (if j = i then e else entry s j)" for j
    using i by (simp add: entry_def nth_list_update)
  have old: "pe_pid (entry s j) \<noteq> next_pid s" if "j < length (pid_table s)" "pe_in_use (entry s j)" for j
    using table_ok_pid [OF ok entry_in_set [OF that(1)] that(2)] by auto
  have mem: "x = e \<or> x \<in> set (pid_table s)" if "x \<in> set (pid_table ?u)" for x
    using that set_update_subset [of "pid_table s" i e] by auto
  have 1: "\<forall>x \<in> set (pid_table ?u). \<not> pe_in_use x \<longrightarrow> x = zero_entry"
    using mem e(1) table_ok_zero [OF ok] by blast
  have 2: "\<forall>x \<in> set (pid_table ?u). pe_in_use x \<longrightarrow> pe_pid x \<noteq> 0 \<and> unat (pe_pid x) < unat (next_pid ?u)"
  proof (intro ballI impI)
    fix x assume x: "x \<in> set (pid_table ?u)" "pe_in_use x"
    then consider "x = e" | "x \<in> set (pid_table s)" using mem by blast
    then show "pe_pid x \<noteq> 0 \<and> unat (pe_pid x) < unat (next_pid ?u)"
      using x(2) e(2) table_ok_pid [OF ok] up np(2) by cases (auto simp: less_Suc_eq)
  qed
  have 3: "\<forall>j < length (pid_table ?u). \<forall>k < length (pid_table ?u). pe_in_use (entry ?u j) \<longrightarrow>
      pe_in_use (entry ?u k) \<longrightarrow> pe_pid (entry ?u j) = pe_pid (entry ?u k) \<longrightarrow> j = k"
  proof (intro allI impI)
    fix j k assume *: "j < length (pid_table ?u)" "k < length (pid_table ?u)" "pe_in_use (entry ?u j)"
      "pe_in_use (entry ?u k)" "pe_pid (entry ?u j) = pe_pid (entry ?u k)"
    then have len: "j < length (pid_table s)" "k < length (pid_table s)" by simp_all
    show "j = k"
    proof (cases "j = i \<or> k = i")
      case True
      show ?thesis
      proof (rule ccontr)
        assume "j \<noteq> k"
        with True *(3-5) e(2) old [OF len(1)] old [OF len(2)] show False
          unfolding ent by (metis (full_types))
      qed
    next
      case False
      with *(3-5) show ?thesis unfolding ent by (intro table_ok_unique [OF ok len]) simp_all
    qed
  qed
  have len: "length (pid_table ?u) = PROC_MAX_TASKS" using table_ok_len [OF ok] by simp
  show ?thesis unfolding table_ok_def by (intro conjI len 1 2 3)
qed

lemma register_table_ok:
  assumes ok: "table_ok s" and np: "next_pid s \<noteq> - 1" "next_pid s \<noteq> 0"
  shows "table_ok (snd (proc_S_register K p t c s))"
proof (cases "scan (\<lambda>e. pe_in_use e \<and> pe_task_port e = t) (pid_table s)")
  case (Some i)
  then have "snd (proc_S_register K p t c s) = kdo (Port_deallocate t) s"
    by (simp add: proc_S_register_def)
  then show ?thesis using evolves_table_ok [OF ok evolves_kdo [OF evolves_refl]] by metis
next
  case None
  note none = this
  show ?thesis
  proof (cases "scan (\<lambda>e. \<not> pe_in_use e) (pid_table s)")
    case None
    with none ok show ?thesis by (simp add: proc_S_register_def)
  next
    case (Some i)
    let ?e = "register_entry (next_pid s) p t c (reg_mark s i p) (entry (reg_mark s i p) i)"
    have i: "i < length (pid_table s)" "\<not> pe_in_use (entry s i)"
      using Some by (auto simp: entry_def dest: scan_SomeD)
    have "table_ok (set_entry i ?e (reg_mark s i p))"
      unfolding reg_mark_def set_entry_twice
      by (rule table_ok_insert [OF ok i register_entry_id np])
    from evolves_table_ok [OF this evolves_request_dead_name [OF evolves_refl]]
    show ?thesis unfolding register_new [OF none Some] by simp
  qed
qed

section \<open>Every request, every run\<close>

lemma evolves_set_exit_code: "evolves s (snd (proc_S_set_exit_code p c s))"
  by (auto simp: proc_S_set_exit_code_def split: option.split dest!: find_Some
      intro!: evolve_intros evolves_set_entry)

lemma getters_unchanged [simp]: "snd (proc_S_getsid p s) = s" "snd (proc_S_getpgid p s) = s"
  "snd (proc_S_tcgetpgrp d s) = s"
  by (simp_all add: proc_S_getsid_def proc_S_getpgid_def proc_S_tcgetpgrp_def split: option.split)

lemma evolves_getrusage: "evolves s (snd (proc_S_getrusage K p s))"
  by (simp add: proc_S_getrusage_def Let_def evolves_refresh split: option.split)

lemmas evolves_handlers = evolves_refl evolves_exec_handoff evolves_subscribe_exit
  evolves_reap_zombie evolves_list evolves_set_signal_port evolves_kill evolves_killpg
  evolves_ctty evolves_shutdown evolves_getrusage
  evolves_set_exit_code evolves_vfs evolves_vfs_read evolves_dead_name

lemma demux_evolves:
  "\<nexists>p t c. r = Register p t c \<Longrightarrow> \<nexists>p. r = Setsid p \<Longrightarrow> \<nexists>p g. r = Setpgid p g \<Longrightarrow>
   evolves s (proc_demux K r s)"
  by (cases r) (simp_all add: evolves_handlers)

lemma demux_evolves_pid: "\<nexists>p t c. r = Register p t c \<Longrightarrow> evolves_pid s (proc_demux K r s)"
  by (cases r) (simp_all add: evolves_handlers [THEN evolves_imp_pid] evolves_setsid evolves_setpgid)

lemma next_pid_demux: "next_pid (proc_demux K r s) \<in> {next_pid s, next_pid s + 1}"
proof (cases "\<exists>p t c. r = Register p t c")
  case True
  have "next_pid (request_dead_name K t u) = next_pid u" for t u
    by (simp add: request_dead_name_def split_beta Let_def)
  then have "next_pid (snd (proc_S_register K p t c s)) \<in> {next_pid s, next_pid s + 1}" for p t c
    by (simp add: proc_S_register_def Let_def split: option.split)
  with True show ?thesis by (metis proc_demux.simps(1))
next
  case False
  then have "evolves_pid s (proc_demux K r s)" by (rule demux_evolves_pid)
  then show ?thesis by (simp add: evolves_pid_def)
qed

lemma demux_table_ok:
  assumes "table_ok s" and "next_pid s \<noteq> - 1" and "next_pid s \<noteq> 0"
  shows "table_ok (proc_demux K r s)"
proof (cases "\<exists>p t c. r = Register p t c")
  case True
  then show ?thesis using register_table_ok [OF assms] by auto
next
  case False
  then show ?thesis using evolves_pid_table_ok [OF assms(1) demux_evolves_pid] by blast
qed

text \<open>
  What every request keeps, every run keeps: the form in which invariants of the server are
  proved, with the integrity of the table at hand in each step.
\<close>

lemma run_invariant:
  assumes len: "length rs < 2 ^ 32 - 2" and init: "P (initial_state n)"
    and step: "\<And>s r. r \<in> set rs \<Longrightarrow> table_ok s \<Longrightarrow> P s \<Longrightarrow> next_pid s \<noteq> - 1 \<Longrightarrow> next_pid s \<noteq> 0 \<Longrightarrow>
                 P (proc_demux K r s)"
  shows "table_ok (fold (proc_demux K) rs (initial_state n))"
    and "P (fold (proc_demux K) rs (initial_state n))"
proof -
  have "table_ok (fold (proc_demux K) rs s) \<and> P (fold (proc_demux K) rs s)"
    if "table_ok s" "P s" "next_pid s \<noteq> 0" "unat (next_pid s) + length rs < 2 ^ 32" for s
    using step that
  proof (induction rs arbitrary: s)
    case Nil
    then show ?case by simp
  next
    case (Cons r rs)
    have ne: "next_pid s \<noteq> - 1"
      using Cons.prems(5) by (auto simp: unsigned_minus_1_eq_mask mask_eq_exp_minus_1)
    have "unat (next_pid (proc_demux K r s)) \<le> Suc (unat (next_pid s))"
      "next_pid (proc_demux K r s) \<noteq> 0"
      using next_pid_demux [of K r s] unat_add_one [OF ne] Cons.prems(4) by (auto simp: unat_eq_0)
    moreover have "P (proc_demux K r s)" using Cons.prems ne by simp
    ultimately show ?case
      using Cons.IH [of "proc_demux K r s"] Cons.prems demux_table_ok [OF Cons.prems(2) ne Cons.prems(4)]
      by simp
  qed
  from this [of "initial_state n"] show "table_ok (fold (proc_demux K) rs (initial_state n))"
    "P (fold (proc_demux K) rs (initial_state n))"
    using len init table_ok_initial by (simp_all add: initial_state_def)
qed

text \<open>
  C27. Whatever requests arrive, in whatever order, and whatever the kernel answers, the pid
  table keeps its integrity as long as fewer than 2^32 - 2 requests have been served: 256
  slots, nothing left in a free slot, pids non-zero, pairwise different and already issued.
\<close>

theorem pid_table_invariant:
  assumes "length rs < 2 ^ 32 - 2"
  shows "table_ok (fold (proc_demux K) rs (initial_state n))"
  using assms by (rule run_invariant(1) [where P = "\<lambda>_. True"]) simp_all

theorem pid_table_invariant_witness:
  "table_ok (fold (proc_demux quiet_kernel) [Register 0 7 ''init'', Kill 2 15, Dead_name 7] (initial_state 3))"
  by (rule pid_table_invariant) simp

end
