(* ===== verification/Proc_Exit.thy ===== *)
theory Proc_Exit
  imports Proc_Table_Inv
begin

text \<open>
  Delivery of exit codes.  An exit code leaves the server in one of two messages: the one the
  dead-name handler sends to a waiting subscriber, and the one \<^verbatim>\<open>subscribe_exit\<close> sends for a
  zombie.  Both free the slot.  Every other handler sends no such message, so over any run no
  pid's exit code is reported twice.
\<close>

section \<open>Definitions\<close>

primrec exit_pid :: "pcall \<Rightarrow> proc_pid option" where
  "exit_pid (Port_deallocate p) = None"
| "exit_pid (Request_dead_name p q) = None"
| "exit_pid (Send_exit_msg n p c) = Some p"
| "exit_pid (Send_signal_msg p n q) = None"
| "exit_pid (Send_ctty_release p q) = None"
| "exit_pid (Task_terminate p) = None"
| "exit_pid (Task_suspend p) = None"
| "exit_pid (Task_resume p) = None"
| "exit_pid (Task_basic_info p) = None"
| "exit_pid (Task_events_info p) = None"
| "exit_pid (Vm_allocate n) = None"
| "exit_pid (Usleep n) = None"
| "exit_pid Netname_list_mounts = None"
| "exit_pid (Netname_look_up_mount l) = None"
| "exit_pid (Fs_unmount p) = None"
| "exit_pid (Host_reboot opt) = None"

text \<open>The exit messages sent for a pid so far.\<close>

definition exits :: "proc_pid \<Rightarrow> proc_state \<Rightarrow> pcall list" where
  "exits p s = filter (\<lambda>c. exit_pid c = Some p) (calls s)"

definition exit_ok :: "proc_state \<Rightarrow> bool" where
  "exit_ok s \<longleftrightarrow>
     (\<forall>p. length (exits p s) \<le> 1) \<and>
     (\<forall>p. exits p s \<noteq> [] \<longrightarrow> unat p < unat (next_pid s) \<and> find_by_pid_locked p s = None)"

text \<open>A step that sends no exit message.\<close>

definition silent :: "proc_state \<Rightarrow> proc_state \<Rightarrow> bool" where
  "silent s s' \<longleftrightarrow> (\<forall>p. exits p s' = exits p s)"

named_theorems silent_intros \<open>steps that send no exit message\<close>

text \<open>A server with one registered process, for the concrete instances.\<close>

definition one_process :: proc_state where
  "one_process = snd (proc_S_register quiet_kernel 0 7 ''sh'' (initial_state 3))"

section \<open>Steps that send no exit message\<close>

lemma silent_refl [silent_intros]: "silent s s"
  by (simp add: silent_def)

lemma silent_trans: "silent s t \<Longrightarrow> silent t u \<Longrightarrow> silent s u"
  by (simp add: silent_def)

lemma silent_kdo [silent_intros]: "exit_pid c = None \<Longrightarrow> silent s t \<Longrightarrow> silent s (kdo c t)"
  by (simp add: silent_def exits_def)

lemma silent_kdo_if [silent_intros]: "exit_pid c = None \<Longrightarrow> silent s t \<Longrightarrow> silent s (kdo_if b c t)"
  by (simp add: silent_def exits_def)

lemma silent_kcall [silent_intros]: "exit_pid c = None \<Longrightarrow> silent s t \<Longrightarrow> silent s (snd (kcall K c t))"
  by (simp add: silent_def exits_def)

lemma silent_set_entry [silent_intros]: "silent s t \<Longrightarrow> silent s (set_entry i e t)"
  by (simp add: silent_def exits_def)

lemma silent_next_pid [silent_intros]: "silent s t \<Longrightarrow> silent s (t\<lparr>next_pid := n\<rparr>)"
  "silent s t \<Longrightarrow> silent s (t\<lparr>next_stat_handle := h\<rparr>)" "silent s t \<Longrightarrow> silent s (t\<lparr>pid_table := l\<rparr>)"
  by (simp_all add: silent_def exits_def)

lemma silent_fold:
  assumes "\<And>x t. silent t (f x t)" shows "silent s (fold f xs s)"
proof (induction xs arbitrary: s)
  case Nil
  then show ?case by (simp add: silent_refl)
next
  case (Cons x xs)
  show ?case using silent_trans [OF assms Cons, of s x] by simp
qed

lemma silent_fold_snd:
  assumes "\<And>x n t. silent t (snd (f x (n, t)))" shows "silent (snd s) (snd (fold f xs s))"
proof (induction xs arbitrary: s)
  case Nil
  then show ?case by (simp add: silent_refl)
next
  case (Cons x xs)
  have "silent (snd s) (snd (f x s))" using assms [of "snd s" x "fst s"] by simp
  from silent_trans [OF this Cons] show ?case by simp
qed

lemma silent_request [silent_intros]: "silent s t \<Longrightarrow> silent s (request_dead_name K p t)"
  by (simp add: request_dead_name_def split_beta Let_def silent_kdo_if silent_kcall)

lemma silent_ctty_release [silent_intros]: "silent s t \<Longrightarrow> silent s (notify_ctty_release c d t)"
  by (simp add: notify_ctty_release_def silent_kdo_if)

lemma silent_register: "silent s (snd (proc_S_register K p t c s))"
  by (auto simp: proc_S_register_def Let_def split: option.split intro!: silent_intros)

lemma silent_exec_handoff: "silent s (snd (proc_S_exec_handoff K p t c s))"
  by (auto simp: proc_S_exec_handoff_def Let_def split: option.split intro!: silent_intros)

lemma silent_reap: "silent s (snd (proc_S_reap_zombie p s))"
  by (auto simp: proc_S_reap_zombie_def Let_def split: option.split intro!: silent_intros)

lemma silent_list: "silent s (snd (proc_S_list K s))"
  by (auto simp: proc_S_list_def Let_def split_beta intro!: silent_intros)

lemma silent_set_signal_port: "silent s (snd (proc_S_set_signal_port p q s))"
  by (auto simp: proc_S_set_signal_port_def Let_def split: option.split intro!: silent_intros)

lemma silent_suspend: "silent s (snd (suspend_and_mark K p t s))"
  by (auto simp: suspend_and_mark_def Let_def split_beta split: option.split intro!: silent_intros)

lemma silent_default: "silent s (snd (apply_default_disposition K p n t s))"
  by (auto simp: apply_default_disposition_def Let_def split_beta split: sig_dfl.split
      intro!: silent_intros silent_suspend)

lemma silent_drop_stale: "silent s (drop_stale_sigport p q s)"
  by (auto simp: drop_stale_sigport_def split: option.split intro!: silent_intros)

lemma silent_continue: "silent s (continue_group g s)"
  unfolding continue_group_def Let_def
  by (intro silent_trans [OF silent_next_pid(3) silent_fold] silent_intros) simp

lemma silent_kill: "silent s (snd (proc_S_kill K p n s))"
proof -
  have "silent s (snd (apply_default_disposition K p n t
      (drop_stale_sigport p q (snd (kcall K (Send_signal_msg a b c) s)))))" for t q a b c
    by (meson silent_trans silent_default silent_drop_stale silent_kcall silent_refl exit_pid.simps)
  then show ?thesis
    by (auto simp: proc_S_kill_def Let_def split_beta split: option.split
        intro!: silent_intros silent_suspend silent_default silent_continue)
qed

lemma silent_killpg: "silent s (snd (proc_S_killpg K g n s))"
proof -
  have unc: "silent t (snd (killpg_uncatch1 K n x (k, t)))" for x k t
    by (simp add: killpg_uncatch1_def split_beta Let_def silent_kcall silent_refl)
  have dfl: "silent t (snd (killpg_default1 K n p q (k, t)))" for p q k t
    by (simp add: killpg_default1_def split_beta Let_def silent_default)
  have cat: "silent t (snd (killpg_catch1 K n x (k, t)))" for x k t
    using dfl silent_drop_stale silent_kcall [OF _ silent_refl]
    by (auto simp: killpg_catch1_def split_beta Let_def) (meson silent_trans exit_pid.simps)
  have two: "silent s (snd (fold (\<lambda>t. killpg_default1 K n (kt_pid t) (kt_port t)) xs
      (fold (killpg_catch1 K n) ys (k, s))))" for xs ys k
    using silent_trans [OF silent_fold_snd silent_fold_snd, OF cat dfl, of "(k, s)"] by simp
  have one: "silent s (snd (fold (killpg_uncatch1 K n) xs (k, s)))" for xs k
    using silent_fold_snd [OF unc, of "(k, s)"] by simp
  show ?thesis
    by (simp add: proc_S_killpg_def Let_def split_beta silent_refl one two)
qed

lemma silent_sessions: "silent s (snd (proc_S_setsid p s))" "silent s (snd (proc_S_setpgid p g s))"
  "silent s (snd (proc_S_set_ctty d t s))" "silent s (snd (proc_S_clear_ctty d s))"
  "silent s (snd (proc_S_tcsetpgrp d g s))" "silent s (snd (proc_S_set_exit_code p c s))"
  by (auto simp: proc_S_setsid_def proc_S_setpgid_def proc_S_set_ctty_def proc_S_clear_ctty_def
      proc_S_tcsetpgrp_def proc_S_set_exit_code_def Let_def split: option.split intro!: silent_intros)

lemma silent_shutdown: "silent s (snd (proc_S_shutdown K m s))"
proof -
  have mount: "silent t (proc_drain_mount K l t)" for l t
    by (auto simp: proc_drain_mount_def split_beta Let_def intro!: silent_intros)
  have "silent t (proc_drain_fs_sync K t)" for t
    using silent_trans [OF silent_kcall [OF _ silent_refl] silent_fold [of "proc_drain_mount K", OF mount]]
    by (auto simp: proc_drain_fs_sync_def split_beta Let_def intro!: silent_intros)
  moreover have "silent t (proc_drain_sigterm_sweep t)" for t
    by (auto simp: proc_drain_sigterm_sweep_def Let_def intro!: silent_intros silent_fold)
  ultimately show ?thesis
    by (auto simp: proc_S_shutdown_def split_beta Let_def intro!: silent_intros intro: silent_trans)
qed

lemma silent_refresh: "silent s (refresh_rusage_for_pid K p s)"
proof -
  have "silent t (snd (query_kernel_rusage K q t))" for q t
    by (auto simp: query_kernel_rusage_def split_beta Let_def intro!: silent_intros)
  then show ?thesis
    by (auto simp: refresh_rusage_for_pid_def split_beta Let_def split: option.split
        intro!: silent_intros)
qed

lemma silent_rusage: "silent s (snd (proc_S_getrusage K p s))"
  by (simp add: proc_S_getrusage_def Let_def silent_refresh split: option.split)

lemma silent_vfs: "silent s (snd (vfs_open t p s))" "silent s (snd (vfs_close h s))"
  "silent s (snd (vfs_read K h off n s))" "silent s (snd (vfs_fstat K h s))" "silent s (snd (vfs_stat K p s))"
proof -
  have r: "silent s (refresh_by_handle K h s)"
    by (simp add: refresh_by_handle_def Let_def silent_refl silent_refresh)
  then show "silent s (snd (vfs_read K h off n s))" "silent s (snd (vfs_fstat K h s))"
    by (simp_all add: vfs_read_def vfs_fstat_def Let_def split_beta silent_kcall split: option.split)
  show "silent s (snd (vfs_stat K p s))"
    by (auto simp: vfs_stat_def Let_def silent_refl silent_refresh split: option.split)
  show "silent s (snd (vfs_open t p s))" "silent s (snd (vfs_close h s))"
    by (auto simp: vfs_open_def vfs_close_def Let_def split: option.split intro!: silent_intros)
qed

lemmas silent_handlers = silent_refl silent_register silent_exec_handoff silent_reap silent_list
  silent_set_signal_port silent_kill silent_killpg silent_sessions silent_shutdown silent_rusage
  silent_vfs

section \<open>The two handlers that deliver\<close>

lemma exit_ok_silent:
  assumes "exit_ok s" and "silent s s'" and "unat (next_pid s) \<le> unat (next_pid s')"
    and "\<And>p. unat p < unat (next_pid s) \<Longrightarrow> find_by_pid_locked p s = None \<Longrightarrow> find_by_pid_locked p s' = None"
  shows "exit_ok s'"
  using assms unfolding exit_ok_def silent_def by (metis order_less_le_trans)

text \<open>A pid that is not in the table stays out of it: only registration issues pids.\<close>

lemma evolves_find_None:
  assumes "evolves_pid s s'" and "find_by_pid_locked p s = None"
  shows "find_by_pid_locked p s' = None"
proof -
  have "pe_pid (entry s' i) \<noteq> p" if "i < length (pid_table s)" "pe_in_use (entry s' i)" for i
    using assms that entry_in_set [OF that(1)]
    unfolding evolves_pid_def find_by_pid_None by (metis zero_entry_not_in_use)
  moreover have "length (pid_table s') = length (pid_table s)" using assms(1) by (simp add: evolves_pid_def)
  ultimately show ?thesis
    unfolding find_by_pid_None by (metis entry_def in_set_conv_nth)
qed

lemma exit_ok_evolves:
  assumes "exit_ok s" and "silent s s'" and "evolves_pid s s'"
  shows "exit_ok s'"
  using assms evolves_find_None [OF assms(3)] by (intro exit_ok_silent [OF assms(1,2)]) (auto simp: evolves_pid_def)

text \<open>Freeing the slot of a pid and reporting its exit code, in either order of other calls.\<close>

lemma find_by_pid_unique:
  assumes "table_ok s" and "i < length (pid_table s)" and "pe_in_use (entry s i)"
  shows "find_by_pid_locked (pe_pid (entry s i)) s = Some i"
  unfolding find_by_pid_locked_def
  by (rule scan_unique)
    (use assms table_ok_unique [OF assms(1) _ assms(2)] in \<open>auto simp: entry_def\<close>)

lemma find_by_pid_freed:
  assumes "table_ok s" and "i < length (pid_table s)" and "pe_in_use (entry s i)"
  shows "find_by_pid_locked (pe_pid (entry s i)) (set_entry i zero_entry s) = None"
proof -
  have "pe_pid (entry s j) \<noteq> pe_pid (entry s i)"
    if "j < length (pid_table s)" "j \<noteq> i" "pe_in_use (entry s j)" for j
    using table_ok_unique [OF assms(1) that(1) assms(2) that(3) assms(3)] that(2) by blast
  then have "\<not> (pe_in_use (entry (set_entry i zero_entry s) j) \<and>
      pe_pid (entry (set_entry i zero_entry s) j) = pe_pid (entry s i))"
    if "j < length (pid_table s)" for j
    using that by (simp add: entry_set_entry assms(2))
  then show ?thesis
    unfolding find_by_pid_None by (auto simp: in_set_conv_nth entry_def)
qed

lemma find_by_pid_table_cong: "pid_table s = pid_table t \<Longrightarrow> find_by_pid_locked p s = find_by_pid_locked p t"
  by (simp add: find_by_pid_locked_def)

lemma exit_ok_deliver:
  assumes ok: "table_ok s" "exit_ok s" and i: "i < length (pid_table s)" "pe_in_use (entry s i)"
    and t: "pid_table s' = (pid_table s)[i := zero_entry]" "next_pid s' = next_pid s"
    and c: "\<And>p. exits p s' = exits p s @ (if p = pe_pid (entry s i) then x else [])" "length x \<le> 1"
  shows "exit_ok s'"
proof -
  have f: "find_by_pid_locked p s' = find_by_pid_locked p (set_entry i zero_entry s)" for p
    by (rule find_by_pid_table_cong) (simp add: t)
  have "evolves s (set_entry i zero_entry s)"
    by (rule evolves_set_entry [OF evolves_refl i]) simp
  then have out: "find_by_pid_locked p s' = None" if "find_by_pid_locked p s = None" for p
    using evolves_find_None [OF evolves_imp_pid] that f by simp
  have pid: "find_by_pid_locked (pe_pid (entry s i)) s \<noteq> None"
    using find_by_pid_unique [OF ok(1) i] by simp
  then have "exits (pe_pid (entry s i)) s = []" using ok(2) by (auto simp: exit_ok_def)
  then have "length (exits p s') \<le> 1" for p
    using c ok(2) by (auto simp: exit_ok_def)
  moreover have "unat p < unat (next_pid s') \<and> find_by_pid_locked p s' = None" if "exits p s' \<noteq> []" for p
  proof (cases "p = pe_pid (entry s i)")
    case True
    then show ?thesis
      using find_by_pid_freed [OF ok(1) i] table_ok_pid [OF ok(1) entry_in_set [OF i(1)] i(2)] f t(2) by simp
  next
    case False
    then show ?thesis using that c(1) ok(2) out t(2) by (simp add: exit_ok_def)
  qed
  ultimately show ?thesis unfolding exit_ok_def by blast
qed

lemma subscribe_zombie:
  assumes "find_by_pid_locked p s = Some i" and "pe_state (entry s i) = PROC_STATE_ZOMBIE"
  shows "proc_S_subscribe_exit p n s =
    (PROC_OK, fire_exit_notify n p (pe_exit_code (entry s i))
       (kdo_if (pe_signal_port (entry s i) \<noteq> 0) (Port_deallocate (pe_signal_port (entry s i)))
          (set_entry i zero_entry s)))"
  using assms by (simp add: proc_S_subscribe_exit_def Let_def)

lemma subscribe_exit_ok:
  assumes "table_ok s" and "exit_ok s"
  shows "exit_ok (snd (proc_S_subscribe_exit p n s))"
proof (cases "\<exists>i. find_by_pid_locked p s = Some i \<and> pe_state (entry s i) = PROC_STATE_ZOMBIE")
  case True
  then obtain i where i: "find_by_pid_locked p s = Some i" "pe_state (entry s i) = PROC_STATE_ZOMBIE"
    by blast
  with find_by_pid_Some [OF i(1)] show ?thesis
    by (intro exit_ok_deliver [OF assms, of i _
          "if n \<noteq> 0 then [Send_exit_msg n p (pe_exit_code (entry s i))] else []"])
      (simp_all add: subscribe_zombie fire_exit_notify_def exits_def)
next
  case False
  then have "silent s (snd (proc_S_subscribe_exit p n s))"
    by (auto simp: proc_S_subscribe_exit_def Let_def split: option.split intro!: silent_intros)
  then show ?thesis by (rule exit_ok_evolves [OF assms(2) _ evolves_imp_pid [OF evolves_subscribe_exit]])
qed

text \<open>The dead-name handler when somebody waits for the pid, and when nobody does.\<close>

lemma dead_name_waited:
  assumes "find_by_task_locked t s = Some i" and "pe_exit_notify (entry s i) \<noteq> 0"
  shows "pid_table (do_mach_notify_dead_name t s) = (pid_table s)[i := zero_entry]"
    "next_pid (do_mach_notify_dead_name t s) = next_pid s"
    "exits p (do_mach_notify_dead_name t s) = exits p s @
       (if p = pe_pid (entry s i)
        then [Send_exit_msg (pe_exit_notify (entry s i)) (pe_pid (entry s i)) (pe_exit_code (entry s i))]
        else [])"
  using assms
  by (simp_all add: do_mach_notify_dead_name_def Let_def fire_exit_notify_def notify_ctty_release_def exits_def)

lemma dead_name_unwaited:
  assumes "find_by_task_locked t s = Some i" and "pe_exit_notify (entry s i) = 0"
  shows "pid_table (do_mach_notify_dead_name t s) = (pid_table s)[i := zombify (entry s i)]"
    "silent s (do_mach_notify_dead_name t s)"
proof -
  show "pid_table (do_mach_notify_dead_name t s) = (pid_table s)[i := zombify (entry s i)]"
    using assms by (simp add: do_mach_notify_dead_name_def Let_def fire_exit_notify_def notify_ctty_release_def)
  show "silent s (do_mach_notify_dead_name t s)"
    using assms by (auto simp: do_mach_notify_dead_name_def Let_def fire_exit_notify_def kdo_if_def
        intro!: silent_intros)
qed

lemma dead_name_exit_ok:
  assumes "table_ok s" and "exit_ok s"
  shows "exit_ok (do_mach_notify_dead_name t s)"
proof (cases "find_by_task_locked t s")
  case None
  then have "silent s (do_mach_notify_dead_name t s)"
    by (simp add: do_mach_notify_dead_name_def silent_kdo silent_refl)
  then show ?thesis by (rule exit_ok_evolves [OF assms(2) _ evolves_imp_pid [OF evolves_dead_name]])
next
  case (Some i)
  note i = find_by_task_Some [OF Some]
  show ?thesis
  proof (cases "pe_exit_notify (entry s i) = 0")
    case True
    then show ?thesis
      by (intro exit_ok_evolves [OF assms(2) dead_name_unwaited(2) [OF Some] evolves_imp_pid [OF evolves_dead_name]])
  next
    case False
    from i show ?thesis
      by (intro exit_ok_deliver [OF assms _ _ dead_name_waited [OF Some False]]) simp_all
  qed
qed

lemma register_find_None:
  assumes "table_ok s" and "unat p < unat (next_pid s)" and "find_by_pid_locked p s = None"
  shows "find_by_pid_locked p (snd (proc_S_register K q t c s)) = None"
proof (cases "scan (\<lambda>e. pe_in_use e \<and> pe_task_port e = t) (pid_table s) = None \<and>
              (\<exists>i. scan (\<lambda>e. \<not> pe_in_use e) (pid_table s) = Some i)")
  case False
  then have "pid_table (snd (proc_S_register K q t c s)) = pid_table s"
    by (auto simp: proc_S_register_def split: option.splits)
  then show ?thesis using assms(3) find_by_pid_table_cong by metis
next
  case True
  then obtain i where i: "scan (\<lambda>e. \<not> pe_in_use e) (pid_table s) = Some i"
    and n: "scan (\<lambda>e. pe_in_use e \<and> pe_task_port e = t) (pid_table s) = None" by blast
  let ?e = "register_entry (next_pid s) q t c (reg_mark s i q) (entry (reg_mark s i q) i)"
  have tab: "pid_table (snd (proc_S_register K q t c s)) = (pid_table s)[i := ?e]"
    unfolding register_new [OF n i]
    by (simp add: request_dead_name_def split_beta Let_def reg_mark_def)
  have "pe_pid ?e \<noteq> p" using assms(2) by (auto simp: register_entry_id)
  then show ?thesis
    using assms(3) set_update_subset [of "pid_table s" i ?e] unfolding find_by_pid_None tab by blast
qed

lemma demux_exit_ok:
  assumes "table_ok s" and "exit_ok s" and "next_pid s \<noteq> - 1"
  shows "exit_ok (proc_demux K r s)"
proof (cases "\<exists>p t c. r = Register p t c")
  case True
  then obtain p t c where r: "r = Register p t c" by blast
  have "unat (next_pid s) \<le> unat (next_pid (proc_demux K r s))"
    using next_pid_demux [of K r s] unat_add_one [OF assms(3)] by auto
  then show ?thesis
    using silent_register register_find_None [OF assms(1)]
    by (intro exit_ok_silent [OF assms(2)]) (simp_all add: r)
next
  case False
  then have ev: "evolves_pid s (proc_demux K r s)" by (rule demux_evolves_pid)
  show ?thesis
  proof (cases "(\<exists>p n. r = Subscribe_exit p n) \<or> (\<exists>n. r = Dead_name n)")
    case True
    then show ?thesis using subscribe_exit_ok [OF assms(1,2)] dead_name_exit_ok [OF assms(1,2)] by auto
  next
    case False
    then have "silent s (proc_demux K r s)" by (cases r) (simp_all add: silent_handlers)
    then show ?thesis by (rule exit_ok_evolves [OF assms(2) _ ev])
  qed
qed

section \<open>Properties\<close>

text \<open>
  C28. Over any run of the server, whatever the requests and the kernel's answers, at most one
  exit message is sent for each pid, and once it has been sent the pid is no longer in the
  table: no exit status is reported twice.
\<close>

theorem exit_reported_at_most_once:
  assumes "length rs < 2 ^ 32 - 2"
  shows "length (exits p (fold (proc_demux K) rs (initial_state n))) \<le> 1 \<and>
    (exits p (fold (proc_demux K) rs (initial_state n)) \<noteq> [] \<longrightarrow>
       find_by_pid_locked p (fold (proc_demux K) rs (initial_state n)) = None)"
proof -
  have "exit_ok (initial_state n)" by (simp add: exit_ok_def exits_def initial_state_def)
  with assms have "exit_ok (fold (proc_demux K) rs (initial_state n))"
    by (rule run_invariant(2)) (rule demux_exit_ok)
  then show ?thesis by (simp add: exit_ok_def)
qed

theorem exit_reported_at_most_once_witness:
  "length (exits 2 (fold (proc_demux quiet_kernel)
     [Register 0 7 ''sh'', Set_exit_code 2 3, Dead_name 7, Subscribe_exit 2 9, Subscribe_exit 2 9]
     (initial_state 3))) \<le> 1"
  using exit_reported_at_most_once [of "[Register 0 7 ''sh'', Set_exit_code 2 3, Dead_name 7,
     Subscribe_exit 2 9, Subscribe_exit 2 9]" 2 quiet_kernel 3] by simp

text \<open>
  C29. The exit code a process stores before it dies reaches whoever waits for it: a waiter
  registered before the death gets the message during the dead-name notification, and
  otherwise the first later subscription is answered with it at once; in both cases the code
  is the one stored, and the pid's slot is free afterwards.
\<close>

theorem exit_code_reaches_waiter:
  fixes c :: i32
  assumes ok: "table_ok s" and i: "find_by_pid_locked p s = Some i" "find_by_task_locked t s = Some i"
    and n: "n \<noteq> 0"
  defines "s1 \<equiv> do_mach_notify_dead_name t (snd (proc_S_set_exit_code p c s))"
  shows "if pe_exit_notify (entry s i) \<noteq> 0
         then Send_exit_msg (pe_exit_notify (entry s i)) p c \<in> set (calls s1) \<and>
              find_by_pid_locked p s1 = None
         else fst (proc_S_subscribe_exit p n s1) = PROC_OK \<and>
              last (calls (snd (proc_S_subscribe_exit p n s1))) = Send_exit_msg n p c \<and>
              find_by_pid_locked p (snd (proc_S_subscribe_exit p n s1)) = None"
proof -
  note f = find_by_pid_Some [OF i(1)]
  let ?s = "snd (proc_S_set_exit_code p c s)"
  have s': "?s = set_entry i ((entry s i)\<lparr>pe_exit_code := c\<rparr>) s"
    using i(1) by (simp add: proc_S_set_exit_code_def)
  have ok': "table_ok ?s" by (rule evolves_table_ok [OF ok evolves_set_exit_code])
  have e: "entry ?s i = (entry s i)\<lparr>pe_exit_code := c\<rparr>" using f by (simp add: s' entry_set_entry)
  have "scan (\<lambda>e. pe_in_use e \<and> pe_task_port e = t) (pid_table ?s)
      = scan (\<lambda>e. pe_in_use e \<and> pe_task_port e = t) (pid_table s)"
    using f by (simp add: s' scan_update_cong entry_def)
  with i(2) have t: "find_by_task_locked t ?s = Some i" by (simp add: find_by_task_locked_def)
  have f': "i < length (pid_table ?s)" "pe_in_use (entry ?s i)" using f e by (simp_all add: s')
  show ?thesis
  proof (cases "pe_exit_notify (entry s i) = 0")
    case False
    with e have w: "pe_exit_notify (entry ?s i) \<noteq> 0" by simp
    note d = dead_name_waited [OF t w]
    have "Send_exit_msg (pe_exit_notify (entry s i)) p c \<in> set (exits p s1)"
      unfolding s1_def d(3) using e f by simp
    moreover have "find_by_pid_locked p s1 = None"
      using find_by_pid_freed [OF ok' f'] find_by_pid_table_cong [of s1 "set_entry i zero_entry ?s"] d(1) e f
      by (simp add: s1_def)
    ultimately show ?thesis using False by (auto simp: exits_def)
  next
    case True
    with e have w: "pe_exit_notify (entry ?s i) = 0" by simp
    have ok1: "table_ok s1" unfolding s1_def by (rule evolves_table_ok [OF ok' evolves_dead_name])
    have len: "i < length (pid_table s1)" using f' dead_name_unwaited(1) [OF t w] by (simp add: s1_def)
    have e1: "entry s1 i = zombify (entry ?s i)"
      using f' dead_name_unwaited(1) [OF t w] by (simp add: s1_def entry_def)
    then have z: "pe_in_use (entry s1 i)" "pe_pid (entry s1 i) = p" "pe_state (entry s1 i) = PROC_STATE_ZOMBIE"
      "pe_exit_code (entry s1 i) = c" using f e by (simp_all add: zombify_def Let_def)
    then have f1: "find_by_pid_locked p s1 = Some i" using find_by_pid_unique [OF ok1 len] by metis
    note sub = subscribe_zombie [OF f1 z(3), of n]
    have "find_by_pid_locked p (snd (proc_S_subscribe_exit p n s1)) = None"
      using find_by_pid_freed [OF ok1 len z(1)] z(2)
        find_by_pid_table_cong [of "snd (proc_S_subscribe_exit p n s1)" "set_entry i zero_entry s1" p]
      by (simp add: sub fire_exit_notify_def)
    then show ?thesis using True n z(4) by (simp add: sub fire_exit_notify_def)
  qed
qed

lemma one_process_eq: "one_process = \<lparr>pid_table =
    zero_entry\<lparr>pe_in_use := True, pe_pid := 2, pe_pgrp_id := 2, pe_sid := 2, pe_task_port := 7,
      pe_state := PROC_STATE_RUNNING, pe_cmdline := ''sh''\<rparr> # replicate 255 zero_entry,
    next_pid = 3, next_stat_handle = 1, notify_port = 3, calls = [Request_dead_name 7 3]\<rparr>"
  unfolding one_process_def initial_state_def initial_table
  by (simp add: proc_S_register_def scan_replicate entry_def set_entry_def register_entry_def request_dead_name_def
      kcall_def kdo_if_def quiet_kernel_def ok_reply_def strncpy_z_def PROC_CMDLINE_MAX_def zero_entry_def)

lemma one_process_facts: "table_ok one_process" "find_by_pid_locked 2 one_process = Some 0"
  "find_by_task_locked 7 one_process = Some 0"
proof -
  show "table_ok one_process"
    unfolding one_process_def by (rule register_table_ok [OF table_ok_initial]) (simp_all add: initial_state_def)
qed (simp_all add: one_process_eq find_by_pid_locked_def find_by_task_locked_def)

theorem exit_code_reaches_waiter_witness:
  "let s1 = do_mach_notify_dead_name 7 (snd (proc_S_set_exit_code 2 42 one_process))
   in fst (proc_S_subscribe_exit 2 9 s1) = PROC_OK \<and>
      last (calls (snd (proc_S_subscribe_exit 2 9 s1))) = Send_exit_msg 9 2 42"
proof -
  have "pe_exit_notify (entry one_process 0) = 0" by (simp add: one_process_eq entry_def zero_entry_def)
  then show ?thesis
    using exit_code_reaches_waiter [OF one_process_facts, of 9 42] by (simp add: Let_def)
qed

end
