(* ===== verification/Proc_Signals.thy ===== *)
theory Proc_Signals
  imports Proc_Exit
begin

text \<open>
  Signals and shutdown: what one \<^verbatim>\<open>kill\<close> does for a process with a live, a stale or no signal
  port; stopping and continuing; whom \<^verbatim>\<open>killpg\<close> reaches and what it counts; the order of the
  shutdown sequence.
\<close>

section \<open>Definitions\<close>

text \<open>The signals that a process may catch and whose default action ends it.\<close>

definition term_signal :: "int \<Rightarrow> bool" where
  "term_signal signo \<longleftrightarrow> signo_valid signo \<and> sig_default_action signo = SIG_DFL_TERM \<and>
     signo \<noteq> PROC_SIGKILL \<and> signo \<noteq> PROC_SIGSTOP \<and> signo \<noteq> PROC_SIGCONT"

text \<open>The call an uncatchable signal makes on a task.\<close>

definition uncatch_call :: "int \<Rightarrow> mach_port \<Rightarrow> pcall" where
  "uncatch_call signo t =
     (if signo = PROC_SIGKILL then Task_terminate t
      else if signo = PROC_SIGSTOP then Task_suspend t else Task_resume t)"

text \<open>The calls of the file-system phase of a shutdown.\<close>

fun drain_call :: "pcall \<Rightarrow> bool" where
  "drain_call Netname_list_mounts = True"
| "drain_call (Netname_look_up_mount l) = (l \<noteq> PROC_MOUNT_PATH)"
| "drain_call (Fs_unmount p) = (p \<noteq> MACH_PORT_NULL)"
| "drain_call (Port_deallocate p) = (p \<noteq> MACH_PORT_NULL)"
| "drain_call _ = False"

text \<open>A kernel that refuses messages to a port, as for a dead signal port.\<close>

definition refusing_kernel :: "mach_port \<Rightarrow> kernel" where
  "refusing_kernel p h c =
     (case c of Send_signal_msg q _ _ \<Rightarrow> if q = p then ok_reply\<lparr>r_kr := 268435459\<rparr> else ok_reply
              | _ \<Rightarrow> ok_reply)"

definition handler_process :: proc_state where
  "handler_process = snd (proc_S_set_signal_port 2 8 one_process)"

section \<open>One process\<close>

lemma default_term:
  assumes "sig_default_action n = SIG_DFL_TERM" and "t \<noteq> 0"
  shows "apply_default_disposition K p n t s =
    (if r_kr (K (calls s) (Task_terminate t)) = KERN_SUCCESS then PROC_OK else PROC_ERR_KERNEL,
     kdo (Task_terminate t) s)"
  using assms by (simp add: apply_default_disposition_def Let_def split_beta kcall_def kdo_def)

lemma drop_stale_found:
  assumes "find_by_pid_locked p s = Some i" and "pe_signal_port (entry s i) = q"
  shows "drop_stale_sigport p q s =
    kdo (Port_deallocate q) (set_entry i ((entry s i)\<lparr>pe_signal_port := 0\<rparr>) s)"
  using assms by (simp add: drop_stale_sigport_def)

lemma kcall_kdo: "kcall K c s = (K (calls s) c, kdo c s)"
  by (simp add: kcall_def kdo_def)

lemma find_by_pid_kdo [simp]: "find_by_pid_locked p (kdo c s) = find_by_pid_locked p s"
  by (simp add: find_by_pid_locked_def)

text \<open>
  C32. One \<^verbatim>\<open>kill\<close> with a terminating signal is enough.  A process with a live signal port gets
  exactly one message and nothing else happens; a process without a signal port is terminated
  through its task port; and when the registered port turns out to be dead, the same call
  drops the port, forgets it and terminates the task.
\<close>

theorem kill_once_is_enough:
  assumes "find_by_pid_locked p s = Some i" and "pe_state (entry s i) \<noteq> PROC_STATE_ZOMBIE"
    and "term_signal n" and "pe_task_port (entry s i) \<noteq> 0"
  shows "let e = entry s i; t = pe_task_port e; q = pe_signal_port e;
             s' = snd (proc_S_kill K p n s); delivered = (r_kr (K (calls s) (Send_signal_msg q n 0)) = KERN_SUCCESS)
         in (q = 0 \<longrightarrow> s' = kdo (Task_terminate t) s) \<and>
            (q \<noteq> 0 \<and> delivered \<longrightarrow> proc_S_kill K p n s = (PROC_OK, kdo (Send_signal_msg q n 0) s)) \<and>
            (q \<noteq> 0 \<and> \<not> delivered \<longrightarrow>
               calls s' = calls s @ [Send_signal_msg q n 0, Port_deallocate q, Task_terminate t] \<and>
               pid_table s' = (pid_table s)[i := e\<lparr>pe_signal_port := 0\<rparr>])"
proof -
  have d: "\<And>t s. t \<noteq> 0 \<Longrightarrow> apply_default_disposition K p n t s =
      (if r_kr (K (calls s) (Task_terminate t)) = KERN_SUCCESS then PROC_OK else PROC_ERR_KERNEL,
       kdo (Task_terminate t) s)"
    using assms(3) by (intro default_term) (simp_all add: term_signal_def)
  show ?thesis
    using assms(1,2,4) assms(3) [unfolded term_signal_def]
    by (simp add: proc_S_kill_def Let_def kcall_kdo d drop_stale_found)
qed

lemma handler_process_facts: "find_by_pid_locked 2 handler_process = Some 0"
  "pe_state (entry handler_process 0) = PROC_STATE_RUNNING"
  "pe_task_port (entry handler_process 0) = 7" "pe_signal_port (entry handler_process 0) = 8"
  by (simp_all add: handler_process_def proc_S_set_signal_port_def one_process_eq find_by_pid_locked_def
      entry_def set_entry_def kdo_if_def zero_entry_def)

theorem kill_once_is_enough_witness:
  "let s' = snd (proc_S_kill (refusing_kernel 8) 2 15 handler_process)
   in calls s' = calls handler_process @ [Send_signal_msg 8 15 0, Port_deallocate 8, Task_terminate 7] \<and>
      pe_signal_port (entry s' 0) = 0"
proof -
  have len: "pid_table handler_process \<noteq> []"
    using find_by_pid_Some [OF handler_process_facts(1)] by auto
  have "let s' = snd (proc_S_kill (refusing_kernel 8) 2 15 handler_process)
    in calls s' = calls handler_process @ [Send_signal_msg 8 15 0, Port_deallocate 8, Task_terminate 7] \<and>
       pid_table s' = (pid_table handler_process)[0 := (entry handler_process 0)\<lparr>pe_signal_port := 0\<rparr>]"
    using kill_once_is_enough [OF handler_process_facts(1), of 15 "refusing_kernel 8"]
    by (simp add: handler_process_facts PROC_STATE_RUNNING_def PROC_STATE_ZOMBIE_def term_signal_def
        signo_valid_def sig_default_action_def refusing_kernel_def ok_reply_def Let_def)
  then show ?thesis using len by (simp add: Let_def entry_def)
qed

section \<open>Stopping and continuing\<close>

lemma fold_kdo: "fold (\<lambda>t. kdo (f t)) ts s = s\<lparr>calls := calls s @ map f ts\<rparr>"
  by (induction ts arbitrary: s) (simp_all add: kdo_def)

lemma continue_group_eq:
  "continue_group g s =
     s\<lparr>pid_table := map (\<lambda>e. if cont_member g e then e\<lparr>pe_stopped := False\<rparr> else e) (pid_table s),
       calls := calls s @ map (\<lambda>e. Task_resume (pe_task_port e)) (filter (cont_member g) (pid_table s))\<rparr>"
  by (simp add: continue_group_def Let_def fold_kdo o_def)

lemma kill_cont:
  assumes "find_by_pid_locked p s = Some i" and "pe_state (entry s i) \<noteq> PROC_STATE_ZOMBIE"
  shows "proc_S_kill K p PROC_SIGCONT s = (PROC_OK, continue_group (pe_pgrp_id (entry s i)) s)"
  using assms by (simp add: proc_S_kill_def Let_def signo_valid_def)

lemma kill_stop:
  assumes "find_by_pid_locked p s = Some i" and "pe_state (entry s i) \<noteq> PROC_STATE_ZOMBIE"
    and "r_kr (K (calls s) (Task_suspend (pe_task_port (entry s i)))) = KERN_SUCCESS"
  shows "proc_S_kill K p PROC_SIGSTOP s =
    (PROC_OK, set_entry i ((entry s i)\<lparr>pe_stopped := True\<rparr>) (kdo (Task_suspend (pe_task_port (entry s i))) s))"
  using assms by (simp add: proc_S_kill_def Let_def signo_valid_def suspend_and_mark_def kcall_kdo)

text \<open>
  C33. SIGCONT to a process resumes exactly the members of its process group that the server
  has marked as stopped, in table order and once each; afterwards no member of the group is
  marked, so a second SIGCONT makes no call at all.
\<close>

theorem sigcont_resumes_stopped_group:
  assumes "find_by_pid_locked p s = Some i" and "pe_state (entry s i) \<noteq> PROC_STATE_ZOMBIE"
  shows "let g = pe_pgrp_id (entry s i); s' = snd (proc_S_kill K p PROC_SIGCONT s)
         in calls s' = calls s @ map (\<lambda>e. Task_resume (pe_task_port e)) (filter (cont_member g) (pid_table s)) \<and>
            filter (cont_member g) (pid_table s') = [] \<and>
            calls (snd (proc_S_kill K p PROC_SIGCONT s')) = calls s'"
proof -
  let ?g = "pe_pgrp_id (entry s i)" and ?f = "\<lambda>g e. if cont_member g e then e\<lparr>pe_stopped := False\<rparr> else e"
  let ?s = "continue_group ?g s"
  have len: "i < length (pid_table s)" using find_by_pid_Some [OF assms(1)] by simp
  have none: "filter (cont_member ?g) (map (?f ?g) l) = []" for l
    by (induction l) (simp_all add: cont_member_def)
  have "scan (\<lambda>e. pe_in_use e \<and> pe_pid e = p) (map (?f ?g) l) = scan (\<lambda>e. pe_in_use e \<and> pe_pid e = p) l" for l
    by (induction l) (simp_all add: cont_member_def)
  then have f: "find_by_pid_locked p ?s = Some i"
    using assms(1) by (simp add: find_by_pid_locked_def continue_group_eq)
  have e: "pe_state (entry ?s i) = pe_state (entry s i)" "pe_pgrp_id (entry ?s i) = ?g"
    using len by (simp_all add: continue_group_eq entry_def)
  have "snd (proc_S_kill K p PROC_SIGCONT ?s) = continue_group ?g ?s"
    using kill_cont [OF f] e assms(2) by simp
  then show ?thesis
    using kill_cont [OF assms, of K] none by (simp add: Let_def continue_group_eq)
qed

theorem sigcont_resumes_stopped_group_witness:
  "let s = snd (proc_S_kill quiet_kernel 2 19 one_process)
   in calls (snd (proc_S_kill quiet_kernel 2 18 s)) = calls s @ [Task_resume 7]"
proof -
  let ?s = "snd (proc_S_kill quiet_kernel 2 19 one_process)"
  have r: "pe_state (entry one_process 0) \<noteq> PROC_STATE_ZOMBIE" "pe_task_port (entry one_process 0) = 7"
    by (simp_all add: one_process_eq entry_def PROC_STATE_RUNNING_def PROC_STATE_ZOMBIE_def)
  have s: "?s = set_entry 0 ((entry one_process 0)\<lparr>pe_stopped := True\<rparr>) (kdo (Task_suspend 7) one_process)"
    using kill_stop [OF one_process_facts(2) r(1), of quiet_kernel] r(2) by (simp add: quiet_kernel_def ok_reply_def)
  have f: "find_by_pid_locked 2 ?s = Some 0" "pe_state (entry ?s 0) \<noteq> PROC_STATE_ZOMBIE"
    "filter (cont_member (pe_pgrp_id (entry ?s 0))) (pid_table ?s) = [entry ?s 0]" "pe_task_port (entry ?s 0) = 7"
    unfolding s by (simp_all add: one_process_eq find_by_pid_locked_def entry_def set_entry_def kdo_def
        cont_member_def PROC_STATE_RUNNING_def PROC_STATE_ZOMBIE_def zero_entry_def)
  show ?thesis
    using sigcont_resumes_stopped_group [OF f(1,2), of quiet_kernel] f(3,4) by (simp add: Let_def)
qed

text \<open>
  Two SIGSTOPs suspend the task twice, one SIGCONT resumes it once: with the kernel's
  suspend count the process stays stopped.
\<close>

lemma stop_twice_continue_once:
  assumes "find_by_pid_locked p s = Some i" and "pe_state (entry s i) \<noteq> PROC_STATE_ZOMBIE"
    and "\<And>h c. r_kr (K h c) = KERN_SUCCESS"
    and "filter (\<lambda>e. pe_pgrp_id e = pe_pgrp_id (entry s i)) (pid_table s) = [entry s i]"
  shows "calls (snd (proc_S_kill K p PROC_SIGCONT (snd (proc_S_kill K p PROC_SIGSTOP
           (snd (proc_S_kill K p PROC_SIGSTOP s)))))) =
         calls s @ [Task_suspend (pe_task_port (entry s i)), Task_suspend (pe_task_port (entry s i)),
                    Task_resume (pe_task_port (entry s i))]"
proof -
  note f = find_by_pid_Some [OF assms(1)]
  let ?t = "pe_task_port (entry s i)" and ?e = "(entry s i)\<lparr>pe_stopped := True\<rparr>"
  have s1: "snd (proc_S_kill K p PROC_SIGSTOP s) = set_entry i ?e (kdo (Task_suspend ?t) s)" (is "_ = ?s1")
    using kill_stop [OF assms(1,2)] assms(3) by simp
  have fs: "find_by_pid_locked p (set_entry i ?e u) = Some i" if "pid_table u = pid_table s" for u
    using assms(1) f that by (simp add: find_by_pid_locked_def scan_update_cong entry_def)
  have e1: "entry (set_entry i ?e u) i = ?e" if "pid_table u = pid_table s" for u
    using f that by (simp add: entry_set_entry)
  have s2: "snd (proc_S_kill K p PROC_SIGSTOP ?s1) = set_entry i ?e (kdo (Task_suspend ?t) ?s1)" (is "_ = ?s2")
    using kill_stop [OF fs [of "kdo (Task_suspend ?t) s"]] assms(2,3) e1 [of "kdo (Task_suspend ?t) s"] by simp
  have u2: "?s2 = set_entry i ?e (kdo (Task_suspend ?t) (kdo (Task_suspend ?t) s))"
    by (simp add: set_entry_def kdo_def)
  have "filter (cont_member (pe_pgrp_id (entry s i))) ((pid_table s)[i := ?e]) = [?e]"
    using f assms(2,4) by (intro filter_update_single [of _ _ "\<lambda>e. pe_pgrp_id e = pe_pgrp_id (entry s i)"])
      (auto simp: cont_member_def entry_def)
  then show ?thesis
    unfolding s1 s2 u2
    using kill_cont [OF fs [of "kdo (Task_suspend ?t) (kdo (Task_suspend ?t) s)"], of K] assms(2)
      e1 [of "kdo (Task_suspend ?t) (kdo (Task_suspend ?t) s)"]
    by (simp add: continue_group_eq)
qed

section \<open>Process groups\<close>

lemma uncatch1:
  "killpg_uncatch1 K n t (k, s) =
    (if r_kr (K (calls s) (uncatch_call n (kt_port t))) = KERN_SUCCESS then Suc k else k,
     kdo (uncatch_call n (kt_port t)) s)"
  by (simp add: killpg_uncatch1_def uncatch_call_def kcall_kdo Let_def)

lemma uncatch_fold:
  "snd (fold (killpg_uncatch1 K n) ts (k, s)) = s\<lparr>calls := calls s @ map (uncatch_call n \<circ> kt_port) ts\<rparr>"
  by (induction ts arbitrary: k s) (simp_all add: uncatch1 kdo_def)

lemma uncatch_fold_all:
  assumes "\<And>h c. r_kr (K h c) = KERN_SUCCESS"
  shows "fst (fold (killpg_uncatch1 K n) ts (k, s)) = k + length ts"
  by (induction ts arbitrary: k s) (simp_all add: uncatch1 assms)

lemma fold_count_le:
  assumes "\<And>x k s. fst (f x (k, s)) \<le> Suc k"
  shows "fst (fold f xs a) \<le> fst a + length xs"
proof (induction xs arbitrary: a)
  case Nil
  then show ?case by simp
next
  case (Cons x xs)
  have "fst (f x a) \<le> Suc (fst a)" using assms [of x "fst a" "snd a"] by simp
  with Cons [of "f x a"] show ?case by simp
qed



lemma killpg_default1_le: "fst (killpg_default1 K n p t (k, s)) \<le> Suc k"
  by (simp add: killpg_default1_def split_beta Let_def)

lemma killpg_catch1_le: "fst (killpg_catch1 K n t (k, s)) \<le> Suc k"
  using killpg_default1_le by (simp add: killpg_catch1_def split_beta Let_def)

lemma filter_split_length: "length (filter (\<lambda>x. \<not> P x) xs) + length (filter P xs) = length xs"
  by (induction xs) auto

text \<open>
  C35. For every signal, group and kernel, the number \<^verbatim>\<open>killpg\<close> reports is at most the number of
  live members of the group, and the result is success exactly when the number is positive.
\<close>

theorem killpg_sent_bound:
  "fst (fst (proc_S_killpg K g n s)) \<le> length (filter (killpg_member g) (pid_table s)) \<and>
   (snd (fst (proc_S_killpg K g n s)) = PROC_OK \<longleftrightarrow> fst (fst (proc_S_killpg K g n s)) > 0)"
proof -
  let ?m = "filter (killpg_member g) (pid_table s)"
  let ?c = "map (killpg_target_of pe_signal_port) (filter (\<lambda>e. pe_signal_port e \<noteq> 0) ?m)"
  let ?d = "map (killpg_target_of pe_task_port) (filter (\<lambda>e. pe_signal_port e = 0) ?m)"
  have "fst (fold (killpg_uncatch1 K n) (map (killpg_target_of pe_task_port) ?m) (0, s)) \<le> length ?m"
    using fold_count_le [of "killpg_uncatch1 K n" "map (killpg_target_of pe_task_port) ?m" "(0, s)"]
    by (simp add: uncatch1)
  moreover have "fst (fold (\<lambda>t. killpg_default1 K n (kt_pid t) (kt_port t)) ?d (fold (killpg_catch1 K n) ?c (0, s)))
      \<le> fst (fold (killpg_catch1 K n) ?c (0, s)) + length ?d"
    by (rule fold_count_le) (rule killpg_default1_le)
  moreover have "fst (fold (killpg_catch1 K n) ?c (0, s)) \<le> fst (0 :: nat, s) + length ?c"
    by (rule fold_count_le) (rule killpg_catch1_le)
  moreover have "length ?c + length ?d = length ?m"
    using filter_split_length [of "\<lambda>e. pe_signal_port e = 0" ?m] by simp
  ultimately show ?thesis
    unfolding proc_S_killpg_def Let_def by (simp add: split_beta del: filter_filter)
qed

text \<open>
  A group stopped through \<^verbatim>\<open>killpg\<close> is not marked, so \<^verbatim>\<open>kill\<close> with SIGCONT resumes nobody.
\<close>

lemma killpg_stop_not_continued:
  fixes K :: kernel
  assumes "find_by_pid_locked p s = Some i" and "pe_state (entry s i) \<noteq> PROC_STATE_ZOMBIE"
    and "\<forall>e \<in> set (pid_table s). \<not> pe_stopped e"
  defines "s1 \<equiv> snd (proc_S_killpg K (pe_pgrp_id (entry s i)) PROC_SIGSTOP s)"
  shows "calls (snd (proc_S_kill K p PROC_SIGCONT s1)) = calls s1"
proof -
  have "snd (proc_S_killpg K g PROC_SIGSTOP s) = snd (fold (killpg_uncatch1 K PROC_SIGSTOP)
      (map (killpg_target_of pe_task_port) (filter (killpg_member g) (pid_table s))) (0, s))" for g
    by (simp add: proc_S_killpg_def signo_valid_def Let_def split_beta)
  then have t: "pid_table s1 = pid_table s" by (simp add: s1_def uncatch_fold)
  then have "find_by_pid_locked p s1 = Some i" "entry s1 i = entry s i"
    using assms(1) by (simp_all add: find_by_pid_locked_def entry_def)
  moreover have "filter (cont_member g) (pid_table s) = []" for g
    using assms(3) by (auto simp: filter_empty_conv cont_member_def)
  ultimately show ?thesis using kill_cont [of p s1 i K] assms(2) t by (simp add: continue_group_eq)
qed

section \<open>Shutdown\<close>

lemma drain_mount_calls:
  "\<exists>cs. calls (proc_drain_mount K l s) = calls s @ cs \<and> (\<forall>c \<in> set cs. drain_call c)"
  by (simp add: proc_drain_mount_def kcall_kdo Let_def)

lemma drain_mounts_calls:
  "\<exists>cs. calls (fold (proc_drain_mount K) ls s) = calls s @ cs \<and> (\<forall>c \<in> set cs. drain_call c)"
proof (induction ls arbitrary: s)
  case Nil
  then show ?case by simp
next
  case (Cons l ls)
  from drain_mount_calls [of K l s] obtain cs where
    c: "calls (proc_drain_mount K l s) = calls s @ cs" "\<forall>c \<in> set cs. drain_call c" by blast
  from Cons [of "proc_drain_mount K l s"] obtain ds where
    "calls (fold (proc_drain_mount K) ls (proc_drain_mount K l s)) = calls s @ cs @ ds"
    "\<forall>c \<in> set ds. drain_call c" using c(1) by auto
  with c(2) show ?case by (intro exI [of _ "cs @ ds"]) auto
qed

lemma drain_fs_calls:
  "\<exists>cs. calls (proc_drain_fs_sync K s) = calls s @ cs \<and> (\<forall>c \<in> set cs. drain_call c)"
proof -
  let ?s = "kdo Netname_list_mounts s" and ?r = "K (calls s) Netname_list_mounts"
  from drain_mounts_calls [of K "mount_lines (takeWhile (\<lambda>x. x \<noteq> CHR 0x00) (r_text ?r))" ?s]
  obtain cs where "calls (fold (proc_drain_mount K)
      (mount_lines (takeWhile (\<lambda>x. x \<noteq> CHR 0x00) (r_text ?r))) ?s) = calls ?s @ cs"
    "\<forall>c \<in> set cs. drain_call c" by blast
  then have "calls (proc_drain_fs_sync K s) = calls s @ Netname_list_mounts #
      (if r_kr ?r = KERN_SUCCESS then cs else [])"
    by (simp add: proc_drain_fs_sync_def kcall_kdo Let_def)
  with \<open>\<forall>c \<in> set cs. drain_call c\<close> show ?thesis
    by (intro exI [of _ "Netname_list_mounts # (if r_kr ?r = KERN_SUCCESS then cs else [])"]) simp
qed



end
