(* ===== verification/Proc_Sessions.thy ===== *)
theory Proc_Sessions
  imports Proc_Signals
begin

text \<open>
  Sessions and process groups.  POSIX job control rests on a process group belonging to one
  session.  The invariant here says so of the pid table; every request keeps it, provided that
  \<^verbatim>\<open>setpgid\<close> is only used with group numbers that are already issued pids.  Without that
  proviso the invariant fails, as a concrete run shows.
\<close>

section \<open>Definitions\<close>

text \<open>The pid, group and session of every process in the table.\<close>

definition used_ids :: "proc_state \<Rightarrow> (proc_pid \<times> proc_pid \<times> proc_pid) set" where
  "used_ids s = ids ` {e \<in> set (pid_table s). pe_in_use e}"

definition sessions_agree :: "(proc_pid \<times> proc_pid \<times> proc_pid) set \<Rightarrow> proc_pid \<Rightarrow> bool" where
  "sessions_agree U n \<longleftrightarrow>
     (\<forall>p g d p' d'. (p, g, d) \<in> U \<longrightarrow> (p', g, d') \<in> U \<longrightarrow> d' = d) \<and>
     (\<forall>p g d. (p, g, d) \<in> U \<longrightarrow> unat g < unat n \<and> unat d < unat n \<and> (g = 0 \<longrightarrow> d = 0))"

text \<open>A request that names no process group that has not been issued yet.\<close>

definition group_issued :: "proc_request \<Rightarrow> proc_state \<Rightarrow> bool" where
  "group_issued r s = (case r of Setpgid p g \<Rightarrow> unat g < unat (next_pid s) | _ \<Rightarrow> True)"

text \<open>The states the server can be in when all requests obey that rule.\<close>

inductive served :: "kernel \<Rightarrow> proc_state \<Rightarrow> bool" for K where
  served_start: "served K (initial_state n)"
| served_step: "served K s \<Longrightarrow> next_pid s \<noteq> - 1 \<Longrightarrow> group_issued r s \<Longrightarrow> served K (proc_demux K r s)"

inductive_cases served_E: "served K s"

section \<open>Tables that agree\<close>

lemma sessions_agreeD:
  assumes "sessions_agree U n" and "(p, g, d) \<in> U"
  shows "unat g < unat n" "unat d < unat n" "g = 0 \<Longrightarrow> d = 0"
    "(p', g, d') \<in> U \<Longrightarrow> d' = d"
  using assms unfolding sessions_agree_def by blast+

lemma sessions_agreeI:
  assumes "\<And>p g d p' d'. (p, g, d) \<in> U \<Longrightarrow> (p', g, d') \<in> U \<Longrightarrow> d' = d"
    and "\<And>p g d. (p, g, d) \<in> U \<Longrightarrow> unat g < unat n \<and> unat d < unat n \<and> (g = 0 \<longrightarrow> d = 0)"
  shows "sessions_agree U n"
  using assms unfolding sessions_agree_def by blast

lemma sessions_agree_mono:
  assumes "sessions_agree U n" and "V \<subseteq> U" and "unat n \<le> unat m"
  shows "sessions_agree V m"
proof (rule sessions_agreeI)
  show "d' = d" if "(p, g, d) \<in> V" "(p', g, d') \<in> V" for p g d p' d'
    using sessions_agreeD(4) [OF assms(1)] that assms(2) by blast
  show "unat g < unat m \<and> unat d < unat m \<and> (g = 0 \<longrightarrow> d = 0)" if "(p, g, d) \<in> V" for p g d
    using sessions_agreeD(1-3) [OF assms(1) subsetD [OF assms(2) that]] assms(3) by auto
qed

lemma sessions_agree_insert:
  assumes "sessions_agree U n" and "\<And>p' d'. (p', g, d') \<in> U \<Longrightarrow> d' = d"
    and "unat g < unat n" and "unat d < unat n" and "g = 0 \<Longrightarrow> d = 0"
  shows "sessions_agree (insert (p, g, d) U) n"
proof (rule sessions_agreeI)
  show "y = x" if "(a, h, x) \<in> insert (p, g, d) U" "(b, h, y) \<in> insert (p, g, d) U" for a h x b y
    using that assms(2) sessions_agreeD(4) [OF assms(1)] by (metis insertE prod.inject)
  show "unat h < unat n \<and> unat x < unat n \<and> (h = 0 \<longrightarrow> x = 0)" if "(a, h, x) \<in> insert (p, g, d) U" for a h x
    using that assms(3-5) sessions_agreeD(1-3) [OF assms(1)] by (metis insertE prod.inject)
qed

lemma used_ids_entry:
  "i < length (pid_table s) \<Longrightarrow> pe_in_use (entry s i) \<Longrightarrow> ids (entry s i) \<in> used_ids s"
  by (simp add: used_ids_def entry_def)

lemma used_ids_iff: "x \<in> used_ids s \<longleftrightarrow> (\<exists>i < length (pid_table s). pe_in_use (entry s i) \<and> x = ids (entry s i))"
  by (auto simp: used_ids_def entry_def in_set_conv_nth)

lemma evolves_used_ids:
  assumes "evolves s s'" shows "used_ids s' \<subseteq> used_ids s"
proof
  fix x assume "x \<in> used_ids s'"
  then obtain i where i: "i < length (pid_table s')" "pe_in_use (entry s' i)" "x = ids (entry s' i)"
    unfolding used_ids_iff by blast
  with assms have "i < length (pid_table s)" by (simp add: evolves_def)
  moreover from this assms have "entry s' i = entry s i \<or> entry s' i = zero_entry \<or>
      (pe_in_use (entry s i) \<and> ids (entry s' i) = ids (entry s i))" by (auto simp: evolves_def)
  ultimately show "x \<in> used_ids s" using i unfolding used_ids_iff by auto
qed

lemma used_ids_set_entry: "used_ids (set_entry i e s) \<subseteq> insert (ids e) (used_ids s)"
  using set_update_subset [of "pid_table s" i e] by (auto simp: used_ids_def)

lemma used_ids_table: "pid_table s = pid_table t \<Longrightarrow> used_ids s = used_ids t"
  by (simp add: used_ids_def)

section \<open>The three handlers that assign groups\<close>

lemma setsid_agree:
  assumes "sessions_agree (used_ids s) (next_pid s)" and "table_ok s"
  shows "sessions_agree (used_ids (snd (proc_S_setsid p s))) (next_pid s)"
proof (cases "\<exists>i. find_by_pid_locked p s = Some i \<and> \<not> (\<exists>e \<in> set (pid_table s). pe_in_use e \<and> pe_pgrp_id e = p)")
  case True
  then obtain i where f: "find_by_pid_locked p s = Some i"
    and none: "\<And>e. e \<in> set (pid_table s) \<Longrightarrow> pe_in_use e \<Longrightarrow> pe_pgrp_id e \<noteq> p" by blast
  note i = find_by_pid_Some [OF f]
  let ?e = "(entry s i)\<lparr>pe_sid := p, pe_pgrp_id := p, pe_ctty_port := 0, pe_fg_pgrp_id := 0\<rparr>"
  have s': "snd (proc_S_setsid p s) = set_entry i ?e s"
    using f none by (auto simp: proc_S_setsid_def)
  have lt: "p \<noteq> 0" "unat p < unat (next_pid s)"
    using table_ok_pid [OF assms(2) entry_in_set] i by auto
  have "sessions_agree (insert (p, p, p) (used_ids s)) (next_pid s)"
    by (rule sessions_agree_insert [OF assms(1)]) (use none lt in \<open>auto simp: used_ids_def ids_def\<close>)
  moreover have "ids ?e = (p, p, p)" using i by (simp add: ids_def)
  ultimately show ?thesis
    unfolding s' using used_ids_set_entry [of i ?e s] by (metis order_refl sessions_agree_mono)
next
  case False
  then have "snd (proc_S_setsid p s) = s" by (auto simp: proc_S_setsid_def split: option.split)
  then show ?thesis using assms(1) by simp
qed

lemma setpgid_agree:
  assumes ok: "sessions_agree (used_ids s) (next_pid s)" and tab: "table_ok s"
    and g: "unat g < unat (next_pid s)"
  shows "sessions_agree (used_ids (snd (proc_S_setpgid p g s))) (next_pid s)"
proof (cases "snd (proc_S_setpgid p g s) = s")
  case True
  then show ?thesis using ok by simp
next
  case False
  define q where "q = (if g = 0 then p else g)"
  from False obtain i where f: "find_by_pid_locked p s = Some i"
    and same: "\<And>j. scan (\<lambda>e. pe_in_use e \<and> pe_pgrp_id e = q) (pid_table s) = Some j \<Longrightarrow>
                 pe_sid (entry s j) = pe_sid (entry s i)"
    and s': "snd (proc_S_setpgid p g s) = set_entry i ((entry s i)\<lparr>pe_pgrp_id := q\<rparr>) s"
    by (auto simp: proc_S_setpgid_def q_def Let_def split: option.splits if_splits)
  note i = find_by_pid_Some [OF f]
  let ?d = "pe_sid (entry s i)"
  have "p \<noteq> 0" "unat p < unat (next_pid s)" using table_ok_pid [OF tab entry_in_set] i by auto
  then have q: "q \<noteq> 0" "unat q < unat (next_pid s)" using g by (auto simp: q_def)
  have me: "(p, pe_pgrp_id (entry s i), ?d) \<in> used_ids s"
    using used_ids_entry [of i s] i by (simp add: ids_def)
  have "d' = ?d" if "(p', q, d') \<in> used_ids s" for p' d'
  proof -
    from that obtain k where k: "k < length (pid_table s)" "pe_in_use (entry s k)"
      "(p', q, d') = ids (entry s k)" unfolding used_ids_iff by blast
    then have "scan (\<lambda>e. pe_in_use e \<and> pe_pgrp_id e = q) (pid_table s) \<noteq> None"
      by (auto simp: scan_None entry_def ids_def intro!: bexI [of _ "pid_table s ! k"])
    then obtain j where j: "scan (\<lambda>e. pe_in_use e \<and> pe_pgrp_id e = q) (pid_table s) = Some j" by blast
    then have "(pe_pid (entry s j), q, pe_sid (entry s j)) \<in> used_ids s"
      using used_ids_entry [of j s] by (auto simp: ids_def entry_def dest: scan_SomeD)
    then show ?thesis using sessions_agreeD(4) [OF ok _ that] same [OF j] by metis
  qed
  then have "sessions_agree (insert (p, q, ?d) (used_ids s)) (next_pid s)"
    using sessions_agree_insert [OF ok _ q(2) sessions_agreeD(2) [OF ok me]] q(1) by blast
  moreover have "ids ((entry s i)\<lparr>pe_pgrp_id := q\<rparr>) = (p, q, ?d)" using i by (simp add: ids_def)
  ultimately show ?thesis
    unfolding s' using used_ids_set_entry [of i "(entry s i)\<lparr>pe_pgrp_id := q\<rparr>" s]
    by (metis order_refl sessions_agree_mono)
qed

lemma ids_register_entry:
  "ids (register_entry n p t c s e) =
     (case (if p \<noteq> 0 then find_by_pid_locked p s else None) of
        Some j \<Rightarrow> (n, pe_pgrp_id (entry s j), pe_sid (entry s j)) | None \<Rightarrow> (n, n, n))"
  by (simp add: ids_def register_entry_def Let_def split: option.split)

lemma register_agree:
  assumes ok: "sessions_agree (used_ids s) (next_pid s)" and tab: "table_ok s"
    and np: "next_pid s \<noteq> - 1" "next_pid s \<noteq> 0"
  shows "sessions_agree (used_ids (snd (proc_S_register K p t c s))) (next_pid (snd (proc_S_register K p t c s)))"
proof (cases "scan (\<lambda>e. pe_in_use e \<and> pe_task_port e = t) (pid_table s) = None \<and>
              (\<exists>i. scan (\<lambda>e. \<not> pe_in_use e) (pid_table s) = Some i)")
  case False
  then have "pid_table (snd (proc_S_register K p t c s)) = pid_table s"
    "next_pid (snd (proc_S_register K p t c s)) = next_pid s"
    by (auto simp: proc_S_register_def split: option.splits)
  then show ?thesis using ok used_ids_table by metis
next
  case True
  then obtain i where i: "scan (\<lambda>e. \<not> pe_in_use e) (pid_table s) = Some i"
    and n: "scan (\<lambda>e. pe_in_use e \<and> pe_task_port e = t) (pid_table s) = None" by blast
  let ?m = "reg_mark s i p" and ?e = "register_entry (next_pid s) p t c (reg_mark s i p) (entry (reg_mark s i p) i)"
  have len: "i < length (pid_table s)" and free: "\<not> pe_in_use (entry s i)"
    using i by (auto simp: entry_def dest: scan_SomeD)
  have zero: "entry s i = zero_entry" using table_ok_zero [OF tab entry_in_set [OF len] free] .
  have reg: "pid_table (snd (proc_S_register K p t c s)) = (pid_table s)[i := ?e]"
    "next_pid (snd (proc_S_register K p t c s)) = next_pid s + 1"
    unfolding register_new [OF n i]
    by (simp_all add: request_dead_name_def split_beta Let_def reg_mark_def)
  have up: "unat (next_pid s + 1) = Suc (unat (next_pid s))" by (rule unat_add_one [OF np(1)])
  have ok1: "sessions_agree (used_ids s) (next_pid s + 1)" by (rule sessions_agree_mono [OF ok]) (simp_all add: up)
  have "sessions_agree (insert (ids ?e) (used_ids s)) (next_pid s + 1)"
  proof (cases "if p \<noteq> 0 then find_by_pid_locked p ?m else None")
    case None
    then have ide: "ids ?e = (next_pid s, next_pid s, next_pid s)" unfolding ids_register_entry by simp
    show ?thesis
      unfolding ide
    proof (rule sessions_agree_insert [OF ok1])
      show "d' = next_pid s" if "(p', next_pid s, d') \<in> used_ids s" for p' d'
        using sessions_agreeD(1) [OF ok that] by simp
    qed (use np(2) up in simp_all)
  next
    case (Some j)
    then have ide: "ids ?e = (next_pid s, pe_pgrp_id (entry ?m j), pe_sid (entry ?m j))"
      unfolding ids_register_entry by simp
    from Some have "find_by_pid_locked p ?m = Some j" by (simp split: if_splits)
    from find_by_pid_Some [OF this] have j: "j < length (pid_table s)" "pe_in_use (entry ?m j)"
      by (simp_all add: reg_mark_def)
    have m: "entry ?m j = (if j = i then (entry s i)\<lparr>pe_in_use := True, pe_pid := next_pid s, pe_ppid := p\<rparr>
        else entry s j)"
      using len by (simp add: reg_mark_def entry_def nth_list_update)
    show ?thesis
    proof (cases "j = i")
      case True
      then have "pe_pgrp_id (entry ?m j) = 0" "pe_sid (entry ?m j) = 0"
        using m zero by (simp_all add: zero_entry_def)
      then have ide0: "ids ?e = (next_pid s, 0, 0)" using ide by simp
      show ?thesis
        unfolding ide0
      proof (rule sessions_agree_insert [OF ok1])
        show "d' = 0" if "(p', 0, d') \<in> used_ids s" for p' d'
          by (rule sessions_agreeD(3) [OF ok that refl])
      qed (simp_all add: up)
    next
      case False
      with j m have "(pe_pid (entry s j), pe_pgrp_id (entry s j), pe_sid (entry s j)) \<in> used_ids s"
        using used_ids_entry [of j s] by (simp add: ids_def)
      note d = sessions_agreeD [OF ok1 this]
      have ide': "ids ?e = (next_pid s, pe_pgrp_id (entry s j), pe_sid (entry s j))" using ide m False by simp
      show ?thesis
        unfolding ide' by (rule sessions_agree_insert [OF ok1]; (erule d(4) | rule d(1) | rule d(2) | erule d(3)))
    qed
  qed
  moreover have "used_ids (snd (proc_S_register K p t c s)) = used_ids (set_entry i ?e s)"
    by (rule used_ids_table) (simp add: reg(1) set_entry_def)
  then have "used_ids (snd (proc_S_register K p t c s)) \<subseteq> insert (ids ?e) (used_ids s)"
    using used_ids_set_entry [of i ?e s] by metis
  ultimately show ?thesis unfolding reg(2) using sessions_agree_mono by blast
qed

lemma demux_agree:
  assumes ok: "sessions_agree (used_ids s) (next_pid s)" and tab: "table_ok s"
    and np: "next_pid s \<noteq> - 1" "next_pid s \<noteq> 0" and g: "group_issued r s"
  shows "sessions_agree (used_ids (proc_demux K r s)) (next_pid (proc_demux K r s))"
proof -
  consider (reg) "\<exists>p t c. r = Register p t c" | (sid) "\<exists>p. r = Setsid p" | (pgid) "\<exists>p g. r = Setpgid p g"
    | (other) "evolves s (proc_demux K r s)" using demux_evolves by blast
  then show ?thesis
  proof cases
    case reg
    then show ?thesis using register_agree [OF ok tab np] by auto
  next
    case sid
    then obtain p where "r = Setsid p" by blast
    then show ?thesis
      using setsid_agree [OF ok tab, of p] evolves_setsid [of s p] by (simp add: evolves_pid_def)
  next
    case pgid
    then obtain p h where r: "r = Setpgid p h" by blast
    then show ?thesis
      using setpgid_agree [OF ok tab, of h p] evolves_setpgid [of s p h] g
      by (simp add: evolves_pid_def group_issued_def)
  next
    case other
    then show ?thesis
      using sessions_agree_mono [OF ok evolves_used_ids [OF other]] by (simp add: evolves_def)
  qed
qed

lemma served_ok:
  "served K s \<Longrightarrow> table_ok s \<and> next_pid s \<noteq> 0 \<and> sessions_agree (used_ids s) (next_pid s)"
proof (induction rule: served.induct)
  case (served_start n)
  have "used_ids (initial_state n) = {}" by (auto simp: used_ids_def initial_state_def)
  then show ?case using table_ok_initial by (simp add: initial_state_def sessions_agree_def)
next
  case (served_step s r)
  then have "next_pid (proc_demux K r s) \<noteq> 0"
    using next_pid_demux [of K r s] unat_add_one [OF served_step(2)] by (auto simp: unat_eq_0)
  then show ?case using served_step demux_table_ok demux_agree by blast
qed

section \<open>Properties\<close>

text \<open>
  C30. In every state the server reaches while clients name only issued process groups, two
  processes in the same process group are in the same session.
\<close>

theorem groups_stay_in_one_session:
  assumes "served K s" and "e \<in> set (pid_table s)" and "e' \<in> set (pid_table s)"
    and "pe_in_use e" and "pe_in_use e'" and "pe_pgrp_id e = pe_pgrp_id e'"
  shows "pe_sid e = pe_sid e'"
proof -
  have ok: "sessions_agree (used_ids s) (next_pid s)" using served_ok [OF assms(1)] by simp
  have "(pe_pid e, pe_pgrp_id e, pe_sid e) \<in> used_ids s" "(pe_pid e', pe_pgrp_id e, pe_sid e') \<in> used_ids s"
    using assms(2-6) by (auto simp: used_ids_def ids_def)
  from sessions_agreeD(4) [OF ok this(2) this(1)] show ?thesis .
qed

lemma served_one_process: "served quiet_kernel one_process"
proof -
  have "served quiet_kernel (proc_demux quiet_kernel (Register 0 7 ''sh'') (initial_state 3))"
    by (rule served_step [OF served_start]) (simp_all add: initial_state_def group_issued_def)
  then show ?thesis by (simp add: one_process_def)
qed

theorem groups_stay_in_one_session_witness:
  "let s = proc_demux quiet_kernel (Register 2 9 ''child'') one_process
   in pe_sid (entry s 1) = pe_sid (entry s 0)"
proof -
  let ?s = "proc_demux quiet_kernel (Register 2 9 ''child'') one_process"
  have srv: "served quiet_kernel ?s"
    by (rule served_step [OF served_one_process]) (simp_all add: one_process_eq group_issued_def)
  have r: "replicate 255 zero_entry = zero_entry # replicate 254 zero_entry"
    by (simp add: numeral_eq_Suc)
  have e: "length (pid_table ?s) > 1" "pe_in_use (entry ?s 0)" "pe_in_use (entry ?s 1)"
    "pe_pgrp_id (entry ?s 1) = pe_pgrp_id (entry ?s 0)"
    unfolding one_process_eq r
    by (simp_all add: proc_S_register_def find_by_pid_locked_def entry_def set_entry_def Let_def
        register_entry_def request_dead_name_def kcall_def kdo_if_def quiet_kernel_def ok_reply_def
        scan_replicate zero_entry_def)
  show ?thesis
    unfolding Let_def
    using groups_stay_in_one_session [OF srv entry_in_set entry_in_set e(3,2,4)] e(1) by linarith
qed


text \<open>
  Claiming a terminal for a session whose leader is a zombie succeeds, and reaping the leader
  then forgets the terminal without releasing it.
\<close>

lemma zombie_leader_loses_ctty:
  assumes "find_by_pid_locked p s = Some i" and "pe_state (entry s i) = PROC_STATE_ZOMBIE"
    and "pe_ctty_port (entry s i) \<noteq> pe_signal_port (entry s i)" and "n \<noteq> 0"
  shows "Port_deallocate (pe_ctty_port (entry s i)) \<notin>
           set (drop (length (calls s)) (calls (snd (proc_S_subscribe_exit p n s))))"
  using assms by (auto simp: subscribe_zombie fire_exit_notify_def)

end
