(* ===== verification/Sha256_Compress.thy ===== *)
theory Sha256_Compress
  imports Uros_Prelude
begin

text \<open>
  The SHA-256 compression function of \<^verbatim>\<open>mach_services/lib/libcap\<close>, twice: the portable C loop
  of \<^verbatim>\<open>sha256.c\<close> and the SHA-NI routine of \<^verbatim>\<open>sha256_shani.c\<close>, written with the vector
  intrinsics it uses.  An XMM register is its four 32-bit lanes, low lane first; the
  byte-granular intrinsics go through the sixteen bytes of the register in memory order.
  The two routines are proved equal on every chaining value and every block.
\<close>

section \<open>The C routine\<close>

text \<open>The chaining value \<^verbatim>\<open>state[0..7]\<close>.\<close>

datatype state8 = State8 u32 u32 u32 u32 u32 u32 u32 u32

definition K256 :: "u32 list" where
  "K256 = [
      0x428a2f98, 0x71374491, 0xb5c0fbcf, 0xe9b5dba5,
      0x3956c25b, 0x59f111f1, 0x923f82a4, 0xab1c5ed5,
      0xd807aa98, 0x12835b01, 0x243185be, 0x550c7dc3,
      0x72be5d74, 0x80deb1fe, 0x9bdc06a7, 0xc19bf174,
      0xe49b69c1, 0xefbe4786, 0x0fc19dc6, 0x240ca1cc,
      0x2de92c6f, 0x4a7484aa, 0x5cb0a9dc, 0x76f988da,
      0x983e5152, 0xa831c66d, 0xb00327c8, 0xbf597fc7,
      0xc6e00bf3, 0xd5a79147, 0x06ca6351, 0x14292967,
      0x27b70a85, 0x2e1b2138, 0x4d2c6dfc, 0x53380d13,
      0x650a7354, 0x766a0abb, 0x81c2c92e, 0x92722c85,
      0xa2bfe8a1, 0xa81a664b, 0xc24b8b70, 0xc76c51a3,
      0xd192e819, 0xd6990624, 0xf40e3585, 0x106aa070,
      0x19a4c116, 0x1e376c08, 0x2748774c, 0x34b0bcb5,
      0x391c0cb3, 0x4ed8aa4a, 0x5b9cca4f, 0x682e6ff3,
      0x748f82ee, 0x78a5636f, 0x84c87814, 0x8cc70208,
      0x90befffa, 0xa4506ceb, 0xbef9a3f7, 0xc67178f2]"

definition rotr :: "u32 \<Rightarrow> nat \<Rightarrow> u32" where
  "rotr x n = drop_bit n x OR push_bit (32 - n) x"

text \<open>The four functions \<^verbatim>\<open>s0\<close>, \<^verbatim>\<open>s1\<close>, \<^verbatim>\<open>S0\<close>, \<^verbatim>\<open>S1\<close> of the two loops, and \<^verbatim>\<open>ch\<close>, \<^verbatim>\<open>mj\<close>.\<close>

definition ssig0 :: "u32 \<Rightarrow> u32" where "ssig0 x = rotr x 7 XOR rotr x 18 XOR drop_bit 3 x"
definition ssig1 :: "u32 \<Rightarrow> u32" where "ssig1 x = rotr x 17 XOR rotr x 19 XOR drop_bit 10 x"
definition bsig0 :: "u32 \<Rightarrow> u32" where "bsig0 x = rotr x 2 XOR rotr x 13 XOR rotr x 22"
definition bsig1 :: "u32 \<Rightarrow> u32" where "bsig1 x = rotr x 6 XOR rotr x 11 XOR rotr x 25"
definition ch :: "u32 \<Rightarrow> u32 \<Rightarrow> u32 \<Rightarrow> u32" where "ch e f g = (e AND f) XOR (NOT e AND g)"
definition mj :: "u32 \<Rightarrow> u32 \<Rightarrow> u32 \<Rightarrow> u32" where "mj a b c = (a AND b) XOR (a AND c) XOR (b AND c)"

text \<open>\<^verbatim>\<open>W[i]\<close> for \<^verbatim>\<open>i < 16\<close>: four bytes of the block, big-endian.\<close>

definition load_be32 :: "byte list \<Rightarrow> nat \<Rightarrow> u32" where
  "load_be32 block i =
     push_bit 24 (ucast (block ! (4 * i))) OR push_bit 16 (ucast (block ! (4 * i + 1)))
       OR push_bit 8 (ucast (block ! (4 * i + 2))) OR ucast (block ! (4 * i + 3))"

definition sched_step :: "nat \<Rightarrow> u32 list \<Rightarrow> u32 list" where
  "sched_step i W = W @ [W ! (i - 16) + ssig0 (W ! (i - 15)) + W ! (i - 7) + ssig1 (W ! (i - 2))]"

definition schedule :: "byte list \<Rightarrow> u32 list" where
  "schedule block = fold sched_step [16..<64] (map (load_be32 block) [0..<16])"

fun sha_round :: "u32 \<Rightarrow> u32 \<Rightarrow> state8 \<Rightarrow> state8" where
  "sha_round k w (State8 a b c d e f g h) =
     (let t1 = h + bsig1 e + ch e f g + k + w;
          t2 = bsig0 a + mj a b c
      in State8 (t1 + t2) a b c (d + t1) e f g)"

fun state_add :: "state8 \<Rightarrow> state8 \<Rightarrow> state8" where
  "state_add (State8 a b c d e f g h) (State8 a' b' c' d' e' f' g' h') =
     State8 (a + a') (b + b') (c + c') (d + d') (e + e') (f + f') (g + g') (h + h')"

definition sha256_compress_c :: "state8 \<Rightarrow> byte list \<Rightarrow> state8" where
  "sha256_compress_c st block =
     (let W = schedule block
      in state_add st (fold (\<lambda>i. sha_round (K256 ! i) (W ! i)) [0..<64] st))"

section \<open>The vector instructions\<close>

datatype xmm = Xmm u32 u32 u32 u32

fun xmm_bytes :: "xmm \<Rightarrow> byte list" where
  "xmm_bytes (Xmm a b c d) = le_bytes a @ le_bytes b @ le_bytes c @ le_bytes d"

definition xmm_of :: "byte list \<Rightarrow> xmm" where
  "xmm_of bs = Xmm (le_word (bs ! 0) (bs ! 1) (bs ! 2) (bs ! 3)) (le_word (bs ! 4) (bs ! 5) (bs ! 6) (bs ! 7))
     (le_word (bs ! 8) (bs ! 9) (bs ! 10) (bs ! 11)) (le_word (bs ! 12) (bs ! 13) (bs ! 14) (bs ! 15))"

fun xmm_lane :: "xmm \<Rightarrow> nat \<Rightarrow> u32" where
  "xmm_lane (Xmm a b c d) i = [a, b, c, d] ! (i mod 4)"

definition mm_loadu :: "byte list \<Rightarrow> nat \<Rightarrow> xmm" where
  "mm_loadu block off = xmm_of (take 16 (drop off block))"

definition mm_set_epi64x :: "u64 \<Rightarrow> u64 \<Rightarrow> xmm" where
  "mm_set_epi64x hi lo = Xmm (ucast lo) (ucast (drop_bit 32 lo)) (ucast hi) (ucast (drop_bit 32 hi))"

fun mm_add_epi32 :: "xmm \<Rightarrow> xmm \<Rightarrow> xmm" where
  "mm_add_epi32 (Xmm a b c d) (Xmm a' b' c' d') = Xmm (a + a') (b + b') (c + c') (d + d')"

definition mm_shuffle_epi32 :: "xmm \<Rightarrow> nat \<Rightarrow> xmm" where
  "mm_shuffle_epi32 x imm =
     Xmm (xmm_lane x imm) (xmm_lane x (imm div 4)) (xmm_lane x (imm div 16)) (xmm_lane x (imm div 64))"

definition mm_shuffle_epi8 :: "xmm \<Rightarrow> xmm \<Rightarrow> xmm" where
  "mm_shuffle_epi8 x m =
     xmm_of (map (\<lambda>k. if bit k 7 then 0 else xmm_bytes x ! (unat k mod 16)) (xmm_bytes m))"

definition mm_alignr_epi8 :: "xmm \<Rightarrow> xmm \<Rightarrow> nat \<Rightarrow> xmm" where
  "mm_alignr_epi8 a b n = xmm_of (take 16 (drop n (xmm_bytes b @ xmm_bytes a @ replicate 32 0)))"

text \<open>Word \<open>i\<close> (of eight) comes from the second operand when bit \<open>i\<close> of the immediate is set.\<close>

definition mm_blend_epi16 :: "xmm \<Rightarrow> xmm \<Rightarrow> nat \<Rightarrow> xmm" where
  "mm_blend_epi16 a b imm =
     xmm_of (map (\<lambda>i. if odd (imm div 2 ^ (i div 2)) then xmm_bytes b ! i else xmm_bytes a ! i) [0..<16])"

text \<open>Two rounds: \<open>a\<close> holds C, D, G, H and \<open>b\<close> holds A, B, E, F, each from the high lane down.\<close>

fun mm_sha256rnds2 :: "xmm \<Rightarrow> xmm \<Rightarrow> xmm \<Rightarrow> xmm" where
  "mm_sha256rnds2 (Xmm h0 g0 d0 c0) (Xmm f0 e0 b0 a0) (Xmm wk0 wk1 _ _) =
     (let a1 = ch e0 f0 g0 + bsig1 e0 + wk0 + h0 + mj a0 b0 c0 + bsig0 a0;
          e1 = ch e0 f0 g0 + bsig1 e0 + wk0 + h0 + d0;
          a2 = ch e1 e0 f0 + bsig1 e1 + wk1 + g0 + mj a1 a0 b0 + bsig0 a1;
          e2 = ch e1 e0 f0 + bsig1 e1 + wk1 + g0 + c0
      in Xmm e1 e2 a1 a2)"

fun mm_sha256msg1 :: "xmm \<Rightarrow> xmm \<Rightarrow> xmm" where
  "mm_sha256msg1 (Xmm w0 w1 w2 w3) (Xmm w4 _ _ _) =
     Xmm (w0 + ssig0 w1) (w1 + ssig0 w2) (w2 + ssig0 w3) (w3 + ssig0 w4)"

fun mm_sha256msg2 :: "xmm \<Rightarrow> xmm \<Rightarrow> xmm" where
  "mm_sha256msg2 (Xmm a b c d) (Xmm _ _ w14 w15) =
     (let w16 = a + ssig1 w14; w17 = b + ssig1 w15; w18 = c + ssig1 w16; w19 = d + ssig1 w17
      in Xmm w16 w17 w18 w19)"


section \<open>The SHA-NI routine\<close>

definition BSWAP_MASK :: xmm where
  "BSWAP_MASK = mm_set_epi64x 0x0c0d0e0f08090a0b 0x0405060700010203"

text \<open>
  The macros: four rounds on \<^verbatim>\<open>Ma\<close>, the completion of the next four schedule words in \<^verbatim>\<open>Mb\<close>
  and, in the first one, the first half of a later four in \<^verbatim>\<open>Md\<close>.  They return
  \<^verbatim>\<open>STATE0\<close>, \<^verbatim>\<open>STATE1\<close>, \<^verbatim>\<open>Mb\<close> (and \<^verbatim>\<open>Md\<close>).
\<close>

definition ROUND_4_NO_MSG1 :: "xmm \<Rightarrow> xmm \<Rightarrow> xmm \<Rightarrow> xmm \<Rightarrow> xmm \<Rightarrow> u64 \<Rightarrow> u64 \<Rightarrow> xmm \<times> xmm \<times> xmm" where
  "ROUND_4_NO_MSG1 STATE0 STATE1 Ma Mb Md K_HI K_LO =
     (let MSG = mm_add_epi32 Ma (mm_set_epi64x K_HI K_LO);
          STATE1 = mm_sha256rnds2 STATE1 STATE0 MSG;
          TMP = mm_alignr_epi8 Ma Md 4;
          Mb = mm_add_epi32 Mb TMP;
          Mb = mm_sha256msg2 Mb Ma;
          MSG = mm_shuffle_epi32 MSG 0x0E;
          STATE0 = mm_sha256rnds2 STATE0 STATE1 MSG
      in (STATE0, STATE1, Mb))"

definition ROUND_4 :: "xmm \<Rightarrow> xmm \<Rightarrow> xmm \<Rightarrow> xmm \<Rightarrow> xmm \<Rightarrow> u64 \<Rightarrow> u64 \<Rightarrow> xmm \<times> xmm \<times> xmm \<times> xmm" where
  "ROUND_4 STATE0 STATE1 Ma Mb Md K_HI K_LO =
     (let MSG = mm_add_epi32 Ma (mm_set_epi64x K_HI K_LO);
          STATE1 = mm_sha256rnds2 STATE1 STATE0 MSG;
          TMP = mm_alignr_epi8 Ma Md 4;
          Mb = mm_add_epi32 Mb TMP;
          Mb = mm_sha256msg2 Mb Ma;
          MSG = mm_shuffle_epi32 MSG 0x0E;
          STATE0 = mm_sha256rnds2 STATE0 STATE1 MSG;
          Md = mm_sha256msg1 Md Ma
      in (STATE0, STATE1, Mb, Md))"

text \<open>Rounds 0 to 15, which also load the block.\<close>

definition shani_head :: "xmm \<Rightarrow> xmm \<Rightarrow> byte list \<Rightarrow> xmm \<times> xmm \<times> xmm \<times> xmm \<times> xmm \<times> xmm" where
  "shani_head STATE0 STATE1 block =
     (let MSG = mm_loadu block 0;
          MSG0 = mm_shuffle_epi8 MSG BSWAP_MASK;
          MSG = mm_add_epi32 MSG0 (mm_set_epi64x 0xE9B5DBA5B5C0FBCF 0x71374491428A2F98);
          STATE1 = mm_sha256rnds2 STATE1 STATE0 MSG;
          MSG = mm_shuffle_epi32 MSG 0x0E;
          STATE0 = mm_sha256rnds2 STATE0 STATE1 MSG;

          MSG = mm_loadu block 16;
          MSG1 = mm_shuffle_epi8 MSG BSWAP_MASK;
          MSG = mm_add_epi32 MSG1 (mm_set_epi64x 0xAB1C5ED5923F82A4 0x59F111F13956C25B);
          STATE1 = mm_sha256rnds2 STATE1 STATE0 MSG;
          MSG = mm_shuffle_epi32 MSG 0x0E;
          STATE0 = mm_sha256rnds2 STATE0 STATE1 MSG;
          MSG0 = mm_sha256msg1 MSG0 MSG1;

          MSG = mm_loadu block 32;
          MSG2 = mm_shuffle_epi8 MSG BSWAP_MASK;
          MSG = mm_add_epi32 MSG2 (mm_set_epi64x 0x550C7DC3243185BE 0x12835B01D807AA98);
          STATE1 = mm_sha256rnds2 STATE1 STATE0 MSG;
          MSG = mm_shuffle_epi32 MSG 0x0E;
          STATE0 = mm_sha256rnds2 STATE0 STATE1 MSG;
          MSG1 = mm_sha256msg1 MSG1 MSG2;

          MSG = mm_loadu block 48;
          MSG3 = mm_shuffle_epi8 MSG BSWAP_MASK;
          MSG = mm_add_epi32 MSG3 (mm_set_epi64x 0xC19BF1749BDC06A7 0x80DEB1FE72BE5D74);
          STATE1 = mm_sha256rnds2 STATE1 STATE0 MSG;
          TMP = mm_alignr_epi8 MSG3 MSG2 4;
          MSG0 = mm_add_epi32 MSG0 TMP;
          MSG0 = mm_sha256msg2 MSG0 MSG3;
          MSG = mm_shuffle_epi32 MSG 0x0E;
          STATE0 = mm_sha256rnds2 STATE0 STATE1 MSG;
          MSG2 = mm_sha256msg1 MSG2 MSG3
      in (STATE0, STATE1, MSG0, MSG1, MSG2, MSG3))"

text \<open>Rounds 16 to 63.\<close>

definition shani_tail :: "xmm \<times> xmm \<times> xmm \<times> xmm \<times> xmm \<times> xmm \<Rightarrow> xmm \<times> xmm" where
  "shani_tail regs =
     (let (STATE0, STATE1, MSG0, MSG1, MSG2, MSG3) = regs;
          (STATE0, STATE1, MSG1, MSG3) = ROUND_4 STATE0 STATE1 MSG0 MSG1 MSG3 0x240CA1CC0FC19DC6 0xEFBE4786E49B69C1;
          (STATE0, STATE1, MSG2, MSG0) = ROUND_4 STATE0 STATE1 MSG1 MSG2 MSG0 0x76F988DA5CB0A9DC 0x4A7484AA2DE92C6F;
          (STATE0, STATE1, MSG3, MSG1) = ROUND_4 STATE0 STATE1 MSG2 MSG3 MSG1 0xBF597FC7B00327C8 0xA831C66D983E5152;
          (STATE0, STATE1, MSG0, MSG2) = ROUND_4 STATE0 STATE1 MSG3 MSG0 MSG2 0x1429296706CA6351 0xD5A79147C6E00BF3;
          (STATE0, STATE1, MSG1, MSG3) = ROUND_4 STATE0 STATE1 MSG0 MSG1 MSG3 0x53380D134D2C6DFC 0x2E1B213827B70A85;
          (STATE0, STATE1, MSG2, MSG0) = ROUND_4 STATE0 STATE1 MSG1 MSG2 MSG0 0x92722C8581C2C92E 0x766A0ABB650A7354;
          (STATE0, STATE1, MSG3, MSG1) = ROUND_4 STATE0 STATE1 MSG2 MSG3 MSG1 0xC76C51A3C24B8B70 0xA81A664BA2BFE8A1;
          (STATE0, STATE1, MSG0, MSG2) = ROUND_4 STATE0 STATE1 MSG3 MSG0 MSG2 0x106AA070F40E3585 0xD6990624D192E819;
          (STATE0, STATE1, MSG1, MSG3) = ROUND_4 STATE0 STATE1 MSG0 MSG1 MSG3 0x34B0BCB52748774C 0x1E376C0819A4C116;
          (STATE0, STATE1, MSG2) = ROUND_4_NO_MSG1 STATE0 STATE1 MSG1 MSG2 MSG0 0x682E6FF35B9CCA4F 0x4ED8AA4A391C0CB3;
          (STATE0, STATE1, MSG3) = ROUND_4_NO_MSG1 STATE0 STATE1 MSG2 MSG3 MSG1 0x8CC7020884C87814 0x78A5636F748F82EE;
          MSG = mm_add_epi32 MSG3 (mm_set_epi64x 0xC67178F2BEF9A3F7 0xA4506CEB90BEFFFA);
          STATE1 = mm_sha256rnds2 STATE1 STATE0 MSG;
          MSG = mm_shuffle_epi32 MSG 0x0E;
          STATE0 = mm_sha256rnds2 STATE0 STATE1 MSG
      in (STATE0, STATE1))"

text \<open>The packing of the chaining value before the rounds and its unpacking after them.\<close>

fun shani_pack :: "state8 \<Rightarrow> xmm \<times> xmm" where
  "shani_pack (State8 a b c d e f g h) =
     (let TMP = Xmm a b c d;
          STATE1 = Xmm e f g h;
          TMP = mm_shuffle_epi32 TMP 0xB1;
          STATE1 = mm_shuffle_epi32 STATE1 0x1B;
          STATE0 = mm_alignr_epi8 TMP STATE1 8;
          STATE1 = mm_blend_epi16 STATE1 TMP 0xF0
      in (STATE0, STATE1))"

fun xmm_state :: "xmm \<Rightarrow> xmm \<Rightarrow> state8" where
  "xmm_state (Xmm a b c d) (Xmm e f g h) = State8 a b c d e f g h"

definition shani_unpack :: "xmm \<Rightarrow> xmm \<Rightarrow> state8" where
  "shani_unpack STATE0 STATE1 =
     (let TMP = mm_shuffle_epi32 STATE0 0x1B;
          STATE1 = mm_shuffle_epi32 STATE1 0xB1;
          STATE0 = mm_blend_epi16 TMP STATE1 0xF0;
          STATE1 = mm_alignr_epi8 STATE1 TMP 8
      in xmm_state STATE0 STATE1)"

definition sha256_compress_shani :: "state8 \<Rightarrow> byte list \<Rightarrow> state8" where
  "sha256_compress_shani st block =
     (let (ABEF_SAVE, CDGH_SAVE) = shani_pack st;
          (STATE0, STATE1) = shani_tail (shani_head ABEF_SAVE CDGH_SAVE block)
      in shani_unpack (mm_add_epi32 STATE0 ABEF_SAVE) (mm_add_epi32 STATE1 CDGH_SAVE))"

section \<open>Vocabulary of the equivalence proof\<close>

text \<open>Four consecutive schedule words, and four consecutive round constants, as a register.\<close>

definition quad :: "u32 list \<Rightarrow> nat \<Rightarrow> xmm" where
  "quad W i = Xmm (W ! i) (W ! (i + 1)) (W ! (i + 2)) (W ! (i + 3))"

fun abef :: "state8 \<Rightarrow> xmm" where "abef (State8 a b c d e f g h) = Xmm f e b a"
fun cdgh :: "state8 \<Rightarrow> xmm" where "cdgh (State8 a b c d e f g h) = Xmm h g d c"

definition four_rounds :: "u32 list \<Rightarrow> nat \<Rightarrow> state8 \<Rightarrow> state8" where
  "four_rounds W t = fold (\<lambda>i. sha_round (K256 ! i) (W ! i)) [t, t + 1, t + 2, t + 3]"

section \<open>Lemmas: lanes and bytes\<close>

lemma load_be32_le_word:
  "load_be32 block i = le_word (block ! (4 * i + 3)) (block ! (4 * i + 2)) (block ! (4 * i + 1)) (block ! (4 * i))"
  unfolding load_be32_def le_word_def by (simp add: or.commute or.left_commute)

lemma nth_le_bytes_append [simp]:
  "(le_bytes w @ xs) ! 0 = ucast w" "(le_bytes w @ xs) ! 1 = ucast (drop_bit 8 w)"
  "(le_bytes w @ xs) ! Suc 0 = ucast (drop_bit 8 w)"
  "(le_bytes w @ xs) ! 2 = ucast (drop_bit 16 w)" "(le_bytes w @ xs) ! 3 = ucast (drop_bit 24 w)"
  by (simp_all add: le_bytes_def)

lemma xmm_of_bytes [simp]: "xmm_of (le_bytes a @ le_bytes b @ le_bytes c @ le_bytes d) = Xmm a b c d"
  by (simp add: xmm_of_def le_bytes_def)

lemma alignr_4 [simp]: "mm_alignr_epi8 (Xmm a b c d) (Xmm e f g h) 4 = Xmm f g h a"
  by (simp add: mm_alignr_epi8_def xmm_of_def le_bytes_def)

lemma alignr_8 [simp]: "mm_alignr_epi8 (Xmm a b c d) (Xmm e f g h) 8 = Xmm g h a b"
  by (simp add: mm_alignr_epi8_def xmm_of_def le_bytes_def)

lemma blend_F0 [simp]: "mm_blend_epi16 (Xmm a b c d) (Xmm e f g h) 0xF0 = Xmm a b g h"
  by (simp add: mm_blend_epi16_def xmm_of_def le_bytes_def)

lemma shuffle32 [simp]:
  "mm_shuffle_epi32 (Xmm a b c d) 0x0E = Xmm c d a a"
  "mm_shuffle_epi32 (Xmm a b c d) 0x1B = Xmm d c b a"
  "mm_shuffle_epi32 (Xmm a b c d) 0xB1 = Xmm b a d c"
  by (simp_all add: mm_shuffle_epi32_def)

section \<open>Lemmas: schedule and rounds\<close>

lemma fold_sched_length: "length (fold sched_step is W) = length W + length is"
  by (induction "is" arbitrary: W) (simp_all add: sched_step_def)

lemma schedule_length [simp]: "length (schedule block) = 64"
  by (simp add: schedule_def fold_sched_length del: upt_rec_numeral)

lemma fold_sched_nth:
  "j < length W \<Longrightarrow> fold sched_step is W ! j = W ! j"
  by (induction "is" arbitrary: W) (simp_all add: sched_step_def nth_append)

lemma schedule_low: "j < 16 \<Longrightarrow> schedule block ! j = load_be32 block j"
  by (simp add: schedule_def fold_sched_nth del: upt_rec_numeral)

lemma schedule_step:
  assumes "16 \<le> j" "j < 64"
  shows "schedule b ! j = schedule b ! (j - 16) + ssig0 (schedule b ! (j - 15)) + schedule b ! (j - 7)
           + ssig1 (schedule b ! (j - 2))"
proof -
  let ?W = "fold sched_step [16..<j] (map (load_be32 b) [0..<16])"
  have len: "length ?W = j" using assms by (simp add: fold_sched_length del: upt_rec_numeral)
  have "[16..<64] = [16..<j] @ j # [Suc j..<64]"
    using assms upt_add_eq_append [of 16 j "64 - j"] upt_conv_Cons [of j 64] by (simp del: upt_rec_numeral)
  then have s: "schedule b = fold sched_step [Suc j..<64] (sched_step j ?W)"
    by (simp add: schedule_def del: upt_rec_numeral)
  have k: "schedule b ! i = ?W ! i" if "i < j" for i
    unfolding s using that len by (simp add: fold_sched_nth sched_step_def nth_append del: upt_rec_numeral)
  have "schedule b ! j = ?W ! (j - 16) + ssig0 (?W ! (j - 15)) + ?W ! (j - 7) + ssig1 (?W ! (j - 2))"
    unfolding s using len by (simp add: fold_sched_nth sched_step_def nth_append del: upt_rec_numeral)
  then show ?thesis using k assms by simp
qed

lemma pack: "shani_pack st = (abef st, cdgh st)"
  by (cases st) simp

lemma unpack: "shani_unpack (mm_add_epi32 (abef s) (abef t)) (mm_add_epi32 (cdgh s) (cdgh t)) = state_add t s"
  by (cases s; cases t) (simp add: shani_unpack_def add.commute)

text \<open>Two \<^verbatim>\<open>sha256rnds2\<close> are four rounds.\<close>

lemma rnds2:
  "mm_sha256rnds2 (cdgh s) (abef s) (Xmm (w0 + k0) (w1 + k1) x y) = abef (sha_round k1 w1 (sha_round k0 w0 s))"
  by (cases s) (simp add: Let_def ac_simps)

lemma abef_cdgh: "cdgh (sha_round k1 w1 (sha_round k0 w0 s)) = abef s"
  by (cases s) (simp add: Let_def)

lemma rounds_quad:
  fixes W :: "u32 list"
  assumes "k = quad K256 t"
  defines "m \<equiv> mm_add_epi32 (quad W t) k"
  shows "mm_sha256rnds2 (cdgh s) (abef s) m = cdgh (four_rounds W t s)"
    and "mm_sha256rnds2 (abef s) (cdgh (four_rounds W t s)) (mm_shuffle_epi32 m 0x0E) = abef (four_rounds W t s)"
proof -
  let ?s = "sha_round (K256 ! (t + 1)) (W ! (t + 1)) (sha_round (K256 ! t) (W ! t) s)"
  have c: "cdgh (four_rounds W t s) = abef ?s"
    by (simp add: four_rounds_def abef_cdgh)
  show "mm_sha256rnds2 (cdgh s) (abef s) m = cdgh (four_rounds W t s)"
    unfolding m_def assms c by (simp add: quad_def rnds2)
  have "abef s = cdgh ?s" by (simp add: abef_cdgh)
  then show "mm_sha256rnds2 (abef s) (cdgh (four_rounds W t s)) (mm_shuffle_epi32 m 0x0E) = abef (four_rounds W t s)"
    unfolding m_def assms c by (simp add: quad_def rnds2 four_rounds_def)
qed

text \<open>\<^verbatim>\<open>sha256msg1\<close>, the shifted addition and \<^verbatim>\<open>sha256msg2\<close> are four schedule steps.\<close>

lemma sched_words:
  assumes "x16 = x0 + ssig0 x1 + x9 + ssig1 x14" and "x17 = x1 + ssig0 x2 + x10 + ssig1 x15"
    and "x18 = x2 + ssig0 x3 + x11 + ssig1 x16" and "x19 = x3 + ssig0 x4 + x12 + ssig1 x17"
  shows "mm_sha256msg2 (mm_add_epi32 (mm_sha256msg1 (Xmm x0 x1 x2 x3) (Xmm x4 x5 x6 x7))
           (mm_alignr_epi8 (Xmm x12 x13 x14 x15) (Xmm x8 x9 x10 x11) 4)) (Xmm x12 x13 x14 x15) = Xmm x16 x17 x18 x19"
  unfolding assms by (simp add: Let_def ac_simps)

lemma sched_quad:
  fixes b :: "byte list"
  assumes "12 \<le> t" "t < 57"
  defines "W \<equiv> schedule b"
  shows "mm_sha256msg2 (mm_add_epi32 (mm_sha256msg1 (quad W (t - 12)) (quad W (t - 8)))
            (mm_alignr_epi8 (quad W t) (quad W (t - 4)) 4)) (quad W t) = quad W (t + 4)"
proof -
  obtain u where t: "t = u + 12" using assms(1) le_Suc_ex add.commute by metis
  have w: "W ! (u + 16) = W ! u + ssig0 (W ! (u + 1)) + W ! (u + 9) + ssig1 (W ! (u + 14))"
    "W ! (u + 17) = W ! (u + 1) + ssig0 (W ! (u + 2)) + W ! (u + 10) + ssig1 (W ! (u + 15))"
    "W ! (u + 18) = W ! (u + 2) + ssig0 (W ! (u + 3)) + W ! (u + 11) + ssig1 (W ! (u + 16))"
    "W ! (u + 19) = W ! (u + 3) + ssig0 (W ! (u + 4)) + W ! (u + 12) + ssig1 (W ! (u + 17))"
    using schedule_step [of "u + 16" b] schedule_step [of "u + 17" b] schedule_step [of "u + 18" b]
      schedule_step [of "u + 19" b] assms(2)
    by (simp_all add: W_def t add.commute)
  have q: "quad W (t - 12) = Xmm (W ! u) (W ! (u + 1)) (W ! (u + 2)) (W ! (u + 3))"
    "quad W (t - 8) = Xmm (W ! (u + 4)) (W ! (u + 5)) (W ! (u + 6)) (W ! (u + 7))"
    "quad W (t - 4) = Xmm (W ! (u + 8)) (W ! (u + 9)) (W ! (u + 10)) (W ! (u + 11))"
    "quad W t = Xmm (W ! (u + 12)) (W ! (u + 13)) (W ! (u + 14)) (W ! (u + 15))"
    "quad W (t + 4) = Xmm (W ! (u + 16)) (W ! (u + 17)) (W ! (u + 18)) (W ! (u + 19))"
    by (simp_all add: t quad_def add.commute)
  show ?thesis
    unfolding q by (rule sched_words) (rule w)+
qed

section \<open>The two routines agree\<close>

lemma k_consts:
  "mm_set_epi64x 0xE9B5DBA5B5C0FBCF 0x71374491428A2F98 = quad K256 0"
  "mm_set_epi64x 0xAB1C5ED5923F82A4 0x59F111F13956C25B = quad K256 4"
  "mm_set_epi64x 0x550C7DC3243185BE 0x12835B01D807AA98 = quad K256 8"
  "mm_set_epi64x 0xC19BF1749BDC06A7 0x80DEB1FE72BE5D74 = quad K256 12"
  "mm_set_epi64x 0x240CA1CC0FC19DC6 0xEFBE4786E49B69C1 = quad K256 16"
  "mm_set_epi64x 0x76F988DA5CB0A9DC 0x4A7484AA2DE92C6F = quad K256 20"
  "mm_set_epi64x 0xBF597FC7B00327C8 0xA831C66D983E5152 = quad K256 24"
  "mm_set_epi64x 0x1429296706CA6351 0xD5A79147C6E00BF3 = quad K256 28"
  "mm_set_epi64x 0x53380D134D2C6DFC 0x2E1B213827B70A85 = quad K256 32"
  "mm_set_epi64x 0x92722C8581C2C92E 0x766A0ABB650A7354 = quad K256 36"
  "mm_set_epi64x 0xC76C51A3C24B8B70 0xA81A664BA2BFE8A1 = quad K256 40"
  "mm_set_epi64x 0x106AA070F40E3585 0xD6990624D192E819 = quad K256 44"
  "mm_set_epi64x 0x34B0BCB52748774C 0x1E376C0819A4C116 = quad K256 48"
  "mm_set_epi64x 0x682E6FF35B9CCA4F 0x4ED8AA4A391C0CB3 = quad K256 52"
  "mm_set_epi64x 0x8CC7020884C87814 0x78A5636F748F82EE = quad K256 56"
  "mm_set_epi64x 0xC67178F2BEF9A3F7 0xA4506CEB90BEFFFA = quad K256 60"
  by (simp_all add: mm_set_epi64x_def quad_def K256_def)

lemma bswap_load:
  assumes "16 * j + 16 \<le> length block"
  shows "mm_shuffle_epi8 (mm_loadu block (16 * j)) BSWAP_MASK =
    Xmm (load_be32 block (4 * j)) (load_be32 block (4 * j + 1)) (load_be32 block (4 * j + 2)) (load_be32 block (4 * j + 3))"
proof -
  have m: "xmm_bytes BSWAP_MASK = [3, 2, 1, 0, 7, 6, 5, 4, 11, 10, 9, 8, 15, 14, 13, 12]"
    by (simp add: BSWAP_MASK_def mm_set_epi64x_def le_bytes_def)
  show ?thesis
    unfolding mm_shuffle_epi8_def m load_be32_le_word mm_loadu_def xmm_of_def [of "take 16 (drop (16 * j) block)"]
    using assms by (simp add: xmm_of_def le_bytes_le_word) (simp add: add.commute)
qed

lemma quad_block:
  "length block = 64 \<Longrightarrow> j < 4 \<Longrightarrow>
     mm_shuffle_epi8 (mm_loadu block (16 * j)) BSWAP_MASK = quad (schedule block) (4 * j)"
  by (simp add: bswap_load quad_def schedule_low)

lemma ROUND_4_NO_MSG1:
  fixes b :: "byte list"
  assumes "12 \<le> t" "t < 57" and "mm_set_epi64x hi lo = quad K256 t"
  defines "W \<equiv> schedule b"
  shows "ROUND_4_NO_MSG1 (abef s) (cdgh s) (quad W t) (mm_sha256msg1 (quad W (t - 12)) (quad W (t - 8)))
      (quad W (t - 4)) hi lo =
    (abef (four_rounds W t s), cdgh (four_rounds W t s), quad W (t + 4))"
  using sched_quad [OF assms(1,2), of b] rounds_quad [OF assms(3), where W = W]
  by (simp add: ROUND_4_NO_MSG1_def W_def)

lemma ROUND_4:
  fixes b :: "byte list"
  assumes "12 \<le> t" "t < 57" and "mm_set_epi64x hi lo = quad K256 t"
  defines "W \<equiv> schedule b"
  shows "ROUND_4 (abef s) (cdgh s) (quad W t) (mm_sha256msg1 (quad W (t - 12)) (quad W (t - 8)))
      (quad W (t - 4)) hi lo =
    (abef (four_rounds W t s), cdgh (four_rounds W t s), quad W (t + 4), mm_sha256msg1 (quad W (t - 4)) (quad W t))"
  using sched_quad [OF assms(1,2), of b] rounds_quad [OF assms(3), where W = W]
  by (simp add: ROUND_4_def W_def)

text \<open>The macros at the eleven places where the routine uses them.\<close>

lemmas round_4_uses =
  ROUND_4 [of 16 "0x240CA1CC0FC19DC6" "0xEFBE4786E49B69C1", simplified k_consts, simplified]
  ROUND_4 [of 20 "0x76F988DA5CB0A9DC" "0x4A7484AA2DE92C6F", simplified k_consts, simplified]
  ROUND_4 [of 24 "0xBF597FC7B00327C8" "0xA831C66D983E5152", simplified k_consts, simplified]
  ROUND_4 [of 28 "0x1429296706CA6351" "0xD5A79147C6E00BF3", simplified k_consts, simplified]
  ROUND_4 [of 32 "0x53380D134D2C6DFC" "0x2E1B213827B70A85", simplified k_consts, simplified]
  ROUND_4 [of 36 "0x92722C8581C2C92E" "0x766A0ABB650A7354", simplified k_consts, simplified]
  ROUND_4 [of 40 "0xC76C51A3C24B8B70" "0xA81A664BA2BFE8A1", simplified k_consts, simplified]
  ROUND_4 [of 44 "0x106AA070F40E3585" "0xD6990624D192E819", simplified k_consts, simplified]
  ROUND_4 [of 48 "0x34B0BCB52748774C" "0x1E376C0819A4C116", simplified k_consts, simplified]
  ROUND_4_NO_MSG1 [of 52 "0x682E6FF35B9CCA4F" "0x4ED8AA4A391C0CB3", simplified k_consts, simplified]
  ROUND_4_NO_MSG1 [of 56 "0x8CC7020884C87814" "0x78A5636F748F82EE", simplified k_consts, simplified]

lemmas quad_block_uses = quad_block [of _ 0, simplified] quad_block [of _ 1, simplified]
  quad_block [of _ 2, simplified] quad_block [of _ 3, simplified]

lemma shani_head:
  assumes "length block = 64"
  defines "W \<equiv> schedule block"
  shows "shani_head (abef s) (cdgh s) block =
    (let s' = four_rounds W 12 (four_rounds W 8 (four_rounds W 4 (four_rounds W 0 s)))
     in (abef s', cdgh s', quad W 16, mm_sha256msg1 (quad W 4) (quad W 8), mm_sha256msg1 (quad W 8) (quad W 12),
         quad W 12))"
  unfolding shani_head_def Let_def quad_block_uses [OF assms(1), folded W_def] k_consts
  using sched_quad [of 12 block, folded W_def] by (simp add: rounds_quad)

lemma shani_tail:
  fixes b :: "byte list"
  defines "W \<equiv> schedule b"
  shows "shani_tail (abef s, cdgh s, quad W 16, mm_sha256msg1 (quad W 4) (quad W 8),
      mm_sha256msg1 (quad W 8) (quad W 12), quad W 12) =
    (let s' = fold (four_rounds W) [16, 20, 24, 28, 32, 36, 40, 44, 48, 52, 56, 60] s in (abef s', cdgh s'))"
  unfolding shani_tail_def W_def Let_def by (simp add: round_4_uses k_consts rounds_quad)

lemma all_rounds:
  "fold (\<lambda>i. sha_round (K256 ! i) (W ! i)) [0..<64] s =
     fold (four_rounds W) [0, 4, 8, 12, 16, 20, 24, 28, 32, 36, 40, 44, 48, 52, 56, 60] s"
proof -
  have "[0..<64] = 0 # 1 # [2..<64]" by (simp add: upt_conv_Cons)
  then show ?thesis by (simp add: four_rounds_def flip: numeral_2_eq_2)
qed

lemma shani_eq_c: "length block = 64 \<Longrightarrow> sha256_compress_shani st block = sha256_compress_c st block"
  unfolding sha256_compress_shani_def sha256_compress_c_def pack all_rounds
  by (simp add: shani_head shani_tail Let_def unpack)

text \<open>
  C15. On every chaining value and every 64-byte block, the SHA-NI routine computes what the
  portable routine computes: the digests do not depend on which one was selected.
\<close>

theorem sha256_compress_shani_eq_c:
  assumes "length block = 64"
  shows "sha256_compress_shani st block = sha256_compress_c st block"
  using assms by (rule shani_eq_c)

theorem sha256_compress_shani_eq_c_witness:
  "sha256_compress_shani (State8 1 2 3 4 5 6 7 8) (replicate 64 0xAB) =
   sha256_compress_c (State8 1 2 3 4 5 6 7 8) (replicate 64 0xAB)"
  by (rule sha256_compress_shani_eq_c) simp

end
