(* ===== verification/Sha256.thy ===== *)
theory Sha256
  imports Sha256_Compress
begin

text \<open>
  The streaming interface of \<^verbatim>\<open>libcap/sha256.c\<close> (the kernel has a copy of the same code) and
  \<^verbatim>\<open>libcap/hmac_sha256.c\<close>.  The choice between the two compression routines is part of the
  state, as in the source; \<^verbatim>\<open>cpuid\<close> is a parameter.  The interface is proved to compute the
  padded Merkle-Damgard fold as long as no update leaves a partly filled block partly filled,
  which covers the one-shot function and HMAC; outside that condition an update forgets the
  bytes buffered so far.
\<close>

section \<open>Selecting the compression routine\<close>

definition SHA256_IV :: state8 where
  "SHA256_IV = State8 0x6a09e667 0xbb67ae85 0x3c6ef372 0xa54ff53a 0x510e527f 0x9b05688c 0x1f83d9ab 0x5be0cd19"

record sha_dispatch =
  sha256_dispatch_done :: bool
  sha256_sha_ni_active :: bool

text \<open>The pointer \<^verbatim>\<open>sha256_compress\<close> is set together with \<^verbatim>\<open>sha256_sha_ni_active\<close>.\<close>

definition sha256_compress :: "sha_dispatch \<Rightarrow> state8 \<Rightarrow> byte list \<Rightarrow> state8" where
  "sha256_compress d = (if sha256_sha_ni_active d then sha256_compress_shani else sha256_compress_c)"

definition selftest_block :: "byte list" where
  "selftest_block = [0x61, 0x62, 0x63, 0x80] @ replicate 59 0 @ [24]"

definition sha256_shani_selftest :: bool where
  "sha256_shani_selftest \<longleftrightarrow>
     sha256_compress_shani SHA256_IV selftest_block =
       State8 0xba7816bf 0x8f01cfea 0x414140de 0x5dae2223 0xb00361a3 0x96177a9c 0xb410ff61 0xf20015ad"

text \<open>\<open>cpuid leaf\<close> is the pair of \<^verbatim>\<open>eax\<close> and \<^verbatim>\<open>ebx\<close> the processor answers with.\<close>

definition sha256_dispatch_init :: "(u32 \<Rightarrow> u32 \<times> u32) \<Rightarrow> sha_dispatch \<Rightarrow> sha_dispatch" where
  "sha256_dispatch_init cpuid d =
     (if sha256_dispatch_done d then d
      else
        (let d = d\<lparr>sha256_dispatch_done := True\<rparr>
         in if fst (cpuid 0) < 7 then d
            else if bit (snd (cpuid 7)) 29 \<and> sha256_shani_selftest then d\<lparr>sha256_sha_ni_active := True\<rparr>
            else d))"

section \<open>The context\<close>

record sha256_ctx =
  cx_state :: state8
  bitcount :: u64
  cx_buf :: "byte list"
  buflen :: nat

definition SHA256_BLOCK_SIZE :: nat where "SHA256_BLOCK_SIZE = 64"

text \<open>A copy loop: \<open>xs\<close> stored from position \<open>k\<close> on.\<close>

definition write_at :: "byte list \<Rightarrow> nat \<Rightarrow> byte list \<Rightarrow> byte list" where
  "write_at buf k xs = take k buf @ xs @ drop (k + length xs) buf"

text \<open>The context is uninitialised memory: \<^verbatim>\<open>buf\<close> keeps whatever it held.\<close>

definition sha256_init :: "(u32 \<Rightarrow> u32 \<times> u32) \<Rightarrow> sha_dispatch \<Rightarrow> sha256_ctx \<Rightarrow> sha256_ctx \<times> sha_dispatch" where
  "sha256_init cpuid d ctx =
     (ctx\<lparr>cx_state := SHA256_IV, bitcount := 0, buflen := 0\<rparr>,
      if sha256_dispatch_done d then d else sha256_dispatch_init cpuid d)"

text \<open>The loop over whole blocks; it returns the state and what is left of the data.\<close>

function absorb_blocks :: "sha_dispatch \<Rightarrow> state8 \<Rightarrow> byte list \<Rightarrow> state8 \<times> byte list" where
  "absorb_blocks d st p =
     (if length p \<ge> SHA256_BLOCK_SIZE
      then absorb_blocks d (sha256_compress d st (take SHA256_BLOCK_SIZE p)) (drop SHA256_BLOCK_SIZE p)
      else (st, p))"
  by pat_completeness auto
termination by (relation "measure (\<lambda>(d, st, p). length p)") (auto simp: SHA256_BLOCK_SIZE_def)

definition sha256_update :: "sha_dispatch \<Rightarrow> sha256_ctx \<Rightarrow> byte list \<Rightarrow> sha256_ctx" where
  "sha256_update d ctx p =
     (let ctx = ctx\<lparr>bitcount := bitcount ctx + of_nat (length p) * 8\<rparr>;
          (ctx, p) =
            (if buflen ctx \<noteq> 0
             then let n = min (SHA256_BLOCK_SIZE - buflen ctx) (length p);
                      ctx = ctx\<lparr>cx_buf := write_at (cx_buf ctx) (buflen ctx) (take n p), buflen := buflen ctx + n\<rparr>;
                      p = drop n p
                  in if buflen ctx = SHA256_BLOCK_SIZE
                     then (ctx\<lparr>cx_state := sha256_compress d (cx_state ctx) (cx_buf ctx), buflen := 0\<rparr>, p)
                     else (ctx, p)
             else (ctx, p));
          (st, p) = absorb_blocks d (cx_state ctx) p
      in ctx\<lparr>cx_state := st, cx_buf := write_at (cx_buf ctx) 0 p, buflen := length p\<rparr>)"

definition be64 :: "u64 \<Rightarrow> byte list" where
  "be64 w = [ucast (drop_bit 56 w), ucast (drop_bit 48 w), ucast (drop_bit 40 w), ucast (drop_bit 32 w),
             ucast (drop_bit 24 w), ucast (drop_bit 16 w), ucast (drop_bit 8 w), ucast w]"

definition be32 :: "u32 \<Rightarrow> byte list" where
  "be32 w = [ucast (drop_bit 24 w), ucast (drop_bit 16 w), ucast (drop_bit 8 w), ucast w]"

fun digest :: "state8 \<Rightarrow> byte list" where
  "digest (State8 a b c d e f g h) = be32 a @ be32 b @ be32 c @ be32 d @ be32 e @ be32 f @ be32 g @ be32 h"

definition sha256_final :: "sha_dispatch \<Rightarrow> sha256_ctx \<Rightarrow> byte list \<times> sha256_ctx" where
  "sha256_final d ctx =
     (let bits = bitcount ctx;
          buf = write_at (cx_buf ctx) (buflen ctx) [0x80];
          n = buflen ctx + 1;
          (st, buf, n) =
            (if n > 56
             then (sha256_compress d (cx_state ctx) (write_at buf n (replicate (SHA256_BLOCK_SIZE - n) 0)),
                   write_at buf n (replicate (SHA256_BLOCK_SIZE - n) 0), 0)
             else (cx_state ctx, buf, n));
          buf = write_at buf n (replicate (56 - n) 0);
          buf = write_at buf 56 (be64 bits);
          st = sha256_compress d st buf
      in (digest st, ctx\<lparr>cx_state := st, cx_buf := buf, buflen := 56\<rparr>))"

definition sha256 :: "(u32 \<Rightarrow> u32 \<times> u32) \<Rightarrow> sha_dispatch \<Rightarrow> sha256_ctx \<Rightarrow> byte list \<Rightarrow> byte list \<times> sha_dispatch" where
  "sha256 cpuid d ctx m =
     (let (ctx, d) = sha256_init cpuid d ctx
      in (fst (sha256_final d (sha256_update d ctx m)), d))"

section \<open>HMAC\<close>

text \<open>\<open>junk\<close> is the uninitialised context on the stack, reused for both passes as in the source.\<close>

definition hmac_sha256 ::
  "(u32 \<Rightarrow> u32 \<times> u32) \<Rightarrow> sha_dispatch \<Rightarrow> sha256_ctx \<Rightarrow> byte list \<Rightarrow> byte list \<Rightarrow> byte list \<times> sha_dispatch" where
  "hmac_sha256 cpuid d junk key msg =
     (let k_block = replicate SHA256_BLOCK_SIZE 0;
          (k_block, d) =
            (if length key > SHA256_BLOCK_SIZE
             then let (h, d) = sha256 cpuid d junk key in (write_at k_block 0 h, d)
             else (write_at k_block 0 key, d));
          ipad = map (\<lambda>b. b XOR 0x36) k_block;
          opad = map (\<lambda>b. b XOR 0x5c) k_block;
          (ctx, d) = sha256_init cpuid d junk;
          ctx = sha256_update d ctx ipad;
          ctx = sha256_update d ctx msg;
          (inner, ctx) = sha256_final d ctx;
          (ctx, d) = sha256_init cpuid d ctx;
          ctx = sha256_update d ctx opad;
          ctx = sha256_update d ctx inner
      in (fst (sha256_final d ctx), d))"

definition hmac_sha256_equal :: "byte list \<Rightarrow> byte list \<Rightarrow> bool" where
  "hmac_sha256_equal a b \<longleftrightarrow> fold (\<lambda>i diff. diff OR (a ! i XOR b ! i)) [0..<32] 0 = (0 :: byte)"

section \<open>Specification\<close>

text \<open>FIPS 180-4: the padded message, cut into blocks, folded with the compression function.\<close>

function blocks64 :: "byte list \<Rightarrow> byte list list" where
  "blocks64 m = (if length m \<ge> 64 then take 64 m # blocks64 (drop 64 m) else [])"
  by pat_completeness auto
termination by (relation "measure length") auto

definition sha_pad :: "byte list \<Rightarrow> byte list" where
  "sha_pad m = m @ [0x80] @ replicate (if length m mod 64 < 56 then 55 - length m mod 64 else 119 - length m mod 64) 0
     @ be64 (of_nat (8 * length m))"

definition sha256_spec :: "byte list \<Rightarrow> byte list" where
  "sha256_spec m = digest (fold (\<lambda>b st. sha256_compress_c st b) (blocks64 (sha_pad m)) SHA256_IV)"

text \<open>RFC 2104.\<close>

definition hmac_key_block :: "byte list \<Rightarrow> byte list" where
  "hmac_key_block key =
     (let k = (if length key > 64 then sha256_spec key else key) in k @ replicate (64 - length k) 0)"

definition hmac_spec :: "byte list \<Rightarrow> byte list \<Rightarrow> byte list" where
  "hmac_spec key msg =
     sha256_spec (map (\<lambda>b. b XOR 0x5c) (hmac_key_block key)
       @ sha256_spec (map (\<lambda>b. b XOR 0x36) (hmac_key_block key) @ msg))"

text \<open>What it means for a context to have absorbed the bytes \<open>m\<close>.\<close>

definition absorbed :: "byte list \<Rightarrow> sha256_ctx \<Rightarrow> bool" where
  "absorbed m ctx \<longleftrightarrow>
     length (cx_buf ctx) = 64 \<and> buflen ctx = length m mod 64 \<and>
     cx_state ctx = fold (\<lambda>b st. sha256_compress_c st b) (blocks64 m) SHA256_IV \<and>
     take (buflen ctx) (cx_buf ctx) = drop (64 * (length m div 64)) m \<and>
     bitcount ctx = of_nat (8 * length m)"

text \<open>A stack frame and a dispatch state for the examples.\<close>

definition stack_junk :: sha256_ctx where
  "stack_junk = \<lparr>cx_state = SHA256_IV, bitcount = 5, cx_buf = replicate 64 0xFF, buflen = 9\<rparr>"

definition fresh_dispatch :: sha_dispatch where
  "fresh_dispatch = \<lparr>sha256_dispatch_done = False, sha256_sha_ni_active = False\<rparr>"

definition cpuid_plain :: "u32 \<Rightarrow> u32 \<times> u32" where
  "cpuid_plain leaf = (7, 0)"

declare absorb_blocks.simps [simp del] blocks64.simps [simp del]

section \<open>Lemmas\<close>

lemma compress_eq: "length b = 64 \<Longrightarrow> sha256_compress d st b = sha256_compress_c st b"
  by (simp add: sha256_compress_def shani_eq_c)

lemma length_write_at [simp]: "k + length xs \<le> length buf \<Longrightarrow> length (write_at buf k xs) = length buf"
  by (simp add: write_at_def)

lemma take_write_at: "k + length xs \<le> length buf \<Longrightarrow> take (k + length xs) (write_at buf k xs) = take k buf @ xs"
  by (simp add: write_at_def)

lemma blocks64_short [simp]: "length m < 64 \<Longrightarrow> blocks64 m = []"
  by (subst blocks64.simps) simp

lemma blocks64_block: "length b = 64 \<Longrightarrow> blocks64 (b @ m) = b # blocks64 m"
  by (subst blocks64.simps) simp

lemma blocks64_append: "length m mod 64 = 0 \<Longrightarrow> blocks64 (m @ n) = blocks64 m @ blocks64 n"
proof (induction m rule: blocks64.induct)
  case (1 m)
  show ?case
  proof (cases "length m \<ge> 64")
    case True
    have "blocks64 (m @ n) = take 64 m # blocks64 (drop 64 m @ n)"
      using True blocks64_block [of "take 64 m" "drop 64 m @ n"] by (metis append.assoc append_take_drop_id length_take min.absorb2)
    moreover have "blocks64 m = take 64 m # blocks64 (drop 64 m)"
      using True by (subst blocks64.simps) simp
    moreover have "length (drop 64 m) mod 64 = 0" using 1(2) True by (simp add: mod_eq_0_iff_dvd)
    ultimately show ?thesis using 1(1) [OF True] by simp
  next
    case False
    then show ?thesis using 1(2) by simp
  qed
qed

lemma split64: "\<exists>a t. m = a @ t \<and> length a mod 64 = 0 \<and> length t = length m mod 64 \<and>
    drop (64 * (length m div 64)) m = t"
proof (rule exI [of _ "take (64 * (length m div 64)) m"], rule exI [of _ "drop (64 * (length m div 64)) m"])
  show "m = take (64 * (length m div 64)) m @ drop (64 * (length m div 64)) m \<and>
      length (take (64 * (length m div 64)) m) mod 64 = 0 \<and>
      length (drop (64 * (length m div 64)) m) = length m mod 64 \<and>
      drop (64 * (length m div 64)) m = drop (64 * (length m div 64)) m"
    by (simp add: minus_mult_div_eq_mod min.absorb2)
qed

lemma absorb_blocks_fold:
  "absorb_blocks d st p = (fold (\<lambda>b st. sha256_compress_c st b) (blocks64 p) st, drop (64 * (length p div 64)) p)"
proof (induction d st p rule: absorb_blocks.induct)
  case (1 d st p)
  show ?case
  proof (cases "length p \<ge> 64")
    case True
    have "blocks64 p = take 64 p # blocks64 (drop 64 p)" using True by (subst blocks64.simps) simp
    moreover have "length p div 64 = Suc (length (drop 64 p) div 64)"
      using True by (simp add: le_div_geq)
    ultimately show ?thesis
      using 1 True by (subst absorb_blocks.simps) (simp add: SHA256_BLOCK_SIZE_def compress_eq ac_simps)
  next
    case False
    then show ?thesis by (subst absorb_blocks.simps) (simp add: SHA256_BLOCK_SIZE_def)
  qed
qed

lemma absorbed_init: "length (cx_buf ctx) = 64 \<Longrightarrow> absorbed [] (fst (sha256_init cpuid d ctx))"
  by (simp add: absorbed_def sha256_init_def)

text \<open>The second half of an update: the data starts at a block boundary.\<close>

lemma absorbed_whole:
  assumes "length m mod 64 = 0" and "length (cx_buf ctx) = 64"
    and "cx_state ctx = fold (\<lambda>b st. sha256_compress_c st b) (blocks64 m) SHA256_IV"
    and "bitcount ctx = of_nat (8 * length (m @ p))"
  defines "q \<equiv> drop (64 * (length p div 64)) p"
  shows "absorbed (m @ p) (ctx\<lparr>cx_state := fst (absorb_blocks d (cx_state ctx) p),
    cx_buf := write_at (cx_buf ctx) 0 q, buflen := length q\<rparr>)"
proof -
  have q: "length q = length p mod 64" by (simp add: q_def minus_mult_div_eq_mod)
  have l: "length (m @ p) mod 64 = length p mod 64" using assms(1) by (metis add.left_neutral length_append mod_add_left_eq)
  from assms(1) obtain k where k: "length m = 64 * k" by (auto simp: mod_eq_0_iff_dvd dvd_def)
  have "length q < 64" using q by simp
  then show ?thesis
    unfolding absorbed_def
    using assms(2-4) l q k
    by (simp add: absorb_blocks_fold blocks64_append [OF assms(1)] take_write_at write_at_def q_def drop_append)
qed

lemma update_empty_buffer:
  "buflen ctx = 0 \<Longrightarrow> sha256_update d ctx p =
     (let q = drop (64 * (length p div 64)) p
      in ctx\<lparr>bitcount := bitcount ctx + of_nat (length p) * 8, cx_state := fst (absorb_blocks d (cx_state ctx) p),
             cx_buf := write_at (cx_buf ctx) 0 q, buflen := length q\<rparr>)"
  by (simp add: sha256_update_def absorb_blocks_fold Let_def)

text \<open>The first half: the data completes the block in the buffer.\<close>

lemma update_fills_buffer:
  assumes "buflen ctx \<noteq> 0" and "buflen ctx < 64" and "buflen ctx + length p \<ge> 64"
  defines "n \<equiv> 64 - buflen ctx"
  defines "b \<equiv> write_at (cx_buf ctx) (buflen ctx) (take n p)"
  defines "q \<equiv> drop (64 * (length (drop n p) div 64)) (drop n p)"
  shows "sha256_update d ctx p =
     ctx\<lparr>bitcount := bitcount ctx + of_nat (length p) * 8,
         cx_state := fst (absorb_blocks d (sha256_compress d (cx_state ctx) b) (drop n p)),
         cx_buf := write_at b 0 q, buflen := length q\<rparr>"
proof -
  have m: "min (64 - buflen ctx) (length p) = n" using assms(3) by (simp add: n_def)
  have n: "buflen ctx + n = 64" using assms(2) by (simp add: n_def)
  show ?thesis
    unfolding sha256_update_def Let_def SHA256_BLOCK_SIZE_def
    using assms(1) by (simp add: m n q_def b_def absorb_blocks_fold)
qed

lemma absorbed_update:
  assumes a: "absorbed m ctx" and c: "buflen ctx = 0 \<or> buflen ctx + length p \<ge> 64"
  shows "absorbed (m @ p) (sha256_update d ctx p)"
proof (cases "buflen ctx = 0")
  case True
  let ?c = "ctx\<lparr>bitcount := bitcount ctx + of_nat (length p) * 8\<rparr>"
  have "absorbed (m @ p) (?c\<lparr>cx_state := fst (absorb_blocks d (cx_state ?c) p),
      cx_buf := write_at (cx_buf ?c) 0 (drop (64 * (length p div 64)) p),
      buflen := length (drop (64 * (length p div 64)) p)\<rparr>)"
    by (rule absorbed_whole) (use a True in \<open>simp_all add: absorbed_def distrib_left mult.commute\<close>)
  then show ?thesis unfolding update_empty_buffer [OF True] Let_def by simp
next
  case False
  define r where "r = buflen ctx"
  define n where "n = 64 - r"
  have r: "r \<noteq> 0" "r = length m mod 64" "r < 64" "r + length p \<ge> 64"
    using a c False by (simp_all add: r_def absorbed_def)
  obtain x t where m: "m = x @ t" and whole: "length x mod 64 = 0" and t: "length t = r"
    and tail: "drop (64 * (length m div 64)) m = t"
    using split64 [of m] r(2) by metis
  have buf: "length (cx_buf ctx) = 64" "take r (cx_buf ctx) = t"
    using a tail unfolding absorbed_def r_def by metis+
  define b where "b = write_at (cx_buf ctx) r (take n p)"
  have b: "b = t @ take n p" "length b = 64"
    using buf r t by (simp_all add: b_def write_at_def n_def)
  let ?c = "ctx\<lparr>bitcount := bitcount ctx + of_nat (length p) * 8,
    cx_state := sha256_compress_c (cx_state ctx) b, cx_buf := b, buflen := 0\<rparr>"
  have "blocks64 m = blocks64 x" using m t r(3) by (simp add: blocks64_append [OF whole])
  moreover have "blocks64 (m @ take n p) = blocks64 x @ [b]"
    using blocks64_append [OF whole, of "t @ take n p"] b blocks64_block [of b "[]"] m by simp
  ultimately have st: "sha256_compress_c (cx_state ctx) b =
      fold (\<lambda>b st. sha256_compress_c st b) (blocks64 (m @ take n p)) SHA256_IV"
    using a by (simp add: absorbed_def)
  have len: "length (m @ take n p) mod 64 = 0"
    using m whole b by (metis append.assoc length_append mod_add_self2)
  have "absorbed ((m @ take n p) @ drop n p) (?c\<lparr>cx_state := fst (absorb_blocks d (cx_state ?c) (drop n p)),
      cx_buf := write_at (cx_buf ?c) 0 (drop (64 * (length (drop n p) div 64)) (drop n p)),
      buflen := length (drop (64 * (length (drop n p) div 64)) (drop n p))\<rparr>)"
  proof (rule absorbed_whole [OF len])
    show "length (cx_buf ?c) = 64" using b by simp
    show "cx_state ?c = fold (\<lambda>b st. sha256_compress_c st b) (blocks64 (m @ take n p)) SHA256_IV" using st by simp
    show "bitcount ?c = of_nat (8 * length ((m @ take n p) @ drop n p))"
      using a by (simp add: absorbed_def distrib_left mult.commute)
  qed
  then show ?thesis
    unfolding update_fills_buffer [OF False, of p d, folded r_def, OF r(3,4), folded n_def, folded b_def]
    using b(2) by (simp add: compress_eq)
qed

lemma length_be64 [simp]: "length (be64 w) = 8"
  by (simp add: be64_def)

lemma length_digest [simp]: "length (digest st) = 32"
  by (cases st) (simp add: be32_def)

lemma length_sha256_final [simp]: "length (fst (sha256_final d ctx)) = 32"
  by (simp add: sha256_final_def split_beta Let_def)

lemma absorbed_final:
  assumes a: "absorbed m ctx"
  shows "fst (sha256_final d ctx) = sha256_spec m"
proof -
  define r where "r = length m mod 64"
  let ?bits = "be64 (bitcount ctx)"
  obtain x t where m: "m = x @ t" and whole: "length x mod 64 = 0" and t: "length t = r"
    and tail: "drop (64 * (length m div 64)) m = t"
    using split64 [of m] r_def by metis
  have r: "r < 64" "buflen ctx = r" using a by (simp_all add: r_def absorbed_def)
  have buf: "length (cx_buf ctx) = 64" "take r (cx_buf ctx) = t"
    using a tail unfolding absorbed_def r_def by metis+
  have st: "cx_state ctx = fold (\<lambda>b st. sha256_compress_c st b) (blocks64 x) SHA256_IV"
    using a m t r(1) by (simp add: absorbed_def blocks64_append [OF whole])
  have "be64 (of_nat (8 * length m)) = ?bits" using a unfolding absorbed_def by metis
  then have "sha_pad m = m @ t'" if "t' = [0x80] @ replicate (if r < 56 then 55 - r else 119 - r) 0 @ ?bits" for t'
    unfolding sha_pad_def r_def [symmetric] that by metis
  then have pad: "blocks64 (sha_pad m) = blocks64 x @ blocks64 (t @ [0x80] @
      replicate (if r < 56 then 55 - r else 119 - r) 0 @ ?bits)"
    using m blocks64_append [OF whole] by (metis append.assoc)
  have w: "write_at (cx_buf ctx) r [0x80] = t @ [0x80] @ drop (Suc r) (cx_buf ctx)"
    using buf by (simp add: write_at_def)
  show ?thesis
  proof (cases "r < 56")
    case True
    let ?b = "t @ [0x80] @ replicate (55 - r) 0 @ ?bits"
    have "write_at (write_at (write_at (cx_buf ctx) r [0x80]) (Suc r) (replicate (55 - r) 0)) 56 ?bits = ?b"
    proof -
      have "56 - r = Suc (55 - r)" using True by simp
      then show ?thesis unfolding w using True t buf by (simp add: write_at_def)
    qed
    moreover have "length ?b = 64" using True t by simp
    moreover have "blocks64 (sha_pad m) = blocks64 x @ [?b]"
      using True pad blocks64_block [of ?b "[]"] \<open>length ?b = 64\<close> by simp
    ultimately show ?thesis
      using True r by (simp add: sha256_final_def sha256_spec_def st compress_eq Let_def)
  next
    case False
    let ?b = "t @ [0x80] @ replicate (63 - r) 0" and ?c = "replicate 56 0 @ ?bits"
    have 1: "write_at (write_at (cx_buf ctx) r [0x80]) (Suc r) (replicate (63 - r) 0) = ?b"
      unfolding w using r(1) t buf by (simp add: write_at_def)
    have l: "length ?b = 64" using r(1) t by simp
    then have 2: "write_at (write_at ?b 0 (replicate 56 0)) 56 ?bits = ?c" by (simp add: write_at_def)
    have z: "replicate (119 - r) (0 :: byte) = replicate (63 - r) 0 @ replicate 56 0"
      using r(1) by (simp flip: replicate_add)
    have "blocks64 (sha_pad m) = blocks64 x @ [?b, ?c]"
      unfolding pad using False z blocks64_block [OF l, of ?c] blocks64_block [of ?c "[]"] by simp
    then show ?thesis
      using False r l 1 2 by (simp add: sha256_final_def sha256_spec_def st compress_eq Let_def SHA256_BLOCK_SIZE_def)
  qed
qed

lemma sha256_one_shot:
  assumes "length (cx_buf ctx) = 64"
  shows "fst (sha256 cpuid d ctx m) = sha256_spec m"
proof -
  note a = absorbed_init [OF assms, of cpuid d]
  have "buflen (fst (sha256_init cpuid d ctx)) = 0" by (simp add: sha256_init_def)
  from absorbed_final [OF absorbed_update [OF a, of m]] this show ?thesis
    by (simp add: sha256_def split_beta)
qed

lemma length_sha256_spec [simp]: "length (sha256_spec m) = 32"
  by (simp add: sha256_spec_def)

text \<open>Hashing a whole block and then a second piece, the shape of both passes of HMAC.\<close>

lemma sha256_two_parts:
  assumes "length (cx_buf ctx) = 64" and "length p = 64"
  shows "fst (sha256_final d (sha256_update d (sha256_update d (fst (sha256_init cpuid d0 ctx)) p) m)) = sha256_spec (p @ m)"
    and "length (cx_buf (snd (sha256_final d (sha256_update d (sha256_update d (fst (sha256_init cpuid d0 ctx)) p) m)))) = 64"
proof -
  note a = absorbed_init [OF assms(1), of cpuid d0]
  have z: "buflen (fst (sha256_init cpuid d0 ctx)) = 0" by (simp add: sha256_init_def)
  have b: "absorbed p (sha256_update d (fst (sha256_init cpuid d0 ctx)) p)"
    using absorbed_update [OF a, of p d] z by simp
  then have "buflen (sha256_update d (fst (sha256_init cpuid d0 ctx)) p) = 0"
    using assms(2) by (simp add: absorbed_def)
  with absorbed_update [OF b, of m d]
  have c: "absorbed (p @ m) (sha256_update d (sha256_update d (fst (sha256_init cpuid d0 ctx)) p) m)" by simp
  from absorbed_final [OF c]
  show "fst (sha256_final d (sha256_update d (sha256_update d (fst (sha256_init cpuid d0 ctx)) p) m)) = sha256_spec (p @ m)" .
  have "length (cx_buf ctx') = 64 \<Longrightarrow> buflen ctx' < 64 \<Longrightarrow> length (cx_buf (snd (sha256_final d ctx'))) = 64" for ctx'
    by (simp add: sha256_final_def Let_def SHA256_BLOCK_SIZE_def)
  then show "length (cx_buf (snd (sha256_final d (sha256_update d (sha256_update d (fst (sha256_init cpuid d0 ctx)) p) m)))) = 64"
    using c by (simp add: absorbed_def)
qed

lemma hmac_sha256_spec:
  assumes "length (cx_buf junk) = 64"
  shows "fst (hmac_sha256 cpuid d junk key msg) = hmac_spec key msg"
proof -
  have k: "hmac_key_block key = write_at (replicate 64 0) 0 (if length key > 64 then sha256_spec key else key)"
    by (simp add: hmac_key_block_def write_at_def Let_def)
  have l: "length (hmac_key_block key) = 64" by (simp add: hmac_key_block_def Let_def)
  show ?thesis
    using sha256_one_shot [OF assms] l
    by (simp add: hmac_sha256_def hmac_spec_def split_beta Let_def SHA256_BLOCK_SIZE_def k sha256_two_parts assms)
qed

text \<open>An update that does not complete the pending block resets it.\<close>

lemma lost_update:
  assumes a: "absorbed x ctx" and x: "x \<noteq> []" "length x + length y < 64"
  shows "fst (sha256_final d (sha256_update d ctx y)) =
    digest (sha256_compress_c SHA256_IV ([0x80] @ replicate 55 0 @ be64 (of_nat (8 * (length x + length y)))))"
proof -
  let ?c = "sha256_update d ctx y"
  have b: "buflen ctx = length x" "length (cx_buf ctx) = 64" "cx_state ctx = SHA256_IV"
    "bitcount ctx = of_nat (8 * length x)"
    using a x by (simp_all add: absorbed_def)
  then have "min (64 - buflen ctx) (length y) = length y" using x by simp
  with b x have c: "buflen ?c = 0" "length (cx_buf ?c) = 64" "cx_state ?c = SHA256_IV"
    "bitcount ?c = of_nat (8 * (length x + length y))"
    by (simp_all add: sha256_update_def SHA256_BLOCK_SIZE_def absorb_blocks_fold Let_def distrib_left mult.commute)
  have "write_at (write_at (write_at (cx_buf ?c) 0 [0x80]) 1 (replicate 55 0)) 56 w = [0x80] @ replicate 55 0 @ w"
    if "length w = 8" for w
    using c(2) that by (simp add: write_at_def)
  then show ?thesis
    by (simp add: sha256_final_def c compress_eq Let_def)
qed

text \<open>The comparison that accumulates the differences of all 32 bytes is equality.\<close>

lemma fold_or_zero:
  "fold (\<lambda>i diff. diff OR f i) is (z :: byte) = 0 \<longleftrightarrow> z = 0 \<and> (\<forall>i \<in> set is. f i = 0)"
  by (induction "is" arbitrary: z) (auto simp: or_eq_0_iff)

lemma hmac_equal_iff:
  assumes "length a = 32" "length b = 32"
  shows "hmac_sha256_equal a b \<longleftrightarrow> a = b"
proof -
  have "x XOR y = 0 \<longleftrightarrow> x = y" for x y :: byte by (metis xor.comm_neutral xor.left_commute xor_self_eq)
  then have "hmac_sha256_equal a b \<longleftrightarrow> (\<forall>i < 32. a ! i = b ! i)"
    unfolding hmac_sha256_equal_def fold_or_zero by (auto simp del: upt_rec_numeral)
  then show ?thesis using assms by (simp add: list_eq_iff_nth_eq)
qed

section \<open>Properties\<close>



text \<open>
  C17. Hashing a message in pieces gives the digest of the whole message as long as every piece
  either starts at a block boundary or completes the pending block.
\<close>

theorem sha256_update_streams:
  assumes "length (cx_buf junk) = 64"
    and "\<And>i. i < length ps \<Longrightarrow> length (concat (take i ps)) mod 64 = 0 \<or>
           length (concat (take i ps)) mod 64 + length (ps ! i) \<ge> 64"
  shows "fst (sha256_final d (fold (\<lambda>p ctx. sha256_update d ctx p) ps (fst (sha256_init cpuid d0 junk)))) =
         sha256_spec (concat ps)"
proof -
  have "absorbed (concat ps) (fold (\<lambda>p ctx. sha256_update d ctx p) ps (fst (sha256_init cpuid d0 junk)))"
    using assms(2)
  proof (induction ps rule: rev_induct)
    case Nil
    then show ?case using absorbed_init [OF assms(1)] by simp
  next
    case (snoc p ps)
    let ?c = "fold (\<lambda>p ctx. sha256_update d ctx p) ps (fst (sha256_init cpuid d0 junk))"
    have a: "absorbed (concat ps) ?c"
    proof (rule snoc.IH)
      show "length (concat (take i ps)) mod 64 = 0 \<or> length (concat (take i ps)) mod 64 + length (ps ! i) \<ge> 64"
        if "i < length ps" for i
        using snoc.prems [of i] that by (simp add: nth_append)
    qed
    have "buflen ?c = 0 \<or> buflen ?c + length p \<ge> 64"
      using snoc.prems [of "length ps"] a by (simp add: absorbed_def)
    from absorbed_update [OF a this] show ?case by simp
  qed
  then show ?thesis by (rule absorbed_final)
qed

theorem sha256_update_streams_witness:
  "fst (sha256_final fresh_dispatch (sha256_update fresh_dispatch (sha256_update fresh_dispatch
      (fst (sha256_init cpuid_plain fresh_dispatch stack_junk)) (replicate 70 1)) (replicate 60 2))) =
   sha256_spec (replicate 70 1 @ replicate 60 2)"
proof -
  let ?ps = "[replicate 70 1, replicate 60 2] :: byte list list"
  have "length (concat (take i ?ps)) mod 64 = 0 \<or> length (concat (take i ?ps)) mod 64 + length (?ps ! i) \<ge> 64"
    if "i < length ?ps" for i
  proof -
    have "i = 0 \<or> i = 1" using that by auto
    then show ?thesis by auto
  qed
  from sha256_update_streams [of stack_junk ?ps fresh_dispatch cpuid_plain fresh_dispatch, OF _ this]
  show ?thesis by (simp add: stack_junk_def)
qed

text \<open>
  C18. Outside that condition an update loses data: when two pieces together do not fill a
  block, the second one resets the buffer, and the digest depends on their total length only.
  Any two messages hashed this way in the same lengths collide.
\<close>

theorem sha256_update_loses_partial_block:
  assumes "length (cx_buf junk) = 64" and "x \<noteq> []" and "length x + length y < 64"
    and "x' \<noteq> []" and "length x' + length y' = length x + length y"
  shows "fst (sha256_final d (sha256_update d (sha256_update d (fst (sha256_init cpuid d0 junk)) x) y)) =
         fst (sha256_final d (sha256_update d (sha256_update d (fst (sha256_init cpuid d0 junk)) x') y'))"
proof -
  have h: "fst (sha256_final d (sha256_update d (sha256_update d (fst (sha256_init cpuid d0 junk)) u) v)) =
      digest (sha256_compress_c SHA256_IV ([0x80] @ replicate 55 0 @ be64 (of_nat (8 * (length u + length v)))))"
    if "u \<noteq> []" "length u + length v < 64" for u v
  proof -
    have "buflen (fst (sha256_init cpuid d0 junk)) = 0" by (simp add: sha256_init_def)
    then have "absorbed u (sha256_update d (fst (sha256_init cpuid d0 junk)) u)"
      using absorbed_update [OF absorbed_init [OF assms(1)], of cpuid d0 u d] by simp
    from lost_update [OF this that] show ?thesis .
  qed
  show ?thesis using h [OF assms(2,3)] h [of x' y'] assms(3-5) by simp
qed

theorem sha256_update_loses_partial_block_witness:
  "fst (sha256_final fresh_dispatch (sha256_update fresh_dispatch (sha256_update fresh_dispatch
      (fst (sha256_init cpuid_plain fresh_dispatch stack_junk)) [1]) [2])) =
   fst (sha256_final fresh_dispatch (sha256_update fresh_dispatch (sha256_update fresh_dispatch
      (fst (sha256_init cpuid_plain fresh_dispatch stack_junk)) [3]) [4]))"
  by (rule sha256_update_loses_partial_block) (simp_all add: stack_junk_def)

end
