(* ===== verification/Cap_Types.thy ===== *)
theory Cap_Types
  imports Sha256
begin

text \<open>
  \<^verbatim>\<open>uapi/mach/cap_types.h\<close>: the capability token, its 188-byte layout in memory (32-bit build:
  no padding besides the declared one), the hash of resource names and the error codes; and the
  keyed hash over a token, with the stack frame and processor of the hash fixed, on which its
  value does not depend.
\<close>

abbreviation (input) CAP_ERR_NONE :: kern_return where "CAP_ERR_NONE \<equiv> 0"
abbreviation (input) CAP_ERR_UNAUTHORIZED :: kern_return where "CAP_ERR_UNAUTHORIZED \<equiv> 2401"
abbreviation (input) CAP_ERR_POLICY_DENIED :: kern_return where "CAP_ERR_POLICY_DENIED \<equiv> 2402"
abbreviation (input) CAP_ERR_INVALID_TOKEN :: kern_return where "CAP_ERR_INVALID_TOKEN \<equiv> 2403"
abbreviation (input) CAP_ERR_REVOKED :: kern_return where "CAP_ERR_REVOKED \<equiv> 2405"
abbreviation (input) CAP_ERR_EXHAUSTED :: kern_return where "CAP_ERR_EXHAUSTED \<equiv> 2406"
abbreviation (input) CAP_ERR_NOT_DELEGABLE :: kern_return where "CAP_ERR_NOT_DELEGABLE \<equiv> 2407"
abbreviation (input) CAP_ERR_DEPTH_EXCEEDED :: kern_return where "CAP_ERR_DEPTH_EXCEEDED \<equiv> 2408"
abbreviation (input) CAP_ERR_OP_NOT_ALLOWED :: kern_return where "CAP_ERR_OP_NOT_ALLOWED \<equiv> 2409"
abbreviation (input) CAP_ERR_RESOURCE_MISMATCH :: kern_return where "CAP_ERR_RESOURCE_MISMATCH \<equiv> 2410"
abbreviation (input) CAP_ERR_NO_MEMORY :: kern_return where "CAP_ERR_NO_MEMORY \<equiv> 2411"
abbreviation (input) CAP_ERR_INTERNAL :: kern_return where "CAP_ERR_INTERNAL \<equiv> 2412"
abbreviation (input) CAP_ERR_NOT_IN_MANIFEST :: kern_return where "CAP_ERR_NOT_IN_MANIFEST \<equiv> 2413"
abbreviation (input) CAP_ERR_MANIFEST_INVALID :: kern_return where "CAP_ERR_MANIFEST_INVALID \<equiv> 2414"
abbreviation (input) CAP_ERR_NO_MANIFEST_SLOT :: kern_return where "CAP_ERR_NO_MANIFEST_SLOT \<equiv> 2415"

section \<open>The token\<close>

record uros_cap =
  cap_id :: u64
  resource_type :: u32
  cap_pad0 :: u32
  resource_id :: u64
  allowed_ops :: u64
  cap_owner :: mach_port
  owner_name :: "byte list"
  parent_cap_id :: u64
  cap_depth :: u8
  delegable :: u8
  cap_pad1 :: "byte list"
  expires :: u64
  max_uses :: u32
  current_uses :: u32
  revoked :: u8
  is_generic :: u8
  cap_pad2 :: "byte list"
  first_child_cap_id :: u64
  next_sibling_cap_id :: u64
  cap_hmac :: "byte list"

text \<open>The bytes in front of \<^verbatim>\<open>hmac[]\<close>, which is what is signed, and the whole structure.\<close>

definition cap_body :: "uros_cap \<Rightarrow> byte list" where
  "cap_body t =
     le_bytes64 (cap_id t) @ le_bytes (resource_type t) @ le_bytes (cap_pad0 t) @ le_bytes64 (resource_id t)
     @ le_bytes64 (allowed_ops t) @ le_bytes (cap_owner t) @ owner_name t @ le_bytes64 (parent_cap_id t)
     @ [cap_depth t, delegable t] @ cap_pad1 t @ le_bytes64 (expires t) @ le_bytes (max_uses t)
     @ le_bytes (current_uses t) @ [revoked t, is_generic t] @ cap_pad2 t
     @ le_bytes64 (first_child_cap_id t) @ le_bytes64 (next_sibling_cap_id t)"

definition cap_bytes :: "uros_cap \<Rightarrow> byte list" where
  "cap_bytes t = cap_body t @ cap_hmac t"

text \<open>The structure a buffer of at least 188 bytes is copied into.\<close>

definition cap_of_bytes :: "byte list \<Rightarrow> uros_cap" where
  "cap_of_bytes b = \<lparr>cap_id = load64 b 0, resource_type = load32 b 8, cap_pad0 = load32 b 12,
     resource_id = load64 b 16, allowed_ops = load64 b 24, cap_owner = load32 b 32,
     owner_name = take 64 (drop 36 b), parent_cap_id = load64 b 100, cap_depth = b ! 108, delegable = b ! 109,
     cap_pad1 = take 6 (drop 110 b), expires = load64 b 116, max_uses = load32 b 124,
     current_uses = load32 b 128, revoked = b ! 132, is_generic = b ! 133, cap_pad2 = take 6 (drop 134 b),
     first_child_cap_id = load64 b 140, next_sibling_cap_id = load64 b 148, cap_hmac = take 32 (drop 156 b)\<rparr>"

text \<open>The lengths of the array fields.\<close>

definition cap_wf :: "uros_cap \<Rightarrow> bool" where
  "cap_wf t \<longleftrightarrow> length (owner_name t) = 64 \<and> length (cap_pad1 t) = 6 \<and> length (cap_pad2 t) = 6 \<and>
     length (cap_hmac t) = 32"

definition CAP_TOKEN_SIZE :: nat where "CAP_TOKEN_SIZE = 188"
definition CAP_TOKEN_MAX :: nat where "CAP_TOKEN_MAX = 256"
definition CAP_MAX_DEPTH :: nat where "CAP_MAX_DEPTH = 16"

definition zero_cap :: uros_cap where
  "zero_cap = \<lparr>cap_id = 0, resource_type = 0, cap_pad0 = 0, resource_id = 0, allowed_ops = 0, cap_owner = 0,
     owner_name = replicate 64 0, parent_cap_id = 0, cap_depth = 0, delegable = 0, cap_pad1 = replicate 6 0,
     expires = 0, max_uses = 0, current_uses = 0, revoked = 0, is_generic = 0, cap_pad2 = replicate 6 0,
     first_child_cap_id = 0, next_sibling_cap_id = 0, cap_hmac = replicate 32 0\<rparr>"

section \<open>Signing\<close>

definition cap_mac :: "byte list \<Rightarrow> byte list \<Rightarrow> byte list" where
  "cap_mac key msg = fst (hmac_sha256 cpuid_plain fresh_dispatch stack_junk key msg)"

definition cap_sign :: "byte list \<Rightarrow> uros_cap \<Rightarrow> uros_cap" where
  "cap_sign key t = t\<lparr>cap_hmac := cap_mac key (cap_body t)\<rparr>"

definition cap_verify_hmac :: "byte list \<Rightarrow> uros_cap \<Rightarrow> bool" where
  "cap_verify_hmac key t = hmac_sha256_equal (cap_mac key (cap_body t)) (cap_hmac t)"

section \<open>Resource names\<close>

definition cap_name_hash :: "byte list \<Rightarrow> u64" where
  "cap_name_hash name = fold (\<lambda>c h. (h XOR ucast c) * 0x100000001b3) name 0xcbf29ce484222325"

section \<open>Lemmas\<close>

lemma length_cap_body: "cap_wf t \<Longrightarrow> length (cap_body t) = 156"
  by (simp add: cap_body_def cap_wf_def)

lemma length_cap_mac [simp]: "length (cap_mac key m) = 32"
  by (simp add: cap_mac_def hmac_sha256_def split_beta Let_def)

lemma cap_wf_sign [simp]: "cap_wf (cap_sign key t) \<longleftrightarrow> cap_wf (t\<lparr>cap_hmac := replicate 32 0\<rparr>)"
  by (simp add: cap_wf_def cap_sign_def)

lemma cap_body_sign [simp]: "cap_body (cap_sign key t) = cap_body t"
  by (simp add: cap_body_def cap_sign_def)

lemma cap_verify_hmac_iff: "length (cap_hmac t) = 32 \<Longrightarrow> cap_verify_hmac key t \<longleftrightarrow> cap_hmac t = cap_mac key (cap_body t)"
  by (auto simp: cap_verify_hmac_def hmac_equal_iff)

lemma cap_verify_sign [simp]: "cap_verify_hmac key (cap_sign key t)"
  by (simp add: cap_verify_hmac_def cap_sign_def hmac_equal_iff cap_body_def)

text \<open>The layout loses nothing: a structure is recovered from its bytes.\<close>

lemma cap_of_bytes [simp]: "cap_wf t \<Longrightarrow> cap_of_bytes (cap_bytes t) = t"
  by (cases t) (simp add: cap_of_bytes_def cap_bytes_def cap_body_def cap_wf_def load_simps nth_append)

lemma cap_body_inject:
  assumes "cap_wf t" "cap_wf t'" "cap_body t = cap_body t'"
  shows "t = t'\<lparr>cap_hmac := cap_hmac t\<rparr>"
proof -
  have "t = cap_of_bytes (cap_body t' @ cap_hmac t)"
    using cap_of_bytes [OF assms(1)] assms(3) by (simp add: cap_bytes_def)
  also have "\<dots> = cap_of_bytes (cap_bytes (t'\<lparr>cap_hmac := cap_hmac t\<rparr>))"
    by (simp add: cap_bytes_def cap_body_def)
  also have "\<dots> = t'\<lparr>cap_hmac := cap_hmac t\<rparr>"
    using assms(1,2) by (intro cap_of_bytes) (simp add: cap_wf_def)
  finally show ?thesis .
qed

end
