(* ===== verification/Cap_Manifest.thy ===== *)
theory Cap_Manifest
  imports Cap_Types
begin

text \<open>
  \<^verbatim>\<open>cap_server/cap_manifest_table.c\<close> over the wire format of \<^verbatim>\<open>uapi/mach/cap_manifest.h\<close>: validation
  of a manifest blob, the table of installed manifests and the predicate that consults one.
  Blobs are byte lists; the header fields are loaded from them at their offsets, and the C
  arithmetic on offsets stays at 32 bits.
\<close>

section \<open>Wire format\<close>

record cap_manifest_entry =
  me_type :: u32
  me_pad :: u32
  me_ops :: u64

record cap_manifest_header =
  mh_magic :: u32
  mh_version :: u16
  mh_header_size :: u16
  mh_total_size :: u32
  mh_flags :: u32
  name_offset :: u32
  name_length :: u32
  required_offset :: u32
  required_count :: u32
  delegatable_offset :: u32
  delegatable_count :: u32

definition manifest_header :: "byte list \<Rightarrow> cap_manifest_header" where
  "manifest_header b = \<lparr>mh_magic = load32 b 0, mh_version = load16 b 4, mh_header_size = load16 b 6,
     mh_total_size = load32 b 8, mh_flags = load32 b 12, name_offset = load32 b 16, name_length = load32 b 20,
     required_offset = load32 b 24, required_count = load32 b 28,
     delegatable_offset = load32 b 32, delegatable_count = load32 b 36\<rparr>"

definition manifest_entry :: "byte list \<Rightarrow> nat \<Rightarrow> cap_manifest_entry" where
  "manifest_entry b i = \<lparr>me_type = load32 b i, me_pad = load32 b (i + 4), me_ops = load64 b (i + 8)\<rparr>"

definition CAP_MANIFEST_MAGIC :: u32 where "CAP_MANIFEST_MAGIC = 0x464D4355"
definition CAP_MANIFEST_VERSION :: u16 where "CAP_MANIFEST_VERSION = 1"
definition CAP_MANIFEST_MAX_BYTES :: nat where "CAP_MANIFEST_MAX_BYTES = 16 * 1024"
definition CAP_MANIFEST_MAX_NAME :: nat where "CAP_MANIFEST_MAX_NAME = 64"
definition CAP_MANIFEST_MAX_ENTRIES :: nat where "CAP_MANIFEST_MAX_ENTRIES = 64"

text \<open>\<^verbatim>\<open>sizeof\<close> of the two structures.\<close>

definition MANIFEST_HEADER_SIZE :: nat where "MANIFEST_HEADER_SIZE = 48"
definition MANIFEST_ENTRY_SIZE :: nat where "MANIFEST_ENTRY_SIZE = 16"

section \<open>Validation\<close>

definition range_ok :: "u32 \<Rightarrow> u32 \<Rightarrow> u32 \<Rightarrow> bool" where
  "range_ok off len tot = (if off > tot then False else if len > tot - off then False else True)"

definition cap_manifest_validate :: "byte list \<Rightarrow> kern_return" where
  "cap_manifest_validate b =
     (let blob_len = of_nat (length b) :: u32; h = manifest_header b
      in if length b < MANIFEST_HEADER_SIZE then CAP_ERR_MANIFEST_INVALID
         else if length b > CAP_MANIFEST_MAX_BYTES then CAP_ERR_MANIFEST_INVALID
         else if mh_magic h \<noteq> CAP_MANIFEST_MAGIC then CAP_ERR_MANIFEST_INVALID
         else if mh_version h \<noteq> CAP_MANIFEST_VERSION then CAP_ERR_MANIFEST_INVALID
         else if unat (mh_header_size h) < MANIFEST_HEADER_SIZE then CAP_ERR_MANIFEST_INVALID
         else if mh_total_size h \<noteq> blob_len then CAP_ERR_MANIFEST_INVALID
         else if mh_flags h \<noteq> 0 then CAP_ERR_MANIFEST_INVALID
         else if unat (required_count h) > CAP_MANIFEST_MAX_ENTRIES then CAP_ERR_MANIFEST_INVALID
         else if unat (delegatable_count h) > CAP_MANIFEST_MAX_ENTRIES then CAP_ERR_MANIFEST_INVALID
         else if \<not> range_ok (required_offset h) (required_count h * of_nat MANIFEST_ENTRY_SIZE) blob_len
           then CAP_ERR_MANIFEST_INVALID
         else if \<not> range_ok (delegatable_offset h) (delegatable_count h * of_nat MANIFEST_ENTRY_SIZE) blob_len
           then CAP_ERR_MANIFEST_INVALID
         else if name_length h = 0 \<or> unat (name_length h) > CAP_MANIFEST_MAX_NAME then CAP_ERR_MANIFEST_INVALID
         else if \<not> range_ok (name_offset h) (name_length h) blob_len then CAP_ERR_MANIFEST_INVALID
         else if b ! (unat (name_offset h) + unat (name_length h - 1)) \<noteq> 0 then CAP_ERR_MANIFEST_INVALID
         else CAP_ERR_NONE)"

section \<open>The table\<close>

record manifest_slot =
  ms_in_use :: bool
  ms_port :: mach_port
  ms_blob :: "byte list"

definition CAP_MANIFEST_TABLE_SIZE :: nat where "CAP_MANIFEST_TABLE_SIZE = 64"

definition empty_slot :: manifest_slot where
  "empty_slot = \<lparr>ms_in_use = False, ms_port = 0, ms_blob = []\<rparr>"

definition cap_manifest_table_init :: "manifest_slot list" where
  "cap_manifest_table_init = replicate CAP_MANIFEST_TABLE_SIZE empty_slot"

text \<open>
  The search of \<^verbatim>\<open>cap_manifest_table_install\<close>: the slot that already has the port, which is
  emptied on the way, or else the first free one.  \<open>malloc_ok\<close> says whether the copy could be
  allocated.
\<close>

definition install_slot :: "mach_port \<Rightarrow> manifest_slot list \<Rightarrow> nat option \<times> manifest_slot list" where
  "install_slot p T =
     (case scan (\<lambda>s. ms_in_use s \<and> ms_port s = p) T of
        Some i \<Rightarrow> (Some i, T[i := (T ! i)\<lparr>ms_blob := [], ms_in_use := False\<rparr>])
      | None \<Rightarrow> (scan (\<lambda>s. \<not> ms_in_use s) T, T))"

definition cap_manifest_table_install ::
  "bool \<Rightarrow> mach_port \<Rightarrow> byte list \<Rightarrow> manifest_slot list \<Rightarrow> kern_return \<times> manifest_slot list" where
  "cap_manifest_table_install malloc_ok p b T =
     (case install_slot p T of
        (None, T) \<Rightarrow> (CAP_ERR_NO_MANIFEST_SLOT, T)
      | (Some i, T) \<Rightarrow>
          if \<not> malloc_ok then (CAP_ERR_NO_MEMORY, T)
          else (CAP_ERR_NONE, T[i := \<lparr>ms_in_use = True, ms_port = p, ms_blob = b\<rparr>]))"

definition cap_manifest_table_get :: "mach_port \<Rightarrow> manifest_slot list \<Rightarrow> byte list option" where
  "cap_manifest_table_get p T =
     map_option (\<lambda>i. ms_blob (T ! i)) (scan (\<lambda>s. ms_in_use s \<and> ms_port s = p) T)"

text \<open>The loop over the required entries, from index \<open>i\<close> on.\<close>

function allows_from :: "byte list \<Rightarrow> u32 \<Rightarrow> u64 \<Rightarrow> nat \<Rightarrow> bool" where
  "allows_from b type ops i =
     (let h = manifest_header b; e = manifest_entry b (unat (required_offset h) + MANIFEST_ENTRY_SIZE * i)
      in if i < unat (required_count h)
         then (if me_type e = type \<and> ops AND NOT (me_ops e) = 0 then True else allows_from b type ops (i + 1))
         else False)"
  by pat_completeness auto
termination
  by (relation "measure (\<lambda>(b, type, ops, i). unat (required_count (manifest_header b)) - i)") auto

definition cap_manifest_allows :: "byte list option \<Rightarrow> u32 \<Rightarrow> u64 \<Rightarrow> bool" where
  "cap_manifest_allows m type ops = (case m of None \<Rightarrow> True | Some b \<Rightarrow> allows_from b type ops 0)"

text \<open>The entries a manifest declares as required.\<close>

definition required_entries :: "byte list \<Rightarrow> cap_manifest_entry list" where
  "required_entries b =
     map (\<lambda>i. manifest_entry b (unat (required_offset (manifest_header b)) + MANIFEST_ENTRY_SIZE * i))
       [0..<unat (required_count (manifest_header b))]"

text \<open>At most one slot per port.\<close>

definition table_wf :: "manifest_slot list \<Rightarrow> bool" where
  "table_wf T \<longleftrightarrow> length T = CAP_MANIFEST_TABLE_SIZE \<and>
     (\<forall>i < length T. \<forall>j < length T. ms_in_use (T ! i) \<longrightarrow> ms_in_use (T ! j) \<longrightarrow> ms_port (T ! i) = ms_port (T ! j) \<longrightarrow> i = j)"

text \<open>The map the table represents.\<close>

definition manifest_map :: "manifest_slot list \<Rightarrow> mach_port \<rightharpoonup> byte list" where
  "manifest_map T = (\<lambda>p. cap_manifest_table_get p T)"

text \<open>A small manifest: no entries, the name \<^verbatim>\<open>a\<close>.\<close>

definition small_manifest :: "byte list" where
  "small_manifest =
     [0x55, 0x43, 0x4D, 0x46, 1, 0, 48, 0, 52, 0, 0, 0, 0, 0, 0, 0, 48, 0, 0, 0, 2, 0, 0, 0,
      48, 0, 0, 0, 0, 0, 0, 0, 48, 0, 0, 0, 0, 0, 0, 0, 0, 0, 0, 0, 0, 0, 0, 0, 0x61, 0, 0, 0]"

declare allows_from.simps [simp del]

section \<open>Lemmas\<close>

lemma range_ok_iff: "range_ok off len tot \<longleftrightarrow> unat off + unat len \<le> unat tot"
proof (cases "off \<le> tot")
  case True
  then have "unat (tot - off) = unat tot - unat off" by (simp add: unat_sub word_le_nat_alt)
  with True show ?thesis by (auto simp: range_ok_def word_less_nat_alt word_le_nat_alt)
next
  case False
  then show ?thesis by (auto simp: range_ok_def word_less_nat_alt word_le_nat_alt)
qed

lemma count_bytes: "unat (c :: u32) \<le> 64 \<Longrightarrow> unat (c * of_nat MANIFEST_ENTRY_SIZE) = 16 * unat c"
  unfolding MANIFEST_ENTRY_SIZE_def by (subst unat_mult_lem [THEN iffD1]) simp_all

lemma allows_from_iff:
  "allows_from b type ops i \<longleftrightarrow>
     (\<exists>j. i \<le> j \<and> j < unat (required_count (manifest_header b)) \<and>
       (let e = manifest_entry b (unat (required_offset (manifest_header b)) + MANIFEST_ENTRY_SIZE * j)
        in me_type e = type \<and> ops AND NOT (me_ops e) = 0))"
proof (induction b type ops i rule: allows_from.induct)
  case (1 b type ops i)
  let ?P = "\<lambda>j. let e = manifest_entry b (unat (required_offset (manifest_header b)) + MANIFEST_ENTRY_SIZE * j)
        in me_type e = type \<and> ops AND NOT (me_ops e) = 0"
  let ?n = "unat (required_count (manifest_header b))"
  have "(\<exists>j. i \<le> j \<and> j < ?n \<and> ?P j) \<longleftrightarrow> i < ?n \<and> (?P i \<or> (\<exists>j. i + 1 \<le> j \<and> j < ?n \<and> ?P j))"
    by (auto simp: Let_def Suc_le_eq intro: less_imp_le_nat) (metis le_neq_implies_less)+
  moreover have "allows_from b type ops i \<longleftrightarrow> i < ?n \<and> (?P i \<or> allows_from b type ops (i + 1))"
    by (subst allows_from.simps) (auto simp: Let_def)
  ultimately show ?case using 1 unfolding Let_def by blast
qed

lemma cap_manifest_allows_iff:
  "cap_manifest_allows (Some b) type ops \<longleftrightarrow>
     (\<exists>e \<in> set (required_entries b). me_type e = type \<and> ops AND NOT (me_ops e) = 0)"
  by (auto simp: cap_manifest_allows_def allows_from_iff required_entries_def Let_def)

lemma table_wfD:
  assumes "table_wf T" "i < length T" "j < length T" "ms_in_use (T ! i)" "ms_in_use (T ! j)" "ms_port (T ! i) = ms_port (T ! j)"
  shows "i = j"
  using assms unfolding table_wf_def by blast

text \<open>Storing into a slot that holds no other port, when no other slot holds the port.\<close>

lemma store_slot:
  fixes b :: "byte list"
  assumes wf: "table_wf T" and i: "i < length T"
    and free: "\<And>j. j < length T \<Longrightarrow> j \<noteq> i \<Longrightarrow> \<not> (ms_in_use (T ! j) \<and> ms_port (T ! j) = p)"
    and own: "ms_in_use (T ! i) \<Longrightarrow> ms_port (T ! i) = p"
  defines "T' \<equiv> T[i := \<lparr>ms_in_use = True, ms_port = p, ms_blob = b\<rparr>]"
  shows "table_wf T'" and "cap_manifest_table_get p T' = Some b"
    and "q \<noteq> p \<Longrightarrow> cap_manifest_table_get q T' = cap_manifest_table_get q T"
proof -
  show "table_wf T'"
    unfolding table_wf_def
  proof (intro conjI allI impI)
    show "length T' = CAP_MANIFEST_TABLE_SIZE" using wf by (simp add: T'_def table_wf_def)
    fix j k
    assume h: "j < length T'" "k < length T'" "ms_in_use (T' ! j)" "ms_in_use (T' ! k)" "ms_port (T' ! j) = ms_port (T' ! k)"
    consider "j = i \<and> k = i" | "j = i \<and> k \<noteq> i" | "j \<noteq> i \<and> k = i" | "j \<noteq> i \<and> k \<noteq> i" by blast
    then show "j = k"
    proof cases
      case 4
      then show ?thesis using h by (intro table_wfD [OF wf]) (simp_all add: T'_def)
    qed (use h free i in \<open>auto simp: T'_def\<close>)
  qed
  have "scan (\<lambda>s. ms_in_use s \<and> ms_port s = p) T' = Some i"
    by (rule scan_unique) (use i free in \<open>auto simp: T'_def nth_list_update split: if_splits\<close>)
  then show "cap_manifest_table_get p T' = Some b" using i by (simp add: cap_manifest_table_get_def T'_def)
  show "cap_manifest_table_get q T' = cap_manifest_table_get q T" if "q \<noteq> p"
  proof -
    have "scan (\<lambda>s. ms_in_use s \<and> ms_port s = q) T' = scan (\<lambda>s. ms_in_use s \<and> ms_port s = q) T"
      unfolding T'_def by (rule scan_update_cong) (use own that in auto)
    moreover have "scan (\<lambda>s. ms_in_use s \<and> ms_port s = q) T \<noteq> Some i"
      using own that by (auto dest: scan_SomeD)
    ultimately show ?thesis
      unfolding cap_manifest_table_get_def T'_def
      by (cases "scan (\<lambda>s. ms_in_use s \<and> ms_port s = q) T") simp_all
  qed
qed

lemma clear_slot:
  assumes wf: "table_wf T" and f: "scan (\<lambda>s. ms_in_use s \<and> ms_port s = p) T = Some i"
  defines "T' \<equiv> T[i := (T ! i)\<lparr>ms_blob := [], ms_in_use := False\<rparr>]"
  shows "table_wf T'" and "cap_manifest_table_get p T' = None"
    and "q \<noteq> p \<Longrightarrow> cap_manifest_table_get q T' = cap_manifest_table_get q T"
proof -
  note i = scan_SomeD [OF f]
  show "table_wf T'"
    using wf i(1) unfolding table_wf_def T'_def by (auto simp: nth_list_update split: if_splits)
  have "\<not> (ms_in_use (T' ! j) \<and> ms_port (T' ! j) = p)" if "j < length T'" for j
    using that i table_wfD [OF wf i(1), of j] by (auto simp: T'_def nth_list_update split: if_splits)
  then have "scan (\<lambda>s. ms_in_use s \<and> ms_port s = p) T' = None"
    unfolding scan_None by (metis in_set_conv_nth)
  then show "cap_manifest_table_get p T' = None" by (simp add: cap_manifest_table_get_def)
  show "cap_manifest_table_get q T' = cap_manifest_table_get q T" if "q \<noteq> p"
  proof -
    have "scan (\<lambda>s. ms_in_use s \<and> ms_port s = q) T' = scan (\<lambda>s. ms_in_use s \<and> ms_port s = q) T"
      unfolding T'_def by (rule scan_update_cong) (use i that in auto)
    moreover have "scan (\<lambda>s. ms_in_use s \<and> ms_port s = q) T \<noteq> Some i"
      using i that by (auto dest: scan_SomeD)
    ultimately show ?thesis
      unfolding cap_manifest_table_get_def T'_def
      by (cases "scan (\<lambda>s. ms_in_use s \<and> ms_port s = q) T") simp_all
  qed
qed

lemma table_get_None: "cap_manifest_table_get p T = None \<longleftrightarrow> (\<forall>s \<in> set T. \<not> (ms_in_use s \<and> ms_port s = p))"
  by (simp add: cap_manifest_table_get_def scan_None)

lemma full_table_card:
  assumes "table_wf T" and "scan (\<lambda>s. \<not> ms_in_use s) T = None"
  shows "card {q. cap_manifest_table_get q T \<noteq> None} = CAP_MANIFEST_TABLE_SIZE"
proof -
  have used: "\<forall>s \<in> set T. ms_in_use s" using assms(2) by (simp add: scan_None)
  then have "{q. cap_manifest_table_get q T \<noteq> None} = set (map ms_port T)"
    by (auto simp: table_get_None)
  moreover have "distinct (map ms_port T)"
    using used table_wfD [OF assms(1)] by (auto simp: distinct_conv_nth)
  then have "card (set (map ms_port T)) = length T" by (metis distinct_card length_map)
  ultimately show ?thesis using assms(1) by (simp add: table_wf_def)
qed

section \<open>Properties\<close>

text \<open>
  C25. A blob that passes validation can be read without leaving it: both entry arrays and the
  name lie inside the blob, the name ends in its terminating zero, and none of the 32-bit
  offset computations of the check wraps around.
\<close>

theorem manifest_validate_bounds:
  assumes "cap_manifest_validate b = CAP_ERR_NONE"
  shows "let h = manifest_header b
         in MANIFEST_HEADER_SIZE \<le> length b \<and> length b \<le> CAP_MANIFEST_MAX_BYTES \<and>
            unat (required_offset h) + MANIFEST_ENTRY_SIZE * unat (required_count h) \<le> length b \<and>
            unat (delegatable_offset h) + MANIFEST_ENTRY_SIZE * unat (delegatable_count h) \<le> length b \<and>
            0 < unat (name_length h) \<and> unat (name_offset h) + unat (name_length h) \<le> length b \<and>
            b ! (unat (name_offset h) + unat (name_length h) - 1) = 0"
proof -
  let ?h = "manifest_header b"
  have l: "length b \<le> CAP_MANIFEST_MAX_BYTES" and m: "MANIFEST_HEADER_SIZE \<le> length b"
    and c: "unat (required_count ?h) \<le> 64" "unat (delegatable_count ?h) \<le> 64"
    and r: "range_ok (required_offset ?h) (required_count ?h * of_nat MANIFEST_ENTRY_SIZE) (of_nat (length b))"
      "range_ok (delegatable_offset ?h) (delegatable_count ?h * of_nat MANIFEST_ENTRY_SIZE) (of_nat (length b))"
      "range_ok (name_offset ?h) (name_length ?h) (of_nat (length b))"
    and n: "name_length ?h \<noteq> 0" "b ! (unat (name_offset ?h) + unat (name_length ?h - 1)) = 0"
    using assms unfolding cap_manifest_validate_def Let_def CAP_MANIFEST_MAX_ENTRIES_def
    by (auto split: if_splits)
  have len: "unat (of_nat (length b) :: u32) = length b"
    using l by (simp add: CAP_MANIFEST_MAX_BYTES_def unat_of_nat)
  have "unat (name_length ?h) \<noteq> 0" using n(1) by (simp add: unat_eq_0)
  moreover have "unat (name_length ?h - 1) = unat (name_length ?h) - 1"
    using n(1) by (simp add: unat_minus_one)
  ultimately show ?thesis
    using l m n(2) r [unfolded range_ok_iff len] count_bytes [OF c(1)] count_bytes [OF c(2)]
    by (simp add: Let_def MANIFEST_ENTRY_SIZE_def)
qed

theorem manifest_validate_bounds_witness:
  "let h = manifest_header small_manifest
   in cap_manifest_validate small_manifest = CAP_ERR_NONE \<and>
      unat (name_offset h) + unat (name_length h) \<le> length small_manifest \<and>
      small_manifest ! (unat (name_offset h) + unat (name_length h) - 1) = 0"
proof -
  have "cap_manifest_validate small_manifest = CAP_ERR_NONE" by code_simp
  from manifest_validate_bounds [OF this] this show ?thesis by (simp add: Let_def)
qed

text \<open>
  C26. The manifest table implements a partial map from port names to manifests.  Installing
  with memory available binds the port, replacing an earlier manifest, and changes no other
  binding; it is refused only when 64 other ports are bound, and then changes nothing; without
  memory the port ends up unbound and every other binding stays.
\<close>

theorem manifest_table_refines_map:
  fixes T :: "manifest_slot list"
  assumes "table_wf T"
  shows "let (r, T') = cap_manifest_table_install m p b T
         in table_wf T' \<and>
            (r = CAP_ERR_NONE \<longrightarrow> m \<and> manifest_map T' = (manifest_map T)(p \<mapsto> b)) \<and>
            (r = CAP_ERR_NO_MANIFEST_SLOT \<longrightarrow> T' = T \<and> manifest_map T p = None \<and> card {q. manifest_map T q \<noteq> None} = CAP_MANIFEST_TABLE_SIZE) \<and>
            (r = CAP_ERR_NO_MEMORY \<longrightarrow> \<not> m \<and> manifest_map T' = (manifest_map T)(p := None)) \<and>
            r \<in> {CAP_ERR_NONE, CAP_ERR_NO_MANIFEST_SLOT, CAP_ERR_NO_MEMORY}"
proof (cases "scan (\<lambda>s. ms_in_use s \<and> ms_port s = p) T")
  case (Some i)
  note i = scan_SomeD [OF Some]
  have "cap_manifest_table_install m p b T =
      (if m then (CAP_ERR_NONE, T[i := \<lparr>ms_in_use = True, ms_port = p, ms_blob = b\<rparr>])
       else (CAP_ERR_NO_MEMORY, T[i := (T ! i)\<lparr>ms_blob := [], ms_in_use := False\<rparr>]))"
    using Some by (simp add: cap_manifest_table_install_def install_slot_def)
  moreover have "\<And>j. j < length T \<Longrightarrow> j \<noteq> i \<Longrightarrow> \<not> (ms_in_use (T ! j) \<and> ms_port (T ! j) = p)"
    using table_wfD [OF assms(1) i(1)] i(2) by metis
  ultimately show ?thesis
    using store_slot [OF assms(1) i(1), where p = p and b = b] clear_slot [OF assms(1) Some] i(2)
    by (auto simp: manifest_map_def fun_eq_iff)
next
  case None
  then have p: "manifest_map T p = None" by (simp add: manifest_map_def cap_manifest_table_get_def)
  show ?thesis
  proof (cases "scan (\<lambda>s. \<not> ms_in_use s) T")
    case (Some i)
    note i = scan_SomeD [OF Some]
    have "cap_manifest_table_install m p b T =
        (if m then (CAP_ERR_NONE, T[i := \<lparr>ms_in_use = True, ms_port = p, ms_blob = b\<rparr>]) else (CAP_ERR_NO_MEMORY, T))"
      using Some None by (simp add: cap_manifest_table_install_def install_slot_def)
    moreover have "\<And>j. j < length T \<Longrightarrow> \<not> (ms_in_use (T ! j) \<and> ms_port (T ! j) = p)"
      using None by (simp add: scan_None)
    ultimately show ?thesis
      using store_slot [OF assms(1) i(1), where p = p and b = b] i(2) p assms(1)
      by (auto simp: manifest_map_def fun_eq_iff)
  next
    case full: None
    then have "cap_manifest_table_install m p b T = (CAP_ERR_NO_MANIFEST_SLOT, T)"
      using None by (simp add: cap_manifest_table_install_def install_slot_def)
    then show ?thesis using full_table_card [OF assms(1) full] p assms(1) by (simp add: manifest_map_def)
  qed
qed

lemma table_wf_init: "table_wf cap_manifest_table_init"
  by (simp add: table_wf_def cap_manifest_table_init_def empty_slot_def)

theorem manifest_table_refines_map_witness:
  "table_wf (snd (cap_manifest_table_install True 7 [1, 2] cap_manifest_table_init))"
  using manifest_table_refines_map [OF table_wf_init, of True 7 "[1, 2]"] by (simp add: split_beta)

end
