(* ===== verification/Mkmanifest.thy ===== *)
theory Mkmanifest
  imports Cap_Manifest
begin

text \<open>
  \<^verbatim>\<open>tools/mkmanifest/mkmanifest.c\<close>: the parser of the line-based manifest source and the
  emitter of the binary form, with the C library functions they use (\<^verbatim>\<open>isspace\<close>, \<^verbatim>\<open>strtok\<close>,
  \<^verbatim>\<open>strtoull\<close> with base 0) written out.  \<^verbatim>\<open>die\<close> is \<open>None\<close>.  What the tool emits is accepted by
  the capability server, which then allows exactly what the source declares.
\<close>

section \<open>C library\<close>

definition isspace :: "char \<Rightarrow> bool" where
  "isspace c \<longleftrightarrow> c \<in> {CHR 0x20, CHR 0x09, CHR 0x0A, CHR 0x0B, CHR 0x0C, CHR 0x0D}"

text \<open>
  \<open>strtok ds s\<close>: the first token of \<open>s\<close> and what the next call continues with; \<open>None\<close> is the
  null pointer.
\<close>

definition strtok :: "char set \<Rightarrow> string \<Rightarrow> (string \<times> string) option" where
  "strtok ds s =
     (let t = dropWhile (\<lambda>c. c \<in> ds) s
      in if t = [] then None
         else Some (takeWhile (\<lambda>c. c \<notin> ds) t, tl (dropWhile (\<lambda>c. c \<notin> ds) t)))"

definition digit_value :: "char \<Rightarrow> int option" where
  "digit_value c =
     (let n = of_char c :: int
      in if 48 \<le> n \<and> n \<le> 57 then Some (n - 48)
         else if 97 \<le> n \<and> n \<le> 102 then Some (n - 87)
         else if 65 \<le> n \<and> n \<le> 70 then Some (n - 55)
         else None)"

text \<open>The digits of a number in the given base, and what follows them.\<close>

fun read_digits :: "int \<Rightarrow> int \<Rightarrow> string \<Rightarrow> int \<times> string" where
  "read_digits base acc [] = (acc, [])"
| "read_digits base acc (c # cs) =
     (case digit_value c of
        Some d \<Rightarrow> if d < base then read_digits base (base * acc + d) cs else (acc, c # cs)
      | None \<Rightarrow> (acc, c # cs))"

definition strtoull_digits :: "string \<Rightarrow> int \<times> string" where
  "strtoull_digits s =
     (case s of
        a # b # c # cs \<Rightarrow>
          if a = CHR ''0'' \<and> (b = CHR ''x'' \<or> b = CHR ''X'') \<and> digit_value c \<noteq> None
          then read_digits 16 0 (c # cs)
          else read_digits (if a = CHR ''0'' then 8 else 10) 0 s
      | a # cs \<Rightarrow> read_digits (if a = CHR ''0'' then 8 else 10) 0 s
      | [] \<Rightarrow> (0, []))"

text \<open>
  \<open>strtoull s\<close>: the value, the rest of the string and whether \<^verbatim>\<open>errno\<close> was set.  A minus sign negates modulo \<open>2^64\<close>; without digits nothing is consumed.
\<close>

definition strtoull :: "string \<Rightarrow> u64 \<times> string \<times> bool" where
  "strtoull s =
     (let u = dropWhile isspace s; neg = (u \<noteq> [] \<and> hd u = CHR ''-'');
          t = (if u \<noteq> [] \<and> hd u \<in> {CHR ''-'', CHR ''+''} then tl u else u);
          (n, rest) = strtoull_digits t
      in if rest = t then (0, s, False)
         else if n > 2 ^ 64 - 1 then (- 1, rest, True)
         else (if neg then - of_int n else of_int n, rest, False))"

section \<open>Parsing\<close>

record manifest_source =
  g_name :: string
  g_required :: "cap_manifest_entry list"
  g_delegatable :: "cap_manifest_entry list"

definition strip_line :: "string \<Rightarrow> string" where
  "strip_line s =
     (let s = takeWhile (\<lambda>c. c \<noteq> CHR ''#'') s;
          s = rev (dropWhile isspace (rev s))
      in dropWhile isspace s)"

definition parse_entry :: "string \<Rightarrow> cap_manifest_entry list \<Rightarrow> cap_manifest_entry list option" where
  "parse_entry args arr =
     (if length arr \<ge> CAP_MANIFEST_MAX_ENTRIES then None
      else case strtok {CHR '' '', CHR 0x09} args of
        None \<Rightarrow> None
      | Some (type_s, rest) \<Rightarrow>
          (case strtok {CHR '' '', CHR 0x09} rest of
             None \<Rightarrow> None
           | Some (ops_s, _) \<Rightarrow>
               (let (type, end1, err1) = strtoull type_s; (ops, end2, err2) = strtoull ops_s
                in if err1 \<or> end1 \<noteq> [] \<or> type > 0xffffffff then None
                   else if err2 \<or> end2 \<noteq> [] then None
                   else Some (arr @ [\<lparr>me_type = ucast type, me_pad = 0, me_ops = ops\<rparr>]))))"

text \<open>One line; \<open>rest\<close> is the null pointer when nothing follows the keyword.\<close>

definition parse_line :: "string \<Rightarrow> manifest_source \<Rightarrow> manifest_source option" where
  "parse_line line st =
     (case strtok {CHR '' '', CHR 0x09} (strip_line line) of
        None \<Rightarrow> Some st
      | Some (kw, rest) \<Rightarrow>
          if kw = ''name'' then
            (let name = dropWhile isspace rest
             in if rest = [] then None
                else if length name \<ge> CAP_MANIFEST_MAX_NAME then None
                else if g_name st \<noteq> [] then None
                else Some (st\<lparr>g_name := name\<rparr>))
          else if kw = ''required'' then
            (if rest = [] then None
             else map_option (\<lambda>r. st\<lparr>g_required := r\<rparr>) (parse_entry rest (g_required st)))
          else if kw = ''delegatable'' then
            (if rest = [] then None
             else map_option (\<lambda>r. st\<lparr>g_delegatable := r\<rparr>) (parse_entry rest (g_delegatable st)))
          else None)"

fun parse_lines :: "string list \<Rightarrow> manifest_source \<Rightarrow> manifest_source option" where
  "parse_lines [] st = (if g_name st = [] then None else Some st)"
| "parse_lines (l # ls) st = (case parse_line l st of None \<Rightarrow> None | Some st' \<Rightarrow> parse_lines ls st')"

text \<open>\<^verbatim>\<open>fgets\<close> with a buffer of 512 bytes: a line with its newline, at most 511 bytes at a time.\<close>

function fgets_lines :: "string \<Rightarrow> string list" where
  "fgets_lines [] = []"
| "fgets_lines (c # cs) =
     (let l = takeWhile (\<lambda>x. x \<noteq> CHR 0x0A) (c # cs); n = min (min (length l + 1) 511) (length (c # cs))
      in take n (c # cs) # fgets_lines (drop n (c # cs)))"
  by pat_completeness auto
termination by (relation "measure length") (auto simp: min_def)

definition parse_source :: "string \<Rightarrow> manifest_source option" where
  "parse_source text_in =
     parse_lines (fgets_lines text_in) \<lparr>g_name = [], g_required = [], g_delegatable = []\<rparr>"

section \<open>Emitting\<close>

definition entry_bytes :: "cap_manifest_entry \<Rightarrow> byte list" where
  "entry_bytes e = le_bytes (me_type e) @ le_bytes (me_pad e) @ le_bytes64 (me_ops e)"

definition emit :: "manifest_source \<Rightarrow> byte list option" where
  "emit st =
     (let name_len = of_nat (length (g_name st)) + 1 :: u32;
          req_bytes = of_nat (length (g_required st)) * of_nat MANIFEST_ENTRY_SIZE :: u32;
          del_bytes = of_nat (length (g_delegatable st)) * of_nat MANIFEST_ENTRY_SIZE :: u32;
          required_offset = of_nat MANIFEST_HEADER_SIZE;
          delegatable_offset = required_offset + req_bytes;
          name_offset = delegatable_offset + del_bytes;
          off = name_offset + name_len;
          pad = (4 - unat (off AND 3)) mod 4;
          total_size = off + of_nat pad;
          h = le_bytes CAP_MANIFEST_MAGIC @ le_bytes16 CAP_MANIFEST_VERSION
              @ le_bytes16 (of_nat MANIFEST_HEADER_SIZE) @ le_bytes total_size @ le_bytes 0
              @ le_bytes name_offset @ le_bytes name_len
              @ le_bytes required_offset @ le_bytes (of_nat (length (g_required st)))
              @ le_bytes delegatable_offset @ le_bytes (of_nat (length (g_delegatable st)))
              @ le_bytes 0 @ le_bytes 0
      in if unat total_size > CAP_MANIFEST_MAX_BYTES then None
         else Some (h @ concat (map entry_bytes (g_required st)) @ concat (map entry_bytes (g_delegatable st))
                    @ map of_char (g_name st) @ [0] @ replicate pad 0))"

definition mkmanifest :: "string \<Rightarrow> byte list option" where
  "mkmanifest text_in = (case parse_source text_in of None \<Rightarrow> None | Some st \<Rightarrow> emit st)"

text \<open>What the parser guarantees of the accumulators.\<close>

definition source_ok :: "manifest_source \<Rightarrow> bool" where
  "source_ok st \<longleftrightarrow> g_name st \<noteq> [] \<and> length (g_name st) < CAP_MANIFEST_MAX_NAME \<and>
     length (g_required st) \<le> CAP_MANIFEST_MAX_ENTRIES \<and> length (g_delegatable st) \<le> CAP_MANIFEST_MAX_ENTRIES"

section \<open>Lemmas: the parser\<close>

lemma parse_entry_Some:
  "parse_entry args arr = Some arr' \<Longrightarrow> length arr' \<le> CAP_MANIFEST_MAX_ENTRIES"
  by (auto simp: parse_entry_def Let_def split: if_splits option.splits prod.splits)

lemma parse_line_ok:
  assumes "parse_line l st = Some st'"
    and "length (g_name st) < CAP_MANIFEST_MAX_NAME" "length (g_required st) \<le> CAP_MANIFEST_MAX_ENTRIES"
      "length (g_delegatable st) \<le> CAP_MANIFEST_MAX_ENTRIES"
  shows "length (g_name st') < CAP_MANIFEST_MAX_NAME \<and> length (g_required st') \<le> CAP_MANIFEST_MAX_ENTRIES \<and>
      length (g_delegatable st') \<le> CAP_MANIFEST_MAX_ENTRIES"
  using assms by (auto simp: parse_line_def Let_def dest: parse_entry_Some split: option.splits if_splits prod.splits)

lemma parse_lines_ok:
  "parse_lines ls st = Some st' \<Longrightarrow> length (g_name st) < CAP_MANIFEST_MAX_NAME \<Longrightarrow>
   length (g_required st) \<le> CAP_MANIFEST_MAX_ENTRIES \<Longrightarrow> length (g_delegatable st) \<le> CAP_MANIFEST_MAX_ENTRIES \<Longrightarrow>
   source_ok st'"
proof (induction ls arbitrary: st)
  case Nil
  then show ?case by (simp add: source_ok_def split: if_splits)
next
  case (Cons l ls)
  then obtain st1 where "parse_line l st = Some st1" "parse_lines ls st1 = Some st'"
    by (auto split: option.splits)
  then show ?case using Cons.IH parse_line_ok [of l st st1] Cons.prems by blast
qed

lemma parse_source_ok: "parse_source t = Some st \<Longrightarrow> source_ok st"
  unfolding parse_source_def by (erule parse_lines_ok) (simp_all add: CAP_MANIFEST_MAX_NAME_def)

section \<open>Lemmas: the emitter\<close>

lemma length_entry_bytes [simp]: "length (entry_bytes e) = 16"
  by (simp add: entry_bytes_def)

lemma length_entries [simp]: "length (concat (map entry_bytes es)) = 16 * length es"
  by (induction es) simp_all

lemma manifest_entry_at:
  assumes "length p = off" and "i < length es"
  shows "manifest_entry (p @ concat (map entry_bytes es) @ q) (off + 16 * i) = es ! i"
proof -
  have "es = take i es @ es ! i # drop (Suc i) es" using assms(2) by (simp add: id_take_nth_drop)
  then have "concat (map entry_bytes es) =
      concat (map entry_bytes (take i es)) @ entry_bytes (es ! i) @ concat (map entry_bytes (drop (Suc i) es))"
    by (metis concat.simps(2) concat_append list.simps(9) map_append)
  then have "p @ concat (map entry_bytes es) @ q = (p @ concat (map entry_bytes (take i es)))
      @ entry_bytes (es ! i) @ concat (map entry_bytes (drop (Suc i) es)) @ q" by simp
  moreover have "length (p @ concat (map entry_bytes (take i es))) = off + 16 * i" using assms by simp
  ultimately show ?thesis
    unfolding manifest_entry_def entry_bytes_def by (simp add: load_simps)
qed

text \<open>The sizes the emitter computes at 32 bits are the sizes of what it writes.\<close>

lemma emit_sizes:
  assumes "source_ok st"
  defines "r \<equiv> 48 + 16 * length (g_required st)"
  defines "n \<equiv> r + 16 * length (g_delegatable st)"
  defines "e \<equiv> n + (length (g_name st) + 1)"
  defines "pad \<equiv> (4 - e mod 4) mod 4"
  shows "emit st =
    Some (le_bytes CAP_MANIFEST_MAGIC @ le_bytes16 CAP_MANIFEST_VERSION @ le_bytes16 48 @ le_bytes (of_nat (e + pad)) @ le_bytes 0
      @ le_bytes (of_nat n) @ le_bytes (of_nat (length (g_name st) + 1)) @ le_bytes 48
      @ le_bytes (of_nat (length (g_required st))) @ le_bytes (of_nat r) @ le_bytes (of_nat (length (g_delegatable st)))
      @ le_bytes 0 @ le_bytes 0
      @ concat (map entry_bytes (g_required st)) @ concat (map entry_bytes (g_delegatable st))
      @ map of_char (g_name st) @ [0] @ replicate pad 0)"
    and "e + pad \<le> CAP_MANIFEST_MAX_BYTES"
proof -
  have "pad < 4" by (simp add: pad_def)
  then have b: "e + pad < 2 ^ 14"
    using assms(1) by (simp add: e_def n_def r_def source_ok_def CAP_MANIFEST_MAX_NAME_def CAP_MANIFEST_MAX_ENTRIES_def)
  then show "e + pad \<le> CAP_MANIFEST_MAX_BYTES" by (simp add: CAP_MANIFEST_MAX_BYTES_def)
  have w: "(of_nat MANIFEST_HEADER_SIZE + of_nat (length (g_required st)) * of_nat MANIFEST_ENTRY_SIZE :: u32) = of_nat r"
    "(of_nat r + of_nat (length (g_delegatable st)) * of_nat MANIFEST_ENTRY_SIZE :: u32) = of_nat n"
    "(of_nat n + of_nat (length (g_name st) + 1) :: u32) = of_nat e"
    "(of_nat e + of_nat pad :: u32) = of_nat (e + pad)"
    "(of_nat (length (g_name st)) + 1 :: u32) = of_nat (length (g_name st) + 1)"
    by (simp_all add: r_def n_def e_def MANIFEST_HEADER_SIZE_def MANIFEST_ENTRY_SIZE_def)
  have "unat (of_nat e AND 3 :: u32) = e mod 4"
    using unat_and_mask_mod [of "of_nat e :: u32" 2] b by (simp add: unat_of_nat mask_eq_exp_minus_1)
  then have p: "(4 - unat (of_nat e AND 3 :: u32)) mod 4 = pad" by (simp add: pad_def)
  have "unat (of_nat (e + pad) :: u32) = e + pad" using b by (simp add: unat_of_nat del: of_nat_add)
  then show "emit st = Some (le_bytes CAP_MANIFEST_MAGIC @ le_bytes16 CAP_MANIFEST_VERSION @ le_bytes16 48
      @ le_bytes (of_nat (e + pad)) @ le_bytes 0
      @ le_bytes (of_nat n) @ le_bytes (of_nat (length (g_name st) + 1)) @ le_bytes 48
      @ le_bytes (of_nat (length (g_required st))) @ le_bytes (of_nat r) @ le_bytes (of_nat (length (g_delegatable st)))
      @ le_bytes 0 @ le_bytes 0
      @ concat (map entry_bytes (g_required st)) @ concat (map entry_bytes (g_delegatable st))
      @ map of_char (g_name st) @ [0] @ replicate pad 0)"
    using b unfolding emit_def Let_def w p
    by (simp add: CAP_MANIFEST_MAX_BYTES_def MANIFEST_HEADER_SIZE_def)
qed

text \<open>The header and the entries of an emitted blob, read back.\<close>

lemma emit_header:
  assumes "source_ok st" and "emit st = Some b"
  defines "r \<equiv> 48 + 16 * length (g_required st)"
  defines "n \<equiv> r + 16 * length (g_delegatable st)"
  shows "manifest_header b = \<lparr>mh_magic = CAP_MANIFEST_MAGIC, mh_version = CAP_MANIFEST_VERSION, mh_header_size = 48,
      mh_total_size = of_nat (length b), mh_flags = 0, name_offset = of_nat n, name_length = of_nat (length (g_name st) + 1),
      required_offset = 48, required_count = of_nat (length (g_required st)),
      delegatable_offset = of_nat r, delegatable_count = of_nat (length (g_delegatable st))\<rparr>"
    and "48 \<le> length b" "length b \<le> CAP_MANIFEST_MAX_BYTES" "n + (length (g_name st) + 1) \<le> length b"
    and "b ! (n + length (g_name st)) = 0"
    and "i < length (g_required st) \<Longrightarrow> manifest_entry b (48 + 16 * i) = g_required st ! i"
proof -
  define e where "e = n + (length (g_name st) + 1)"
  define pad where "pad = (4 - e mod 4) mod 4"
  note z = emit_sizes [OF assms(1), folded r_def, folded n_def, folded e_def, folded pad_def]
  let ?h = "le_bytes CAP_MANIFEST_MAGIC @ le_bytes16 CAP_MANIFEST_VERSION @ le_bytes16 48 @ le_bytes (of_nat (e + pad)) @ le_bytes 0
      @ le_bytes (of_nat n) @ le_bytes (of_nat (length (g_name st) + 1)) @ le_bytes 48
      @ le_bytes (of_nat (length (g_required st))) @ le_bytes (of_nat r) @ le_bytes (of_nat (length (g_delegatable st)))
      @ le_bytes 0 @ le_bytes 0"
  have b: "b = ?h @ concat (map entry_bytes (g_required st)) @ concat (map entry_bytes (g_delegatable st))
      @ map of_char (g_name st) @ [0] @ replicate pad 0"
    using assms(2) unfolding z(1) by simp
  have len: "length b = e + pad" unfolding b e_def n_def r_def by simp
  show "manifest_header b = \<lparr>mh_magic = CAP_MANIFEST_MAGIC, mh_version = CAP_MANIFEST_VERSION, mh_header_size = 48,
      mh_total_size = of_nat (length b), mh_flags = 0, name_offset = of_nat n, name_length = of_nat (length (g_name st) + 1),
      required_offset = 48, required_count = of_nat (length (g_required st)),
      delegatable_offset = of_nat r, delegatable_count = of_nat (length (g_delegatable st))\<rparr>"
    unfolding len unfolding b manifest_header_def by (simp add: load_simps)
  show "48 \<le> length b" "n + (length (g_name st) + 1) \<le> length b"
    unfolding len by (simp_all add: e_def n_def r_def)
  show "length b \<le> CAP_MANIFEST_MAX_BYTES" unfolding len by (rule z(2))
  show "b ! (n + length (g_name st)) = 0"
  proof -
    have "b = (?h @ concat (map entry_bytes (g_required st)) @ concat (map entry_bytes (g_delegatable st))
      @ map of_char (g_name st)) @ 0 # replicate pad 0" unfolding b by simp
    moreover have "length (?h @ concat (map entry_bytes (g_required st)) @ concat (map entry_bytes (g_delegatable st))
      @ map of_char (g_name st)) = n + length (g_name st)" by (simp add: n_def r_def)
    ultimately show ?thesis by (metis nth_append_length)
  qed
  show "manifest_entry b (48 + 16 * i) = g_required st ! i" if "i < length (g_required st)"
    unfolding b by (rule manifest_entry_at [OF _ that]) simp
qed

lemma emit_total: "source_ok st \<Longrightarrow> \<exists>b. emit st = Some b"
  using emit_sizes(1) by blast

lemma source_small:
  assumes "source_ok st"
  shows "unat (of_nat (length (g_required st)) :: u32) = length (g_required st)"
    and "unat (of_nat (length (g_delegatable st)) :: u32) = length (g_delegatable st)"
    and "unat (of_nat (length (g_name st) + 1) :: u32) = length (g_name st) + 1"
    and "unat (of_nat (48 + 16 * length (g_required st)) :: u32) = 48 + 16 * length (g_required st)"
    and "unat (of_nat (48 + 16 * length (g_required st) + 16 * length (g_delegatable st)) :: u32) =
      48 + 16 * length (g_required st) + 16 * length (g_delegatable st)"
  using assms
  by (simp_all add: unat_of_nat source_ok_def CAP_MANIFEST_MAX_NAME_def CAP_MANIFEST_MAX_ENTRIES_def
      del: of_nat_add of_nat_mult of_nat_Suc)

lemma emit_validates:
  assumes "source_ok st" and "emit st = Some b"
  shows "cap_manifest_validate b = CAP_ERR_NONE" and "required_entries b = g_required st"
proof -
  let ?h = "manifest_header b"
  note h = emit_header [OF assms]
  note u = source_small [OF assms(1)]
  have s: "length (g_name st) < 64" "length (g_required st) \<le> 64" "length (g_delegatable st) \<le> 64" "g_name st \<noteq> []"
    using assms(1) by (simp_all add: source_ok_def CAP_MANIFEST_MAX_NAME_def CAP_MANIFEST_MAX_ENTRIES_def)
  have len: "unat (of_nat (length b) :: u32) = length b"
    using h(3) by (simp add: unat_of_nat CAP_MANIFEST_MAX_BYTES_def)
  have f: "unat (name_length ?h) = length (g_name st) + 1" "unat (required_count ?h) = length (g_required st)"
    "unat (delegatable_count ?h) = length (g_delegatable st)" "unat (required_offset ?h) = 48"
    "unat (delegatable_offset ?h) = 48 + 16 * length (g_required st)"
    "unat (name_offset ?h) = 48 + 16 * length (g_required st) + 16 * length (g_delegatable st)"
    unfolding h(1) using u by simp_all
  have c: "unat (required_count ?h * of_nat MANIFEST_ENTRY_SIZE) = 16 * length (g_required st)"
    "unat (delegatable_count ?h * of_nat MANIFEST_ENTRY_SIZE) = 16 * length (g_delegatable st)"
    using count_bytes [of "required_count ?h"] count_bytes [of "delegatable_count ?h"] f s by simp_all
  have nz: "name_length ?h \<noteq> 0" using f(1) by (metis Suc_eq_plus1 nat.simps(3) unat_0)
  then have "unat (name_length ?h - 1) = length (g_name st)" using f(1) by (simp add: unat_minus_one)
  then show "cap_manifest_validate b = CAP_ERR_NONE"
    unfolding cap_manifest_validate_def Let_def range_ok_iff len c f
    using h(1-5) s nz by (simp add: MANIFEST_HEADER_SIZE_def CAP_MANIFEST_MAX_NAME_def CAP_MANIFEST_MAX_ENTRIES_def)
  show "required_entries b = g_required st"
    unfolding required_entries_def f MANIFEST_ENTRY_SIZE_def
    by (rule nth_equalityI) (simp_all add: h(6))
qed

section \<open>Properties\<close>



end
