(* ===== verification/Id_Table.thy ===== *)
theory Id_Table
  imports Uros_Prelude
begin

text \<open>
  Chained hash tables as the kernel and the capability server write them: an array of buckets,
  each a singly linked list searched from its head; new entries go to the head and entries are
  changed in place.  The laws of \<^verbatim>\<open>id_store\<close> are proved once here, for any hash function.
\<close>

fun chain_find :: "('e \<Rightarrow> 'k) \<Rightarrow> 'k \<Rightarrow> 'e list \<Rightarrow> 'e option" where
  "chain_find key k [] = None"
| "chain_find key k (e # es) = (if key e = k then Some e else chain_find key k es)"

fun chain_change :: "('e \<Rightarrow> 'k) \<Rightarrow> 'k \<Rightarrow> ('e \<Rightarrow> 'e) \<Rightarrow> 'e list \<Rightarrow> 'e list" where
  "chain_change key k f [] = []"
| "chain_change key k f (e # es) = (if key e = k then f e # es else e # chain_change key k f es)"

definition bucket_find :: "('k \<Rightarrow> nat) \<Rightarrow> ('e \<Rightarrow> 'k) \<Rightarrow> 'k \<Rightarrow> 'e list list \<Rightarrow> 'e option" where
  "bucket_find h key k B = chain_find key k (B ! h k)"

definition bucket_add :: "('k \<Rightarrow> nat) \<Rightarrow> ('e \<Rightarrow> 'k) \<Rightarrow> 'e \<Rightarrow> 'e list list \<Rightarrow> 'e list list" where
  "bucket_add h key e B = B[h (key e) := e # B ! h (key e)]"

definition bucket_change :: "('k \<Rightarrow> nat) \<Rightarrow> ('e \<Rightarrow> 'k) \<Rightarrow> 'k \<Rightarrow> ('e \<Rightarrow> 'e) \<Rightarrow> 'e list list \<Rightarrow> 'e list list" where
  "bucket_change h key k f B = B[h k := chain_change key k f (B ! h k)]"

text \<open>Every entry is in the bucket of its key, and no chain has two entries with the same key.\<close>

definition bucket_ok :: "('k \<Rightarrow> nat) \<Rightarrow> ('e \<Rightarrow> 'k) \<Rightarrow> nat \<Rightarrow> 'e list list \<Rightarrow> bool" where
  "bucket_ok h key n B \<longleftrightarrow> length B = n \<and>
     (\<forall>b < n. distinct (map key (B ! b)) \<and> (\<forall>e \<in> set (B ! b). h (key e) = b))"

section \<open>Lemmas\<close>

lemma chain_find_None: "chain_find key k es = None \<longleftrightarrow> k \<notin> set (map key es)"
  by (induction es) auto

lemma chain_find_SomeD: "chain_find key k es = Some e \<Longrightarrow> e \<in> set es \<and> key e = k"
  by (induction es) (auto split: if_splits)

lemma chain_change_keys: "(\<And>e. key (f e) = key e) \<Longrightarrow> map key (chain_change key k f es) = map key es"
  by (induction es) simp_all

lemma chain_change_set: "set (chain_change key k f es) \<subseteq> set es \<union> f ` {e \<in> set es. key e = k}"
  by (induction es) auto

lemma chain_find_change:
  "(\<And>e. key (f e) = key e) \<Longrightarrow>
   chain_find key k' (chain_change key k f es) =
     (if k' = k then map_option f (chain_find key k es) else chain_find key k' es)"
  by (induction es) auto

lemma bucket_ok_empty: "(\<And>k. h k < n) \<Longrightarrow> bucket_ok h key n (replicate n [])"
  by (simp add: bucket_ok_def)

lemma bucket_find_empty [simp]: "h k < n \<Longrightarrow> bucket_find h key k (replicate n []) = None"
  by (simp add: bucket_find_def)

lemma bucket_ok_add:
  assumes "bucket_ok h key n B" and "\<And>k. h k < n" and "bucket_find h key (key e) B = None"
  shows "bucket_ok h key n (bucket_add h key e B)"
  using assms unfolding bucket_ok_def bucket_add_def bucket_find_def chain_find_None
  by (auto simp: nth_list_update)

lemma bucket_ok_change:
  assumes "bucket_ok h key n B" and "\<And>k. h k < n" and "\<And>e. key (f e) = key e"
  shows "bucket_ok h key n (bucket_change h key k f B)"
proof -
  have B: "length B = n" "\<And>b. b < n \<Longrightarrow> distinct (map key (B ! b))" "\<And>b e. b < n \<Longrightarrow> e \<in> set (B ! b) \<Longrightarrow> h (key e) = b"
    using assms(1) by (simp_all add: bucket_ok_def)
  have c: "h (key e) = h k" if e: "e \<in> set (chain_change key k f (B ! h k))" for e
  proof -
    consider "e \<in> set (B ! h k)" | x where "x \<in> set (B ! h k)" "e = f x"
      using e chain_change_set [of key k f "B ! h k"] by blast
    then show ?thesis
    proof cases
      case 1
      then show ?thesis by (rule B(3) [OF assms(2)])
    next
      case 2
      then show ?thesis using B(3) [OF assms(2)] assms(3) by metis
    qed
  qed
  moreover have "distinct (map key (chain_change key k f (B ! h k)))"
    using chain_change_keys [of key f k "B ! h k"] B(2) [OF assms(2)] assms(3) by simp
  ultimately show ?thesis
    unfolding bucket_ok_def bucket_change_def
    using B(1,2) c B(3) assms(2) by (auto simp: nth_list_update)
qed

lemma bucket_find_add:
  assumes "bucket_ok h key n B" and "\<And>k. h k < n"
  shows "bucket_find h key k (bucket_add h key e B) = (if k = key e then Some e else bucket_find h key k B)"
  using assms by (auto simp: bucket_ok_def bucket_find_def bucket_add_def nth_list_update)

lemma bucket_find_change:
  assumes "bucket_ok h key n B" and "\<And>k. h k < n" and "\<And>e. key (f e) = key e"
  shows "bucket_find h key k' (bucket_change h key k f B) =
    (if k' = k then map_option f (bucket_find h key k B) else bucket_find h key k' B)"
  using assms by (auto simp: bucket_ok_def bucket_find_def bucket_change_def nth_list_update chain_find_change)

lemma id_store_buckets:
  fixes h :: "'k \<Rightarrow> nat" and key :: "'e \<Rightarrow> 'k"
  assumes "\<And>k. h k < n"
  shows "id_store (bucket_ok h key n) (bucket_find h key) (bucket_add h key) (bucket_change h key) key"
proof
  fix s :: "'e list list" and e k k' and f :: "'e \<Rightarrow> 'e"
  assume ok: "bucket_ok h key n s"
  show "bucket_ok h key n (bucket_add h key e s)" if "bucket_find h key (key e) s = None"
    by (rule bucket_ok_add [OF ok assms that])
  show "bucket_find h key k (bucket_add h key e s) = (if k = key e then Some e else bucket_find h key k s)"
    by (rule bucket_find_add [OF ok assms])
  assume f: "\<And>e. key (f e) = key e"
  show "bucket_ok h key n (bucket_change h key k f s)" by (rule bucket_ok_change [OF ok assms f])
  show "bucket_find h key k' (bucket_change h key k f s) =
      (if k' = k then map_option f (bucket_find h key k s) else bucket_find h key k' s)"
    by (rule bucket_find_change [OF ok assms f])
qed

end
