(* ===== verification/Cap_Server.thy ===== *)
theory Cap_Server
  imports Cap_Manifest Id_Table
begin

text \<open>
  The capability server: \<^verbatim>\<open>cap_server/cap_table.c\<close> (hash tables of issued tokens, signing) and
  \<^verbatim>\<open>cap_server/cap_server.c\<close> (the request handlers).  Token buffers are byte lists.  Entries live
  in the chains of the table indexed by identifier; the two other indexes, which share the
  entries, hold their identifiers.  Calls to the kernel and to subscribers are appended to a
  log and answered by a parameter; what has ever been signed is kept in a history variable.
\<close>

section \<open>The table of issued capabilities\<close>

record cap_entry =
  ce_token :: uros_cap
  ce_sender :: mach_port

definition CAP_BUCKETS :: nat where "CAP_BUCKETS = 256"

text \<open>Calls out of the server.\<close>

datatype scall =
    Malloc
  | Cap_revoke_notify mach_port u64
  | Mach_port_deallocate mach_port
  | Mach_port_allocate
  | Mach_port_move_member mach_port mach_port
  | Mach_port_destroy mach_port
  | Mach_port_insert_right mach_port

text \<open>The answer: a return code (non-zero for a null pointer from \<^verbatim>\<open>malloc\<close>) and a port.\<close>

type_synonym sanswer = "scall list \<Rightarrow> scall \<Rightarrow> kern_return \<times> mach_port"

record cap_srv =
  bucket_by_id :: "cap_entry list list"
  bucket_by_owner :: "u64 list list"
  bucket_by_parent :: "u64 list list"
  next_cap_id :: u64
  cap_hmac_key :: "byte list"
  revoke_subscribers :: "mach_port list"
  g_table :: "manifest_slot list"
  cap_port :: mach_port
  cap_port_set :: mach_port
  g_request_local_port :: mach_port
  scalls :: "scall list"
  signed_bodies :: "byte list set"

definition entry_id :: "cap_entry \<Rightarrow> u64" where
  "entry_id e = cap_id (ce_token e)"

definition hash64 :: "u64 \<Rightarrow> nat" where
  "hash64 x =
     (let x = x XOR drop_bit 33 x; x = x * 0xff51afd7ed558ccd;
          x = x XOR drop_bit 33 x; x = x * 0xc4ceb9fe1a85ec53;
          x = x XOR drop_bit 33 x
      in unat (x AND (of_nat CAP_BUCKETS - 1)))"

definition hash_port :: "mach_port \<Rightarrow> nat" where
  "hash_port p = hash64 (ucast p)"

definition cap_table_init :: "cap_srv \<Rightarrow> cap_srv" where
  "cap_table_init s = s\<lparr>bucket_by_id := replicate CAP_BUCKETS [], bucket_by_owner := replicate CAP_BUCKETS [],
     bucket_by_parent := replicate CAP_BUCKETS [], next_cap_id := 1\<rparr>"

definition cap_table_alloc_id :: "cap_srv \<Rightarrow> u64 \<times> cap_srv" where
  "cap_table_alloc_id s = (next_cap_id s, s\<lparr>next_cap_id := next_cap_id s + 1\<rparr>)"

definition cap_table_insert :: "cap_entry \<Rightarrow> cap_srv \<Rightarrow> cap_srv" where
  "cap_table_insert e s =
     (let s = s\<lparr>bucket_by_id := bucket_add hash64 entry_id e (bucket_by_id s)\<rparr>;
          h = hash_port (ce_sender e);
          s = s\<lparr>bucket_by_owner := (bucket_by_owner s)[h := entry_id e # bucket_by_owner s ! h]\<rparr>;
          h = hash64 (parent_cap_id (ce_token e))
      in if parent_cap_id (ce_token e) \<noteq> 0
         then s\<lparr>bucket_by_parent := (bucket_by_parent s)[h := entry_id e # bucket_by_parent s ! h]\<rparr>
         else s)"

definition cap_table_find_by_id :: "u64 \<Rightarrow> cap_srv \<Rightarrow> cap_entry option" where
  "cap_table_find_by_id c s = bucket_find hash64 entry_id c (bucket_by_id s)"

definition cap_table_find_children :: "u64 \<Rightarrow> cap_srv \<Rightarrow> u64 list" where
  "cap_table_find_children c s = bucket_by_parent s ! hash64 c"

text \<open>Writing through an entry pointer.\<close>

definition entry_change :: "u64 \<Rightarrow> (cap_entry \<Rightarrow> cap_entry) \<Rightarrow> cap_srv \<Rightarrow> cap_srv" where
  "entry_change c f s = s\<lparr>bucket_by_id := bucket_change hash64 entry_id c f (bucket_by_id s)\<rparr>"

text \<open>\<^verbatim>\<open>cap_sign\<close> on a token of the server, with the history of signed bodies.\<close>

definition sign_token :: "uros_cap \<Rightarrow> cap_srv \<Rightarrow> uros_cap \<times> cap_srv" where
  "sign_token t s =
     (cap_sign (cap_hmac_key s) t, s\<lparr>signed_bodies := insert (cap_body t) (signed_bodies s)\<rparr>)"

text \<open>
  Changing a field of the token of an entry and signing it again, in place.  The entry pointer
  is the one found under identifier \<open>c\<close>.
\<close>

definition resign_entry :: "(uros_cap \<Rightarrow> uros_cap) \<Rightarrow> u64 \<Rightarrow> cap_srv \<Rightarrow> cap_srv" where
  "resign_entry f c s =
     (case cap_table_find_by_id c s of
        None \<Rightarrow> s
      | Some e \<Rightarrow>
          entry_change c (\<lambda>e. e\<lparr>ce_token := cap_sign (cap_hmac_key s) (f (ce_token e))\<rparr>)
            (snd (sign_token (f (ce_token e)) s)))"

definition cap_table_mark_revoked :: "u64 \<Rightarrow> cap_srv \<Rightarrow> cap_srv" where
  "cap_table_mark_revoked c s = resign_entry (\<lambda>t. t\<lparr>revoked := 1\<rparr>) c s"

section \<open>The key\<close>

text \<open>\<open>tsc\<close> and \<open>self\<close> are the time stamp counter and the port name the seed is built from.\<close>

definition cap_key_init :: "u64 \<Rightarrow> u32 \<Rightarrow> cap_srv \<Rightarrow> cap_srv" where
  "cap_key_init tsc self s = s\<lparr>cap_hmac_key := fst (sha256 cpuid_plain fresh_dispatch stack_junk
     (le_bytes64 tsc @ le_bytes self @ le_bytes 0x4d724855 @ le_bytes 0x635f6863 @ le_bytes 0x765f7061
      @ le_bytes 0x00003100 @ le_bytes 0x51b2a64f @ le_bytes 0x9e87cd32))\<rparr>"

text \<open>The token with which the key is handed to the kernel.\<close>

definition cap_key_export_token :: "cap_srv \<Rightarrow> uros_cap" where
  "cap_key_export_token s = zero_cap\<lparr>cap_id := 0, cap_hmac := cap_hmac_key s\<rparr>"

section \<open>Calls\<close>

definition scall :: "sanswer \<Rightarrow> scall \<Rightarrow> cap_srv \<Rightarrow> (kern_return \<times> mach_port) \<times> cap_srv" where
  "scall A c s = (A (scalls s) c, s\<lparr>scalls := scalls s @ [c]\<rparr>)"

definition sdo :: "scall \<Rightarrow> cap_srv \<Rightarrow> cap_srv" where
  "sdo c s = s\<lparr>scalls := scalls s @ [c]\<rparr>"

section \<open>Revocation subscribers\<close>

definition CAP_MAX_REVOKE_SUBSCRIBERS :: nat where "CAP_MAX_REVOKE_SUBSCRIBERS = 8"

definition revoke_subscribers_contains :: "mach_port \<Rightarrow> cap_srv \<Rightarrow> bool" where
  "revoke_subscribers_contains p s \<longleftrightarrow> p \<in> set (revoke_subscribers s)"

text \<open>The last subscriber moves into the hole.\<close>

definition revoke_subscribers_remove_at :: "nat \<Rightarrow> cap_srv \<Rightarrow> cap_srv" where
  "revoke_subscribers_remove_at i s =
     (let s = sdo (Mach_port_deallocate (revoke_subscribers s ! i)) s; xs = revoke_subscribers s
      in s\<lparr>revoke_subscribers := butlast (xs[i := last xs])\<rparr>)"

function fanout_from :: "sanswer \<Rightarrow> u64 \<Rightarrow> nat \<Rightarrow> cap_srv \<Rightarrow> cap_srv" where
  "fanout_from A c i s =
     (if i < length (revoke_subscribers s)
      then if fst (fst (scall A (Cap_revoke_notify (revoke_subscribers s ! i) c) s)) \<noteq> KERN_SUCCESS
           then fanout_from A c i
                  (revoke_subscribers_remove_at i (snd (scall A (Cap_revoke_notify (revoke_subscribers s ! i) c) s)))
           else fanout_from A c (i + 1) (snd (scall A (Cap_revoke_notify (revoke_subscribers s ! i) c) s))
      else s)"
  by pat_completeness auto
termination
  by (relation "measure (\<lambda>(A, c, i, s). length (revoke_subscribers s) - i)")
    (auto simp: scall_def revoke_subscribers_remove_at_def sdo_def Let_def)

definition fanout_revoke_notify :: "sanswer \<Rightarrow> u64 \<Rightarrow> cap_srv \<Rightarrow> cap_srv" where
  "fanout_revoke_notify A c s = fanout_from A c 0 s"

declare fanout_from.simps [simp del]

definition cap_subscribe_revoke :: "mach_port \<Rightarrow> cap_srv \<Rightarrow> kern_return \<times> cap_srv" where
  "cap_subscribe_revoke p s =
     (if p = MACH_PORT_NULL then (CAP_ERR_INVALID_TOKEN, s)
      else if revoke_subscribers_contains p s then (KERN_SUCCESS, sdo (Mach_port_deallocate p) s)
      else if length (revoke_subscribers s) \<ge> CAP_MAX_REVOKE_SUBSCRIBERS
      then (CAP_ERR_NO_MEMORY, sdo (Mach_port_deallocate p) s)
      else (KERN_SUCCESS, s\<lparr>revoke_subscribers := revoke_subscribers s @ [p]\<rparr>))"

section \<open>Issuing\<close>

definition policy_allows_v1 :: "mach_port \<Rightarrow> u32 \<Rightarrow> u64 \<Rightarrow> bool" where
  "policy_allows_v1 sender rtype ops = True"

definition manifest_denies :: "u32 \<Rightarrow> u64 \<Rightarrow> cap_srv \<Rightarrow> bool" where
  "manifest_denies rtype ops s \<longleftrightarrow>
     g_request_local_port s \<noteq> MACH_PORT_NULL \<and> g_request_local_port s \<noteq> cap_port s \<and>
     (case cap_manifest_table_get (g_request_local_port s) (g_table s) of
        None \<Rightarrow> False
      | Some m \<Rightarrow> \<not> cap_manifest_allows (Some m) rtype ops)"

text \<open>\<open>len\<close> is the room in the reply buffer; the token goes back as bytes.\<close>

definition cap_acquire ::
  "sanswer \<Rightarrow> u32 \<Rightarrow> u64 \<Rightarrow> u64 \<Rightarrow> u32 \<Rightarrow> nat \<Rightarrow> cap_srv \<Rightarrow> (kern_return \<times> byte list) \<times> cap_srv" where
  "cap_acquire A rtype rid ops lifetime len s =
     (if len < CAP_TOKEN_SIZE then ((CAP_ERR_NO_MEMORY, []), s)
      else if \<not> policy_allows_v1 MACH_PORT_NULL rtype ops then ((CAP_ERR_POLICY_DENIED, []), s)
      else if manifest_denies rtype ops s then ((CAP_ERR_NOT_IN_MANIFEST, []), s)
      else
        (let ((kr, _), s) = scall A Malloc s
         in if kr \<noteq> KERN_SUCCESS then ((CAP_ERR_NO_MEMORY, []), s)
            else
              (let (i, s) = cap_table_alloc_id s;
                   t = zero_cap\<lparr>cap_id := i, resource_type := rtype, resource_id := rid, allowed_ops := ops,
                         delegable := 1\<rparr>;
                   (t, s) = sign_token t s;
                   s = cap_table_insert \<lparr>ce_token = t, ce_sender = MACH_PORT_NULL\<rparr> s
               in ((KERN_SUCCESS, cap_bytes t), s))))"

definition cap_derive ::
  "sanswer \<Rightarrow> byte list \<Rightarrow> u64 \<Rightarrow> u32 \<Rightarrow> nat \<Rightarrow> cap_srv \<Rightarrow> (kern_return \<times> byte list) \<times> cap_srv" where
  "cap_derive A parent_buf reduced_ops lifetime child_len s =
     (let parent = cap_of_bytes parent_buf
      in if length parent_buf \<noteq> CAP_TOKEN_SIZE then ((CAP_ERR_INVALID_TOKEN, []), s)
         else if child_len < CAP_TOKEN_SIZE then ((CAP_ERR_NO_MEMORY, []), s)
         else if \<not> cap_verify_hmac (cap_hmac_key s) parent then ((CAP_ERR_INVALID_TOKEN, []), s)
         else if revoked parent \<noteq> 0 then ((CAP_ERR_REVOKED, []), s)
         else if delegable parent = 0 then ((CAP_ERR_NOT_DELEGABLE, []), s)
         else if unat (cap_depth parent) + 1 > CAP_MAX_DEPTH then ((CAP_ERR_DEPTH_EXCEEDED, []), s)
         else if reduced_ops AND NOT (allowed_ops parent) \<noteq> 0 then ((CAP_ERR_OP_NOT_ALLOWED, []), s)
         else case cap_table_find_by_id (cap_id parent) s of
                None \<Rightarrow> ((CAP_ERR_REVOKED, []), s)
              | Some pe \<Rightarrow>
                  if revoked (ce_token pe) \<noteq> 0 then ((CAP_ERR_REVOKED, []), s)
                  else
                    (let ((kr, _), s) = scall A Malloc s
                     in if kr \<noteq> KERN_SUCCESS then ((CAP_ERR_NO_MEMORY, []), s)
                        else
                          (let (i, s) = cap_table_alloc_id s;
                               t = parent\<lparr>cap_id := i, allowed_ops := reduced_ops, parent_cap_id := cap_id parent,
                                     cap_depth := cap_depth parent + 1, first_child_cap_id := 0,
                                     next_sibling_cap_id := first_child_cap_id (ce_token pe)\<rparr>;
                               (t, s) = sign_token t s;
                               s = cap_table_insert \<lparr>ce_token = t, ce_sender = MACH_PORT_NULL\<rparr> s;
                               s = resign_entry (\<lambda>t. t\<lparr>first_child_cap_id := i\<rparr>) (cap_id parent) s
                           in ((KERN_SUCCESS, cap_bytes t), s))))"

section \<open>Revoking\<close>

text \<open>Pushing a chain of siblings, as far as the stack of 17 identifiers has room.\<close>

function push_children :: "cap_srv \<Rightarrow> u64 \<Rightarrow> u64 list \<Rightarrow> u64 list" where
  "push_children s child stack =
     (if child \<noteq> 0 \<and> length stack \<le> CAP_MAX_DEPTH
      then (case cap_table_find_by_id child s of
              None \<Rightarrow> child # stack
            | Some c \<Rightarrow> push_children s (next_sibling_cap_id (ce_token c)) (child # stack))
      else stack)"
  by pat_completeness auto
termination by (relation "measure (\<lambda>(s, child, stack). CAP_MAX_DEPTH + 1 - length stack)") auto

declare push_children.simps [simp del]

text \<open>The marking loop: the number of capabilities revoked and the state it leaves.\<close>

partial_function (option) revoke_loop :: "u64 list \<Rightarrow> nat \<Rightarrow> cap_srv \<Rightarrow> (nat \<times> cap_srv) option" where
  "revoke_loop stack n s =
     (case stack of
        [] \<Rightarrow> Some (n, s)
      | c # stack \<Rightarrow>
          (case cap_table_find_by_id c s of
             None \<Rightarrow> revoke_loop stack n s
           | Some e \<Rightarrow>
               if revoked (ce_token e) \<noteq> 0 then revoke_loop stack n s
               else revoke_loop (push_children (cap_table_mark_revoked c s) (first_child_cap_id (ce_token e)) stack)
                      (n + 1) (cap_table_mark_revoked c s)))"

text \<open>The second walk, which tells the subscribers.\<close>

partial_function (option) notify_loop :: "sanswer \<Rightarrow> u64 list \<Rightarrow> cap_srv \<Rightarrow> cap_srv option" where
  "notify_loop A stack s =
     (case stack of
        [] \<Rightarrow> Some s
      | c # stack \<Rightarrow>
          (case cap_table_find_by_id c s of
             None \<Rightarrow> notify_loop A stack s
           | Some e \<Rightarrow>
               notify_loop A (push_children (fanout_revoke_notify A c s) (first_child_cap_id (ce_token e)) stack)
                 (fanout_revoke_notify A c s)))"

definition cap_revoke :: "sanswer \<Rightarrow> u64 \<Rightarrow> cap_srv \<Rightarrow> (kern_return \<times> cap_srv) option" where
  "cap_revoke A c s =
     (case cap_table_find_by_id c s of
        None \<Rightarrow> Some (CAP_ERR_INVALID_TOKEN, s)
      | Some _ \<Rightarrow>
          (case revoke_loop [c] 0 s of
             None \<Rightarrow> None
           | Some (n, s) \<Rightarrow>
               if revoke_subscribers s \<noteq> [] \<and> n > 0
               then map_option (\<lambda>s. (KERN_SUCCESS, s)) (notify_loop A [c] s)
               else Some (KERN_SUCCESS, s)))"

section \<open>Verifying and provisioning\<close>

definition cap_verify :: "byte list \<Rightarrow> u64 \<Rightarrow> u64 \<Rightarrow> cap_srv \<Rightarrow> kern_return" where
  "cap_verify token_buf op rid s =
     (let token = cap_of_bytes token_buf
      in if length token_buf \<noteq> CAP_TOKEN_SIZE then CAP_ERR_INVALID_TOKEN
         else if \<not> cap_verify_hmac (cap_hmac_key s) token then CAP_ERR_INVALID_TOKEN
         else if revoked token \<noteq> 0 then CAP_ERR_REVOKED
         else if resource_id token \<noteq> rid then CAP_ERR_RESOURCE_MISMATCH
         else if op AND NOT (allowed_ops token) \<noteq> 0 then CAP_ERR_OP_NOT_ALLOWED
         else case cap_table_find_by_id (cap_id token) s of
                Some e \<Rightarrow> if revoked (ce_token e) \<noteq> 0 then CAP_ERR_REVOKED else KERN_SUCCESS
              | None \<Rightarrow> KERN_SUCCESS)"

text \<open>The installation of the manifest, which allocates its copy only once it has a slot.\<close>

definition provision_install :: "sanswer \<Rightarrow> mach_port \<Rightarrow> byte list \<Rightarrow> cap_srv \<Rightarrow> kern_return \<times> cap_srv" where
  "provision_install A p manifest s =
     (let malloc_ok = (fst (A (scalls s) Malloc) = KERN_SUCCESS);
          (vrc, T) = cap_manifest_table_install malloc_ok p manifest (g_table s);
          s = (if fst (install_slot p (g_table s)) = None then s else sdo Malloc s)
      in (vrc, s\<lparr>g_table := T\<rparr>))"

definition cap_provision_task ::
  "sanswer \<Rightarrow> byte list \<Rightarrow> cap_srv \<Rightarrow> (kern_return \<times> mach_port) \<times> cap_srv" where
  "cap_provision_task A manifest s =
     (let vrc = cap_manifest_validate manifest
      in if vrc \<noteq> CAP_ERR_NONE then ((vrc, MACH_PORT_NULL), s)
         else
           (let ((kr, new_port), s) = scall A Mach_port_allocate s
            in if kr \<noteq> KERN_SUCCESS then ((CAP_ERR_NO_MEMORY, MACH_PORT_NULL), s)
               else
                 (let ((kr, _), s) = scall A (Mach_port_move_member new_port (cap_port_set s)) s
                  in if kr \<noteq> KERN_SUCCESS
                     then ((CAP_ERR_INTERNAL, MACH_PORT_NULL), sdo (Mach_port_destroy new_port) s)
                     else
                       (let (vrc, s) = provision_install A new_port manifest s
                        in if vrc \<noteq> CAP_ERR_NONE
                           then ((vrc, MACH_PORT_NULL), sdo (Mach_port_destroy new_port) s)
                           else
                             (let ((kr, _), s) = scall A (Mach_port_insert_right new_port) s
                              in if kr \<noteq> KERN_SUCCESS
                                 then ((CAP_ERR_INTERNAL, MACH_PORT_NULL), sdo (Mach_port_destroy new_port) s)
                                 else ((KERN_SUCCESS, new_port), s))))))"

section \<open>Dispatch\<close>

datatype cap_request =
    Acquire u32 u64 u64 u32 nat
  | Derive "byte list" u64 u32 nat
  | Revoke u64
  | Subscribe mach_port
  | Provision "byte list"
  | Verify "byte list" u64 u64

fun cap_handle :: "sanswer \<Rightarrow> cap_request \<Rightarrow> cap_srv \<Rightarrow> cap_srv option" where
  "cap_handle A (Acquire rtype rid ops l n) s = Some (snd (cap_acquire A rtype rid ops l n s))"
| "cap_handle A (Derive b ops l m) s = Some (snd (cap_derive A b ops l m s))"
| "cap_handle A (Revoke c) s = map_option snd (cap_revoke A c s)"
| "cap_handle A (Subscribe p) s = Some (snd (cap_subscribe_revoke p s))"
| "cap_handle A (Provision b) s = Some (snd (cap_provision_task A b s))"
| "cap_handle A (Verify b op rid) s = Some s"

text \<open>\<^verbatim>\<open>cap_demux\<close>: the receive port of the request is known while it is handled.\<close>

definition cap_demux :: "sanswer \<Rightarrow> mach_port \<times> cap_request \<Rightarrow> cap_srv \<Rightarrow> cap_srv option" where
  "cap_demux A r s =
     map_option (\<lambda>s. s\<lparr>g_request_local_port := MACH_PORT_NULL\<rparr>)
       (cap_handle A (snd r) (s\<lparr>g_request_local_port := fst r\<rparr>))"

definition cap_start :: "u64 \<Rightarrow> u32 \<Rightarrow> mach_port \<Rightarrow> mach_port \<Rightarrow> cap_srv" where
  "cap_start tsc self p ps =
     cap_table_init (cap_key_init tsc self
       \<lparr>bucket_by_id = [], bucket_by_owner = [], bucket_by_parent = [], next_cap_id = 0, cap_hmac_key = [],
        revoke_subscribers = [], g_table = cap_manifest_table_init, cap_port = p, cap_port_set = ps,
        g_request_local_port = MACH_PORT_NULL, scalls = [], signed_bodies = {}\<rparr>)"

end
