(* ===== verification/Cap_Server_Inv.thy ===== *)
theory Cap_Server_Inv
  imports Cap_Server
begin

text \<open>
  The table of issued capabilities as a store, the invariant of the capability server (the
  left-child right-sibling tree of delegations, the authority of each capability bounded by its
  parent's, every signed body one of an issued capability) and its preservation by the handlers.
\<close>

section \<open>Vocabulary\<close>

definition srv_ok :: "cap_srv \<Rightarrow> bool" where
  "srv_ok s \<longleftrightarrow> bucket_ok hash64 entry_id CAP_BUCKETS (bucket_by_id s)"

definition tok :: "cap_srv \<Rightarrow> u64 \<rightharpoonup> uros_cap" where
  "tok s c = map_option ce_token (cap_table_find_by_id c s)"

text \<open>What never changes in an issued token, and what revocation leaves alone.\<close>

definition fixed :: "uros_cap \<Rightarrow> uros_cap" where
  "fixed t = t\<lparr>revoked := 0, first_child_cap_id := 0, cap_hmac := []\<rparr>"

definition shape :: "uros_cap \<Rightarrow> uros_cap" where
  "shape t = t\<lparr>revoked := 0, cap_hmac := []\<rparr>"

fun sib_chain :: "(u64 \<rightharpoonup> uros_cap) \<Rightarrow> u64 \<Rightarrow> u64 list \<Rightarrow> bool" where
  "sib_chain m c [] \<longleftrightarrow> c = 0"
| "sib_chain m c (x # xs) \<longleftrightarrow> c = x \<and> x \<noteq> 0 \<and> (\<exists>t. m x = Some t \<and> sib_chain m (next_sibling_cap_id t) xs)"

definition children :: "(u64 \<rightharpoonup> uros_cap) \<Rightarrow> u64 \<Rightarrow> u64 set" where
  "children m p = {c. \<exists>t. m c = Some t \<and> parent_cap_id t = p}"

definition tree_ok :: "(u64 \<rightharpoonup> uros_cap) \<Rightarrow> bool" where
  "tree_ok m \<longleftrightarrow> (\<forall>p t. m p = Some t \<longrightarrow> cap_id t = p \<and> p \<noteq> 0 \<and>
     (\<exists>cs. sib_chain m (first_child_cap_id t) cs \<and> distinct cs \<and> set cs = children m p) \<and>
     (\<forall>c \<in> children m p. p < c))"

definition bounded_by_parent :: "(u64 \<rightharpoonup> uros_cap) \<Rightarrow> uros_cap \<Rightarrow> bool" where
  "bounded_by_parent m t \<longleftrightarrow>
     (if parent_cap_id t = 0 then cap_depth t = 0
      else \<exists>p. m (parent_cap_id t) = Some p \<and> allowed_ops t AND NOT (allowed_ops p) = 0 \<and>
             resource_type t = resource_type p \<and> resource_id t = resource_id p \<and>
             unat (cap_depth t) = unat (cap_depth p) + 1 \<and> unat (cap_depth t) \<le> CAP_MAX_DEPTH)"

definition signed_ok :: "cap_srv \<Rightarrow> bool" where
  "signed_ok s \<longleftrightarrow> (\<forall>b \<in> signed_bodies s.
     \<exists>t t'. b = cap_body t \<and> cap_wf t \<and> tok s (cap_id t) = Some t' \<and> fixed t = fixed t')"

definition srv_inv :: "cap_srv \<Rightarrow> bool" where
  "srv_inv s \<longleftrightarrow> srv_ok s \<and> tree_ok (tok s) \<and> (\<forall>c t. tok s c = Some t \<longrightarrow> bounded_by_parent (tok s) t \<and> cap_wf t) \<and>
     signed_ok s \<and> next_cap_id s \<noteq> 0 \<and> (\<forall>c. tok s c \<noteq> None \<longrightarrow> c < next_cap_id s)"

definition same_shape :: "(u64 \<rightharpoonup> uros_cap) \<Rightarrow> (u64 \<rightharpoonup> uros_cap) \<Rightarrow> bool" where
  "same_shape m m' \<longleftrightarrow> (\<forall>c. map_option shape (m' c) = map_option shape (m c))"

definition dead :: "(u64 \<rightharpoonup> uros_cap) \<Rightarrow> u64 \<Rightarrow> bool" where
  "dead m c \<longleftrightarrow> (\<exists>t. m c = Some t \<and> revoked t \<noteq> 0)"

definition live :: "cap_srv \<Rightarrow> u64 set" where
  "live s = {c. \<exists>t. tok s c = Some t \<and> revoked t = 0}"

text \<open>No token passes the check of its hash unless the server signed its body.\<close>

definition unforged :: "byte list \<Rightarrow> cap_srv \<Rightarrow> bool" where
  "unforged b s \<longleftrightarrow> (length b = CAP_TOKEN_SIZE \<longrightarrow> cap_verify_hmac (cap_hmac_key s) (cap_of_bytes b) \<longrightarrow>
     cap_body (cap_of_bytes b) \<in> signed_bodies s)"

section \<open>The table implements the store\<close>

lemma hash64_less: "hash64 x < CAP_BUCKETS"
proof -
  have "unat (y AND 255 :: u64) < 256" for y
    using unat_and_mask_mod [of y 8] by (simp add: mask_eq_exp_minus_1)
  then show ?thesis by (simp add: hash64_def Let_def CAP_BUCKETS_def)
qed

lemmas sbuckets = id_store_buckets [of hash64 CAP_BUCKETS entry_id, OF hash64_less]

lemma insert_by_id [simp]:
  "bucket_by_id (cap_table_insert e s) = bucket_add hash64 entry_id e (bucket_by_id s)"
  by (simp add: cap_table_insert_def Let_def)

lemma insert_frame [simp]:
  "cap_hmac_key (cap_table_insert e s) = cap_hmac_key s" "next_cap_id (cap_table_insert e s) = next_cap_id s"
  "signed_bodies (cap_table_insert e s) = signed_bodies s"
  "revoke_subscribers (cap_table_insert e s) = revoke_subscribers s"
  by (simp_all add: cap_table_insert_def Let_def)

interpretation issued: id_store srv_ok cap_table_find_by_id cap_table_insert entry_change entry_id
  by unfold_locales
    (simp_all add: srv_ok_def cap_table_find_by_id_def entry_change_def
      id_store.ok_create [OF sbuckets] id_store.ok_change [OF sbuckets]
      id_store.look_create [OF sbuckets] id_store.look_change [OF sbuckets])

section \<open>Lemmas\<close>

lemma tok_insert:
  "srv_ok s \<Longrightarrow> tok s (entry_id e) = None \<Longrightarrow>
   tok (cap_table_insert e s) = (tok s)(entry_id e \<mapsto> ce_token e)"
  by (auto simp: tok_def issued.look_create fun_eq_iff)

lemma ok_insert: "srv_ok s \<Longrightarrow> tok s (entry_id e) = None \<Longrightarrow> srv_ok (cap_table_insert e s)"
  by (simp add: tok_def issued.ok_create)

lemma cap_id_sign [simp]: "cap_id (cap_sign k t) = cap_id t"
  by (simp add: cap_sign_def)

lemma srv_ok_fields [simp]:
  "srv_ok (s\<lparr>signed_bodies := x0\<rparr>) \<longleftrightarrow> srv_ok s"
  "srv_ok (s\<lparr>scalls := x1\<rparr>) \<longleftrightarrow> srv_ok s"
  "srv_ok (s\<lparr>next_cap_id := x2\<rparr>) \<longleftrightarrow> srv_ok s"
  "srv_ok (s\<lparr>g_table := x3\<rparr>) \<longleftrightarrow> srv_ok s"
  "srv_ok (s\<lparr>revoke_subscribers := x4\<rparr>) \<longleftrightarrow> srv_ok s"
  "srv_ok (s\<lparr>g_request_local_port := x5\<rparr>) \<longleftrightarrow> srv_ok s"
  by (simp_all add: srv_ok_def)

lemma find_fields [simp]:
  "cap_table_find_by_id c (s\<lparr>signed_bodies := x0\<rparr>) = cap_table_find_by_id c s"
  "cap_table_find_by_id c (s\<lparr>scalls := x1\<rparr>) = cap_table_find_by_id c s"
  "cap_table_find_by_id c (s\<lparr>next_cap_id := x2\<rparr>) = cap_table_find_by_id c s"
  "cap_table_find_by_id c (s\<lparr>g_table := x3\<rparr>) = cap_table_find_by_id c s"
  "cap_table_find_by_id c (s\<lparr>revoke_subscribers := x4\<rparr>) = cap_table_find_by_id c s"
  "cap_table_find_by_id c (s\<lparr>g_request_local_port := x5\<rparr>) = cap_table_find_by_id c s"
  by (simp_all add: cap_table_find_by_id_def)

lemma tok_fields [simp]:
  "tok (s\<lparr>signed_bodies := x0\<rparr>) = tok s"
  "tok (s\<lparr>scalls := x1\<rparr>) = tok s"
  "tok (s\<lparr>next_cap_id := x2\<rparr>) = tok s"
  "tok (s\<lparr>g_table := x3\<rparr>) = tok s"
  "tok (s\<lparr>revoke_subscribers := x4\<rparr>) = tok s"
  "tok (s\<lparr>g_request_local_port := x5\<rparr>) = tok s"
  by (simp_all add: tok_def fun_eq_iff)

lemma resign_frame [simp]:
  "cap_hmac_key (resign_entry f c s) = cap_hmac_key s" "next_cap_id (resign_entry f c s) = next_cap_id s"
  "revoke_subscribers (resign_entry f c s) = revoke_subscribers s" "scalls (resign_entry f c s) = scalls s"
  "g_table (resign_entry f c s) = g_table s"
  by (simp_all add: resign_entry_def entry_change_def sign_token_def split: option.split)

lemma ok_resign: "srv_ok s \<Longrightarrow> (\<And>t. cap_id (f t) = cap_id t) \<Longrightarrow> srv_ok (resign_entry f c s)"
  by (auto simp: resign_entry_def sign_token_def entry_id_def split: option.split intro!: issued.ok_change)

lemma tok_resign:
  assumes "srv_ok s" "\<And>t. cap_id (f t) = cap_id t"
  shows "tok (resign_entry f c s) =
    (tok s)(c := map_option (\<lambda>t. cap_sign (cap_hmac_key s) (f t)) (tok s c))"
proof (cases "cap_table_find_by_id c s")
  case None
  then show ?thesis by (auto simp: resign_entry_def tok_def fun_eq_iff)
next
  case (Some e)
  then show ?thesis
    using assms by (auto simp: resign_entry_def tok_def fun_eq_iff sign_token_def entry_id_def issued.look_change)
qed

lemma signed_resign:
  "tok s c = Some t \<Longrightarrow> signed_bodies (resign_entry f c s) = insert (cap_body (f t)) (signed_bodies s)"
  by (auto simp: resign_entry_def tok_def entry_change_def sign_token_def)

lemma tok_cong: "bucket_by_id s' = bucket_by_id s \<Longrightarrow> tok s' = tok s"
  by (simp add: tok_def cap_table_find_by_id_def fun_eq_iff)

section \<open>Shapes\<close>

lemma shapeD:
  assumes "shape t = shape t'"
  shows "cap_id t = cap_id t'" "parent_cap_id t = parent_cap_id t'" "cap_depth t = cap_depth t'"
    "allowed_ops t = allowed_ops t'" "resource_type t = resource_type t'" "resource_id t = resource_id t'"
    "first_child_cap_id t = first_child_cap_id t'" "next_sibling_cap_id t = next_sibling_cap_id t'"
    "fixed t = fixed t'"
proof -
  show "cap_id t = cap_id t'" using arg_cong [OF assms, of cap_id] by (simp add: shape_def)
  show "parent_cap_id t = parent_cap_id t'" using arg_cong [OF assms, of parent_cap_id] by (simp add: shape_def)
  show "cap_depth t = cap_depth t'" using arg_cong [OF assms, of cap_depth] by (simp add: shape_def)
  show "allowed_ops t = allowed_ops t'" using arg_cong [OF assms, of allowed_ops] by (simp add: shape_def)
  show "resource_type t = resource_type t'" using arg_cong [OF assms, of resource_type] by (simp add: shape_def)
  show "resource_id t = resource_id t'" using arg_cong [OF assms, of resource_id] by (simp add: shape_def)
  show "first_child_cap_id t = first_child_cap_id t'" using arg_cong [OF assms, of first_child_cap_id] by (simp add: shape_def)
  show "next_sibling_cap_id t = next_sibling_cap_id t'" using arg_cong [OF assms, of next_sibling_cap_id] by (simp add: shape_def)
  have "fixed u = (shape u)\<lparr>first_child_cap_id := 0\<rparr>" for u by (simp add: fixed_def shape_def)
  then show "fixed t = fixed t'" using assms by metis
qed

lemma same_shape_refl [simp]: "same_shape m m"
  by (simp add: same_shape_def)

lemma same_shape_sym: "same_shape m m' \<Longrightarrow> same_shape m' m"
  by (simp add: same_shape_def)

lemma same_shape_trans: "same_shape m m' \<Longrightarrow> same_shape m' m'' \<Longrightarrow> same_shape m m''"
  by (simp add: same_shape_def)

lemma same_shapeD:
  assumes "same_shape m m'" "m c = Some t"
  shows "\<exists>t'. m' c = Some t' \<and> shape t' = shape t"
proof -
  have "map_option shape (m' c) = Some (shape t)" using assms by (simp add: same_shape_def)
  then show ?thesis by auto
qed

lemma same_shape_None:
  assumes "same_shape m m'"
  shows "m' c = None \<longleftrightarrow> m c = None"
proof -
  have "map_option shape (m' c) = map_option shape (m c)" using assms by (simp add: same_shape_def)
  then show ?thesis by (cases "m c"; cases "m' c") simp_all
qed

lemma children_shape_sub: "same_shape m m' \<Longrightarrow> children m p \<subseteq> children m' p"
proof
  fix x assume sh: "same_shape m m'" and "x \<in> children m p"
  then obtain t where t: "m x = Some t" "parent_cap_id t = p" by (auto simp: children_def)
  obtain t' where t': "m' x = Some t'" "shape t' = shape t" using same_shapeD [OF sh t(1)] by blast
  then show "x \<in> children m' p" using t(2) shapeD(2) [OF t'(2)] by (simp add: children_def)
qed

lemma children_shape: "same_shape m m' \<Longrightarrow> children m' p = children m p"
  by (intro equalityI children_shape_sub) (simp_all add: same_shape_sym)

lemma sib_chain_shape: "same_shape m m' \<Longrightarrow> sib_chain m c cs \<Longrightarrow> sib_chain m' c cs"
proof (induction cs arbitrary: c)
  case (Cons x cs)
  then obtain t where t: "m x = Some t" "sib_chain m (next_sibling_cap_id t) cs" "c = x" "x \<noteq> 0" by auto
  obtain t' where t': "m' x = Some t'" "shape t' = shape t" using same_shapeD [OF Cons.prems(1) t(1)] by blast
  then show ?case using t(3,4) Cons.IH [OF Cons.prems(1) t(2)] shapeD(8) [OF t'(2)] by simp
qed simp

lemma tree_ok_shape:
  assumes "same_shape m m'" "tree_ok m"
  shows "tree_ok m'"
  unfolding tree_ok_def
proof (intro allI impI)
  fix p t' assume "m' p = Some t'"
  then obtain t where t: "m p = Some t" "shape t = shape t'" using same_shapeD [OF same_shape_sym [OF assms(1)]] by blast
  then have "cap_id t = p \<and> p \<noteq> 0 \<and> (\<forall>c \<in> children m p. p < c)" using assms(2) unfolding tree_ok_def by blast
  moreover obtain cs where "sib_chain m (first_child_cap_id t) cs" "distinct cs" "set cs = children m p"
    using assms(2) t(1) unfolding tree_ok_def by blast
  ultimately show "cap_id t' = p \<and> p \<noteq> 0 \<and>
      (\<exists>cs. sib_chain m' (first_child_cap_id t') cs \<and> distinct cs \<and> set cs = children m' p) \<and>
      (\<forall>c \<in> children m' p. p < c)"
    using sib_chain_shape [OF assms(1)] children_shape [OF assms(1)] shapeD(1,7) [OF t(2)] by metis
qed

lemma bounded_shape:
  assumes "same_shape m m'" "shape t = shape t'" "bounded_by_parent m t"
  shows "bounded_by_parent m' t'"
proof (cases "parent_cap_id t = 0")
  case True
  then show ?thesis using assms(3) shapeD(2,3) [OF assms(2)] by (simp add: bounded_by_parent_def)
next
  case False
  then obtain p where p: "m (parent_cap_id t) = Some p" "allowed_ops t AND NOT (allowed_ops p) = 0"
    "resource_type t = resource_type p" "resource_id t = resource_id p"
    "unat (cap_depth t) = unat (cap_depth p) + 1" "unat (cap_depth t) \<le> CAP_MAX_DEPTH"
    using assms(3) by (auto simp: bounded_by_parent_def)
  obtain p' where p': "m' (parent_cap_id t) = Some p'" "shape p' = shape p" using same_shapeD [OF assms(1) p(1)] by blast
  show ?thesis
    using False p p'(1) shapeD(3,4,5,6) [OF p'(2)] shapeD(2,3,4,5,6) [OF assms(2)] by (simp add: bounded_by_parent_def)
qed

section \<open>Marking\<close>

lemma mark_tok:
  "srv_ok s \<Longrightarrow> tok (cap_table_mark_revoked c s) =
     (tok s)(c := map_option (\<lambda>t. cap_sign (cap_hmac_key s) (t\<lparr>revoked := 1\<rparr>)) (tok s c))"
  by (simp add: cap_table_mark_revoked_def tok_resign)

lemma mark_shape: "srv_ok s \<Longrightarrow> same_shape (tok s) (tok (cap_table_mark_revoked c s))"
  by (cases "tok s c") (auto simp: mark_tok same_shape_def shape_def cap_sign_def)

lemma mark_dead: "srv_ok s \<Longrightarrow> dead (tok (cap_table_mark_revoked c s)) x \<longleftrightarrow> dead (tok s) x \<or> x = c \<and> tok s c \<noteq> None"
  by (auto simp: mark_tok dead_def cap_sign_def)

lemma mark_live: "srv_ok s \<Longrightarrow> live (cap_table_mark_revoked c s) = live s - {c}"
  by (auto simp: mark_tok live_def cap_sign_def)

lemma mark_frame [simp]:
  "cap_hmac_key (cap_table_mark_revoked c s) = cap_hmac_key s"
  "next_cap_id (cap_table_mark_revoked c s) = next_cap_id s"
  "revoke_subscribers (cap_table_mark_revoked c s) = revoke_subscribers s"
  "scalls (cap_table_mark_revoked c s) = scalls s" "g_table (cap_table_mark_revoked c s) = g_table s"
  by (simp_all add: cap_table_mark_revoked_def)

lemma cap_wf_upd [simp]:
  "cap_wf (cap_sign k (t\<lparr>revoked := x\<rparr>)) \<longleftrightarrow> cap_wf (t\<lparr>cap_hmac := replicate 32 0\<rparr>)"
  by (simp add: cap_wf_def cap_sign_def)

lemma mark_inv:
  assumes "srv_inv s"
  shows "srv_inv (cap_table_mark_revoked c s)"
proof (cases "tok s c")
  case None
  then have "cap_table_mark_revoked c s = s"
    by (simp add: cap_table_mark_revoked_def resign_entry_def tok_def)
  then show ?thesis using assms by simp
next
  case (Some t)
  let ?s = "cap_table_mark_revoked c s"
  have ok: "srv_ok s" "srv_ok ?s" using assms by (simp_all add: srv_inv_def cap_table_mark_revoked_def ok_resign)
  note sh = mark_shape [OF ok(1), of c]
  have "bounded_by_parent (tok ?s) t' \<and> cap_wf t'" if x: "tok ?s x = Some t'" for x t'
  proof -
    obtain u where u: "tok s x = Some u" "shape u = shape t'" using same_shapeD [OF same_shape_sym [OF sh] x] by blast
    moreover have "cap_wf t'"
      using x u(1) assms ok(1) by (auto simp: mark_tok srv_inv_def cap_wf_def cap_sign_def split: if_splits)
    ultimately show ?thesis using bounded_shape [OF sh u(2)] assms by (auto simp: srv_inv_def)
  qed
  moreover have "signed_ok ?s"
    unfolding signed_ok_def
  proof
    fix b assume "b \<in> signed_bodies ?s"
    then consider "b = cap_body (t\<lparr>revoked := 1\<rparr>)" | "b \<in> signed_bodies s"
      using Some by (auto simp: cap_table_mark_revoked_def signed_resign)
    then obtain u u' where "b = cap_body u" "cap_wf u" "tok s (cap_id u) = Some u'" "fixed u = fixed u'"
    proof cases
      case 1
      then show ?thesis
        using that [of "t\<lparr>revoked := 1\<rparr>" t] Some assms by (auto simp: srv_inv_def tree_ok_def cap_wf_def fixed_def)
    next
      case 2
      then show ?thesis using that assms by (auto simp: srv_inv_def signed_ok_def)
    qed
    then show "\<exists>t t'. b = cap_body t \<and> cap_wf t \<and> tok ?s (cap_id t) = Some t' \<and> fixed t = fixed t'"
      using same_shapeD [OF sh] shapeD(9) by metis
  qed
  ultimately show ?thesis
    using assms ok(2) tree_ok_shape [OF sh] same_shape_None [OF sh] by (auto simp: srv_inv_def)
qed

section \<open>The walks\<close>

lemma finite_tok: "srv_ok s \<Longrightarrow> finite (dom (tok s))"
proof (rule finite_subset)
  show "dom (tok s) \<subseteq> entry_id ` (\<Union>b < CAP_BUCKETS. set (bucket_by_id s ! b))"
    using hash64_less by (fastforce simp: dom_def tok_def cap_table_find_by_id_def bucket_find_def dest: chain_find_SomeD)
qed simp

lemma finite_live: "srv_ok s \<Longrightarrow> finite (live s)"
  by (rule finite_subset [OF _ finite_tok]) (auto simp: live_def)

lemma push_children_chain:
  "sib_chain (tok s) child cs \<Longrightarrow>
   push_children s child stack = rev (take (CAP_MAX_DEPTH + 1 - length stack) cs) @ stack"
proof (induction cs arbitrary: child stack)
  case Nil
  then show ?case by (simp add: push_children.simps)
next
  case (Cons x cs)
  then obtain t where t: "tok s x = Some t" "sib_chain (tok s) (next_sibling_cap_id t) cs" "child = x" "x \<noteq> 0" by auto
  then obtain e where e: "cap_table_find_by_id x s = Some e" "ce_token e = t" by (auto simp: tok_def)
  show ?case
  proof (cases "length stack \<le> CAP_MAX_DEPTH")
    case True
    then have "CAP_MAX_DEPTH + 1 - length stack = Suc (CAP_MAX_DEPTH + 1 - length (x # stack))" by simp
    then show ?thesis
      using True t e Cons.IH [OF t(2), of "x # stack"] by (subst push_children.simps) simp
  next
    case False
    then show ?thesis by (subst push_children.simps) simp
  qed
qed

text \<open>Rule for the marking loop: it returns, and what both kinds of step keep holds at the end.\<close>

lemma revoke_loop_rule:
  assumes "srv_inv s" "J stack s"
    and skip: "\<And>c st s. srv_inv s \<Longrightarrow> J (c # st) s \<Longrightarrow> c \<notin> live s \<Longrightarrow> J st s"
    and mark: "\<And>c t st s. srv_inv s \<Longrightarrow> J (c # st) s \<Longrightarrow> tok s c = Some t \<Longrightarrow> revoked t = 0 \<Longrightarrow>
      J (push_children (cap_table_mark_revoked c s) (first_child_cap_id t) st) (cap_table_mark_revoked c s)"
  shows "\<exists>n' s'. revoke_loop stack n s = Some (n', s') \<and> srv_inv s' \<and> J [] s' \<and> n \<le> n'"
  using assms(1,2)
proof (induction "card (live s)" arbitrary: s stack n rule: less_induct)
  case less
  from less.prems show ?case
  proof (induction stack)
    case Nil
    then show ?case by (subst revoke_loop.simps) simp
  next
    case (Cons c st)
    show ?case
    proof (cases "c \<in> live s")
      case False
      then have "revoke_loop (c # st) n s = revoke_loop st n s"
        by (subst revoke_loop.simps) (auto simp: live_def tok_def split: option.split)
      then show ?thesis using Cons.IH [OF Cons.prems(1) skip [OF Cons.prems False]] by simp
    next
      case True
      then obtain e where e: "cap_table_find_by_id c s = Some e" "revoked (ce_token e) = 0" "tok s c = Some (ce_token e)"
        by (auto simp: live_def tok_def)
      let ?s = "cap_table_mark_revoked c s"
      let ?st = "push_children ?s (first_child_cap_id (ce_token e)) st"
      have ok: "srv_ok s" using Cons.prems(1) by (simp add: srv_inv_def)
      then have "card (live ?s) < card (live s)"
        using True mark_live [OF ok] card_Diff1_less [OF finite_live [OF ok]] by metis
      then obtain n' s' where "revoke_loop ?st (n + 1) ?s = Some (n', s')" "srv_inv s'" "J [] s'" "n + 1 \<le> n'"
        using less.hyps [OF _ mark_inv [OF Cons.prems(1)] mark [OF Cons.prems e(3,2)]] by blast
      moreover have "revoke_loop (c # st) n s = revoke_loop ?st (n + 1) ?s"
        using e by (subst revoke_loop.simps) simp
      ultimately show ?thesis by auto
    qed
  qed
qed

lemma tree_childrenE:
  assumes "srv_inv s" "tok s c = Some t"
  obtains cs where "sib_chain (tok s) (first_child_cap_id t) cs" "distinct cs" "set cs = children (tok s) c"
  using assms unfolding srv_inv_def tree_ok_def by blast

lemma push_after_mark:
  assumes "srv_inv s" "tok s c = Some t" "sib_chain (tok s) (first_child_cap_id t) cs"
  shows "push_children (cap_table_mark_revoked c s) (first_child_cap_id t) st =
    rev (take (CAP_MAX_DEPTH + 1 - length st) cs) @ st"
  using push_children_chain [OF sib_chain_shape [OF mark_shape assms(3)]] assms(1) by (simp add: srv_inv_def)

end
