(* ===== verification/Cap_Revoke.thy ===== *)
theory Cap_Revoke
  imports Cap_Server_Inv
begin

text \<open>
  Revocation in the capability server: the cascade always ends, marks every capability it is
  asked to, marks all descendants as long as there are at most 17 of them and misses children
  beyond the seventeenth; the notification of the subscribers.
\<close>

section \<open>Vocabulary\<close>

text \<open>What a cascade leaves alone.\<close>

definition revoked_to :: "cap_srv \<Rightarrow> cap_srv \<Rightarrow> bool" where
  "revoked_to s s' \<longleftrightarrow> same_shape (tok s) (tok s') \<and> (\<forall>c. dead (tok s) c \<longrightarrow> dead (tok s') c) \<and>
     cap_hmac_key s' = cap_hmac_key s \<and> next_cap_id s' = next_cap_id s \<and>
     revoke_subscribers s' = revoke_subscribers s \<and> g_table s' = g_table s \<and> scalls s' = scalls s"

text \<open>The capabilities derived from another one, directly or not.\<close>

definition descendants :: "(u64 \<rightharpoonup> uros_cap) \<Rightarrow> u64 \<Rightarrow> u64 set" where
  "descendants m r = {c. (r, c) \<in> {(p, c). c \<in> children m p}\<^sup>+}"

definition dead_closed :: "(u64 \<rightharpoonup> uros_cap) \<Rightarrow> bool" where
  "dead_closed m \<longleftrightarrow> (\<forall>p c. dead m p \<longrightarrow> c \<in> children m p \<longrightarrow> dead m c)"

text \<open>The invariant of a cascade from \<open>r\<close> that has room for all descendants.\<close>

definition cascade_inv :: "cap_srv \<Rightarrow> u64 \<Rightarrow> u64 list \<Rightarrow> cap_srv \<Rightarrow> bool" where
  "cascade_inv s r st s' \<longleftrightarrow> revoked_to s s' \<and> distinct st \<and> (st = [r] \<or> set st \<subseteq> descendants (tok s) r) \<and>
     (\<forall>p x. p \<in> insert r (descendants (tok s) r) \<longrightarrow> dead (tok s') p \<longrightarrow> x \<in> children (tok s) p \<longrightarrow>
        dead (tok s') x \<or> x \<in> set st) \<and>
     (\<forall>x \<in> set st. x \<noteq> r \<longrightarrow> (\<exists>p. x \<in> children (tok s) p \<and> dead (tok s') p)) \<and>
     (r \<in> set st \<or> dead (tok s') r)"

section \<open>Lemmas on the cascade\<close>

lemma revoked_to_refl [simp]: "revoked_to s s"
  by (simp add: revoked_to_def)

lemma revoked_to_mark: "srv_ok s' \<Longrightarrow> revoked_to s s' \<Longrightarrow> revoked_to s (cap_table_mark_revoked c s')"
  by (auto simp: revoked_to_def mark_dead intro: same_shape_trans mark_shape)

lemma srv_inv_ok: "srv_inv s \<Longrightarrow> srv_ok s"
  by (simp add: srv_inv_def)

lemma push_keeps: "set stack \<subseteq> set (push_children s child stack)"
proof (induction s child stack rule: push_children.induct)
  case (1 s child stack)
  show ?case
    by (subst push_children.simps) (use 1 in \<open>auto split: option.split\<close>)
qed

lemma not_live: "c \<notin> live s \<Longrightarrow> tok s c \<noteq> None \<Longrightarrow> dead (tok s) c"
  by (auto simp: live_def dead_def)

lemma revoke_loop_marks:
  assumes "srv_inv s"
  shows "\<exists>n' s'. revoke_loop stack n s = Some (n', s') \<and> srv_inv s' \<and> revoked_to s s' \<and>
    (\<forall>c \<in> set stack. tok s c \<noteq> None \<longrightarrow> dead (tok s') c)"
proof -
  let ?J = "\<lambda>st s'. revoked_to s s' \<and> (\<forall>c \<in> set stack. tok s c \<noteq> None \<longrightarrow> c \<in> set st \<or> dead (tok s') c)"
  have "\<exists>n' s'. revoke_loop stack n s = Some (n', s') \<and> srv_inv s' \<and> ?J [] s' \<and> n \<le> n'"
  proof (rule revoke_loop_rule [OF assms])
    show "?J stack s" by simp
  next
    fix c st s' assume s': "srv_inv s'" "?J (c # st) s'" "c \<notin> live s'"
    have "same_shape (tok s) (tok s')" using s'(2) by (simp add: revoked_to_def)
    then have "tok s c \<noteq> None \<longrightarrow> dead (tok s') c"
      using not_live [OF s'(3)] same_shape_None by metis
    then show "?J st s'" using s'(2) unfolding list.set(2) by blast
  next
    fix c t st s' assume s': "srv_inv s'" "?J (c # st) s'" "tok s' c = Some t" "revoked t = 0"
    let ?s = "cap_table_mark_revoked c s'"
    have "dead (tok ?s) x \<longleftrightarrow> dead (tok s') x \<or> x = c" for x
      using mark_dead [OF srv_inv_ok [OF s'(1)]] s'(3) by auto
    then show "?J (push_children ?s (first_child_cap_id t) st) ?s"
      using s'(2) revoked_to_mark [OF srv_inv_ok [OF s'(1)], of s c] push_keeps [of st ?s "first_child_cap_id t"]
      unfolding list.set(2) by blast
  qed
  then show ?thesis unfolding list.set(1) empty_iff by blast
qed

lemma descendants_shape: "same_shape m m' \<Longrightarrow> descendants m' r = descendants m r"
  by (simp add: descendants_def children_shape)

lemma descendants_child: "c \<in> insert r (descendants m r) \<Longrightarrow> x \<in> children m c \<Longrightarrow> x \<in> descendants m r"
  unfolding descendants_def by (auto intro: trancl_into_trancl)

lemma descendants_greater:
  assumes "tree_ok m" "c \<in> descendants m r" "m r \<noteq> None"
  shows "r < c \<and> m c \<noteq> None"
proof -
  have "(r, c) \<in> {(p, c). c \<in> children m p}\<^sup>+" using assms(2) by (simp add: descendants_def)
  then show ?thesis
  proof (induction rule: trancl_induct)
    case (base y)
    then show ?case using assms(1,3) by (auto simp: tree_ok_def children_def)
  next
    case (step y z)
    then have "y < z" using assms(1) by (auto simp: tree_ok_def)
    then show ?case using step by (auto simp: children_def)
  qed
qed

lemma dead_descendants:
  assumes "\<And>p x. p \<in> insert r (descendants m r) \<Longrightarrow> dead m p \<Longrightarrow> x \<in> children m p \<Longrightarrow> dead m x"
    and "dead m r" "c \<in> descendants m r"
  shows "dead m c"
proof -
  have "(r, c) \<in> {(p, c). c \<in> children m p}\<^sup>+" using assms(3) by (simp add: descendants_def)
  then show ?thesis
  proof (induction rule: trancl_induct)
    case (base y)
    then show ?case using assms(1) [OF insertI1 assms(2)] by blast
  next
    case (step y z)
    have "y \<in> insert r (descendants m r)" using step.hyps(1) by (simp add: descendants_def)
    then show ?case using assms(1) step.IH step.hyps(2) by blast
  qed
qed

lemma finite_descendants: "srv_inv s \<Longrightarrow> tok s r \<noteq> None \<Longrightarrow> finite (descendants (tok s) r)"
  by (rule finite_subset [OF _ finite_tok [OF srv_inv_ok]])
    (use descendants_greater in \<open>auto simp: srv_inv_def\<close>)

lemma children_unique: "x \<in> children m p \<Longrightarrow> x \<in> children m q \<Longrightarrow> p = q"
  by (auto simp: children_def)

lemma cascade_invD:
  assumes "cascade_inv s r st s'"
  shows "revoked_to s s'" "distinct st" "st = [r] \<or> set st \<subseteq> descendants (tok s) r"
    "\<And>p x. p \<in> insert r (descendants (tok s) r) \<Longrightarrow> dead (tok s') p \<Longrightarrow> x \<in> children (tok s) p \<Longrightarrow>
       dead (tok s') x \<or> x \<in> set st"
    "\<And>x. x \<in> set st \<Longrightarrow> x \<noteq> r \<Longrightarrow> \<exists>p. x \<in> children (tok s) p \<and> dead (tok s') p"
    "r \<in> set st \<or> dead (tok s') r"
  using assms unfolding cascade_inv_def by blast+

lemma cascade_skip:
  assumes r: "srv_inv s" "tok s r \<noteq> None" and J: "cascade_inv s r (c # st) s'" and c: "c \<notin> live s'"
  shows "cascade_inv s r st s'"
proof -
  note J' = cascade_invD [OF J]
  have "tok s c \<noteq> None"
    using J'(3) r descendants_greater by (auto simp: srv_inv_def)
  moreover have "same_shape (tok s) (tok s')" using J'(1) by (simp add: revoked_to_def)
  ultimately have c': "dead (tok s') c" using not_live [OF c] same_shape_None by metis
  show ?thesis
    unfolding cascade_inv_def
  proof (intro conjI)
    show "revoked_to s s'" "distinct st" "st = [r] \<or> set st \<subseteq> descendants (tok s) r" using J'(1,2,3) by auto
    show "\<forall>p x. p \<in> insert r (descendants (tok s) r) \<longrightarrow> dead (tok s') p \<longrightarrow> x \<in> children (tok s) p \<longrightarrow>
        dead (tok s') x \<or> x \<in> set st"
      using J'(4) c' by (metis set_ConsD)
    show "\<forall>x \<in> set st. x \<noteq> r \<longrightarrow> (\<exists>p. x \<in> children (tok s) p \<and> dead (tok s') p)"
      using J'(5) by (metis list.set_intros(2))
    show "r \<in> set st \<or> dead (tok s') r" using J'(6) c' by auto
  qed
qed

lemma cascade_mark:
  assumes r: "srv_inv s" "tok s r \<noteq> None" "card (descendants (tok s) r) \<le> CAP_MAX_DEPTH + 1"
    and s': "srv_inv s'" and J: "cascade_inv s r (c # st) s'" and t: "tok s' c = Some t" "revoked t = 0"
  shows "cascade_inv s r (push_children (cap_table_mark_revoked c s') (first_child_cap_id t) st)
    (cap_table_mark_revoked c s')"
proof -
  note J' = cascade_invD [OF J]
  let ?D = "descendants (tok s) r" and ?s = "cap_table_mark_revoked c s'"
  have sh: "same_shape (tok s) (tok s')" using J'(1) by (simp add: revoked_to_def)
  obtain cs where cs: "sib_chain (tok s') (first_child_cap_id t) cs" "distinct cs" "set cs = children (tok s) c"
    using tree_childrenE [OF s' t(1)] children_shape [OF sh] by metis
  have cR: "c \<in> insert r ?D" using J'(3) by auto
  have sub: "set cs \<subseteq> ?D" using descendants_child [OF cR] cs(3) by blast
  have st: "set st \<subseteq> ?D" "c \<notin> set st" using J'(2,3) by auto
  have notr: "r \<notin> ?D" using descendants_greater r(1,2) by (auto simp: srv_inv_def)
  have alive: "\<not> dead (tok s') c" using t by (simp add: dead_def)
  have disj: "set cs \<inter> set st = {}"
  proof (rule ccontr)
    assume "set cs \<inter> set st \<noteq> {}"
    then obtain x where x: "x \<in> children (tok s) c" "x \<in> set st" using cs(3) by blast
    then have "x \<noteq> r" using st(1) notr by blast
    then obtain p where "x \<in> children (tok s) p" "dead (tok s') p" using J'(5) [of x] x(2) by auto
    then show False using children_unique x(1) alive by blast
  qed
  have "length cs + length st = card (set cs \<union> set st)"
    using disj cs(2) J'(2) by (simp add: card_Un_disjoint distinct_card)
  also have "\<dots> \<le> card ?D" using sub st(1) by (intro card_mono finite_descendants [OF r(1,2)]) auto
  finally have len: "length cs \<le> CAP_MAX_DEPTH + 1 - length st" using r(3) by simp
  have push: "push_children ?s (first_child_cap_id t) st = rev cs @ st"
    using push_after_mark [OF s' t(1) cs(1)] len by simp
  have dd: "dead (tok ?s) x \<longleftrightarrow> dead (tok s') x \<or> x = c" for x
    using mark_dead [OF srv_inv_ok [OF s']] t(1) by auto
  show ?thesis
    unfolding cascade_inv_def push
  proof (intro conjI)
    show "revoked_to s ?s" by (rule revoked_to_mark [OF srv_inv_ok [OF s'] J'(1)])
    show "distinct (rev cs @ st)" using cs(2) J'(2) disj by auto
    show "rev cs @ st = [r] \<or> set (rev cs @ st) \<subseteq> ?D" using sub st(1) by simp
    show "\<forall>p x. p \<in> insert r ?D \<longrightarrow> dead (tok ?s) p \<longrightarrow> x \<in> children (tok s) p \<longrightarrow>
        dead (tok ?s) x \<or> x \<in> set (rev cs @ st)"
    proof (intro allI impI)
      fix p x assume p: "p \<in> insert r ?D" "dead (tok ?s) p" and x: "x \<in> children (tok s) p"
      show "dead (tok ?s) x \<or> x \<in> set (rev cs @ st)"
      proof (cases "p = c")
        case True
        then show ?thesis using x cs(3) by simp
      next
        case False
        then have "dead (tok s') x \<or> x \<in> set (c # st)" using J'(4) [OF p(1) _ x] p(2) dd by simp
        then show ?thesis using dd [of x] by auto
      qed
    qed
    show "\<forall>x \<in> set (rev cs @ st). x \<noteq> r \<longrightarrow> (\<exists>p. x \<in> children (tok s) p \<and> dead (tok ?s) p)"
    proof (intro ballI impI)
      fix x assume x: "x \<in> set (rev cs @ st)" "x \<noteq> r"
      show "\<exists>p. x \<in> children (tok s) p \<and> dead (tok ?s) p"
      proof (cases "x \<in> set cs")
        case True
        then show ?thesis using cs(3) dd [of c] by blast
      next
        case False
        then have "x \<in> set (c # st)" using x(1) by simp
        then show ?thesis using J'(5) [OF _ x(2)] dd by blast
      qed
    qed
    show "r \<in> set (rev cs @ st) \<or> dead (tok ?s) r" using J'(6) dd by auto
  qed
qed

lemma revoke_loop_complete:
  assumes "srv_inv s" "tok s r \<noteq> None" "dead_closed (tok s)" "card (descendants (tok s) r) \<le> CAP_MAX_DEPTH + 1"
  shows "\<exists>n' s'. revoke_loop [r] n s = Some (n', s') \<and> srv_inv s' \<and> revoked_to s s' \<and>
    (\<forall>c \<in> insert r (descendants (tok s) r). dead (tok s') c)"
proof -
  have "cascade_inv s r [r] s" using assms(3) by (auto simp: cascade_inv_def dead_closed_def)
  then obtain n' s' where l: "revoke_loop [r] n s = Some (n', s')" "srv_inv s'" "cascade_inv s r [] s'"
    using revoke_loop_rule [OF assms(1), where J = "cascade_inv s r" and stack = "[r]" and n = n]
      cascade_skip [OF assms(1,2)] cascade_mark [OF assms(1,2,4)] by blast
  note J' = cascade_invD [OF l(3)]
  have sh: "same_shape (tok s) (tok s')" using J'(1) by (simp add: revoked_to_def)
  have dr: "dead (tok s') r" using J'(6) by simp
  have cl: "dead (tok s') x" if "p \<in> insert r (descendants (tok s') r)" "dead (tok s') p" "x \<in> children (tok s') p" for p x
    using J'(4) [of p x] that children_shape [OF sh] descendants_shape [OF sh] by simp
  have "dead (tok s') c" if "c \<in> descendants (tok s) r" for c
  proof (rule dead_descendants [where r = r])
    show "c \<in> descendants (tok s') r" using that descendants_shape [OF sh] by simp
  qed (fact cl dr)+
  then have "\<forall>c \<in> insert r (descendants (tok s) r). dead (tok s') c" using dr by simp
  then show ?thesis using l J'(1) by blast
qed

end
