(* ===== verification/Cap_Issue.thy ===== *)
theory Cap_Issue
  imports Cap_Revoke
begin

text \<open>
  Issuing and deriving capabilities keeps the invariant of the server, and what a successful
  verification of a token means.
\<close>

section \<open>Vocabulary\<close>

text \<open>The part of the state the invariant is about.\<close>

definition same_srv :: "cap_srv \<Rightarrow> cap_srv \<Rightarrow> bool" where
  "same_srv s s' \<longleftrightarrow> bucket_by_id s' = bucket_by_id s \<and> signed_bodies s' = signed_bodies s \<and>
     next_cap_id s' = next_cap_id s \<and> cap_hmac_key s' = cap_hmac_key s"

text \<open>The token \<^verbatim>\<open>cap_derive\<close> builds before signing it.\<close>

definition child_of :: "uros_cap \<Rightarrow> uros_cap \<Rightarrow> u64 \<Rightarrow> u64 \<Rightarrow> uros_cap" where
  "child_of p pe ops i = p\<lparr>cap_id := i, allowed_ops := ops, parent_cap_id := cap_id p,
     cap_depth := cap_depth p + 1, first_child_cap_id := 0, next_sibling_cap_id := first_child_cap_id pe\<rparr>"

section \<open>Extending the tree\<close>

lemma sib_chain_upd:
  "(\<And>x. x \<in> set cs \<Longrightarrow> map_option next_sibling_cap_id (m' x) = map_option next_sibling_cap_id (m x)) \<Longrightarrow>
   sib_chain m c cs \<Longrightarrow> sib_chain m' c cs"
proof (induction cs arbitrary: c)
  case (Cons x cs)
  then obtain t where t: "m x = Some t" "sib_chain m (next_sibling_cap_id t) cs" "c = x" "x \<noteq> 0" by auto
  have "map_option next_sibling_cap_id (m' x) = Some (next_sibling_cap_id t)" using Cons.prems(1) [of x] t(1) by simp
  then obtain t' where "m' x = Some t'" "next_sibling_cap_id t' = next_sibling_cap_id t" by auto
  moreover have "sib_chain m' (next_sibling_cap_id t) cs" using Cons.IH [OF Cons.prems(1) t(2)] by simp
  ultimately show ?case using t(3,4) by simp
qed simp

lemma tree_okD:
  assumes "tree_ok m" "m p = Some t"
  shows "cap_id t = p" "p \<noteq> 0" "\<exists>cs. sib_chain m (first_child_cap_id t) cs \<and> distinct cs \<and> set cs = children m p"
    "\<And>c. c \<in> children m p \<Longrightarrow> p < c"
  using assms unfolding tree_ok_def by blast+

lemma tree_ok_root:
  assumes m: "tree_ok m" "m i = None" "i \<noteq> 0" "children m i = {}"
    and t: "cap_id t = i" "parent_cap_id t = 0" "first_child_cap_id t = 0"
  shows "tree_ok (m(i \<mapsto> t))"
  unfolding tree_ok_def
proof (intro allI impI)
  fix q u assume q: "(m(i \<mapsto> t)) q = Some u"
  have q0: "q \<noteq> 0" using q m(1,3) tree_okD(2) by (auto split: if_splits)
  have ch: "children (m(i \<mapsto> t)) q = children m q" using q0 t(2) m(2) by (auto simp: children_def)
  have "cap_id u = q \<and> (\<exists>cs. sib_chain (m(i \<mapsto> t)) (first_child_cap_id u) cs \<and> distinct cs \<and> set cs = children m q) \<and>
      (\<forall>c \<in> children m q. q < c)"
  proof (cases "q = i")
    case True
    then show ?thesis using q t m(4) by (auto intro: exI [of _ "[]"])
  next
    case False
    then have mq: "m q = Some u" using q by simp
    obtain cs where cs: "sib_chain m (first_child_cap_id u) cs" "distinct cs" "set cs = children m q"
      using tree_okD(3) [OF m(1) mq] by blast
    have "i \<notin> set cs" using cs(3) m(2) by (simp add: children_def)
    then have "sib_chain (m(i \<mapsto> t)) (first_child_cap_id u) cs"
      by (intro sib_chain_upd [OF _ cs(1)]) auto
    then show ?thesis using cs(2,3) tree_okD(1,4) [OF m(1) mq] by blast
  qed
  then show "cap_id u = q \<and> q \<noteq> 0 \<and>
      (\<exists>cs. sib_chain (m(i \<mapsto> t)) (first_child_cap_id u) cs \<and> distinct cs \<and> set cs = children (m(i \<mapsto> t)) q) \<and>
      (\<forall>c \<in> children (m(i \<mapsto> t)) q. q < c)"
    using q0 ch by simp
qed

lemma tree_ok_child:
  assumes m: "tree_ok m" "m i = None" "i \<noteq> 0" "children m i = {}" and p: "m p = Some pe" "p < i"
    and t: "cap_id t = i" "parent_cap_id t = p" "first_child_cap_id t = 0" "next_sibling_cap_id t = first_child_cap_id pe"
    and pt: "cap_id pt = p" "parent_cap_id pt = parent_cap_id pe" "first_child_cap_id pt = i"
      "next_sibling_cap_id pt = next_sibling_cap_id pe"
  shows "tree_ok (m(i \<mapsto> t, p \<mapsto> pt))"
  unfolding tree_ok_def
proof (intro allI impI)
  let ?m = "m(i \<mapsto> t, p \<mapsto> pt)"
  fix q u assume q: "?m q = Some u"
  have ip: "i \<noteq> p" using m(2) p(1) by auto
  have q0: "q \<noteq> 0" using q m(1,3) p(1) tree_okD(2) by (auto split: if_splits)
  have ch: "children ?m q = (if q = p then insert i (children m q) else children m q)"
    using t(2) pt(2) p(1) m(2) ip by (auto simp: children_def)
  have keep: "sib_chain ?m c cs" if "sib_chain m c cs" "i \<notin> set cs" for c cs
    using that(2) pt(4) p(1) by (intro sib_chain_upd [OF _ that(1)]) auto
  have fresh: "i \<notin> children m x" for x using m(2) by (simp add: children_def)
  have *: "cap_id u = q \<and> (\<exists>cs. sib_chain ?m (first_child_cap_id u) cs \<and> distinct cs \<and> set cs = children ?m q) \<and>
      (\<forall>c \<in> children ?m q. q < c)"
  proof -
    consider "q = i" | "q = p" | "q \<noteq> i" "q \<noteq> p" by blast
    then show ?thesis
    proof cases
      case 1
      then show ?thesis using q t ch m(4) ip by (auto intro: exI [of _ "[]"])
    next
      case 2
      obtain cs where cs: "sib_chain m (first_child_cap_id pe) cs" "distinct cs" "set cs = children m p"
        using tree_okD(3) [OF m(1) p(1)] by blast
      have "sib_chain ?m i (i # cs)" using keep [OF cs(1)] cs(3) fresh m(3) t(4) ip by simp
      moreover have "distinct (i # cs)" "set (i # cs) = children ?m p" using cs(2,3) fresh ch 2 by auto
      ultimately show ?thesis
        using 2 q pt(1,3) ch p(2) tree_okD(4) [OF m(1) p(1)] by (auto intro: exI [of _ "i # cs"])
    next
      case 3
      then have mq: "m q = Some u" using q by simp
      obtain cs where cs: "sib_chain m (first_child_cap_id u) cs" "distinct cs" "set cs = children m q"
        using tree_okD(3) [OF m(1) mq] by blast
      then have "sib_chain ?m (first_child_cap_id u) cs" using keep fresh by simp
      then show ?thesis using 3 cs(2,3) ch tree_okD(1,4) [OF m(1) mq] by auto
    qed
  qed
  then show "cap_id u = q \<and> q \<noteq> 0 \<and>
      (\<exists>cs. sib_chain ?m (first_child_cap_id u) cs \<and> distinct cs \<and> set cs = children ?m q) \<and>
      (\<forall>c \<in> children ?m q. q < c)"
    using q0 by blast
qed

section \<open>Issuing keeps the invariant\<close>

lemma same_srv_refl [simp]: "same_srv s s"
  by (simp add: same_srv_def)

lemma same_srv_inv: "same_srv s s' \<Longrightarrow> srv_inv s \<Longrightarrow> srv_inv s'"
proof -
  assume a: "same_srv s s'" "srv_inv s"
  then have "tok s' = tok s" by (intro tok_cong) (simp add: same_srv_def)
  then show "srv_inv s'" using a by (simp add: srv_inv_def same_srv_def signed_ok_def srv_ok_def)
qed

lemma fresh_id:
  assumes "srv_inv s"
  shows "tok s (next_cap_id s) = None" "children (tok s) (next_cap_id s) = {}"
proof -
  have lt: "c < next_cap_id s" if "tok s c = Some t" for c t using assms that by (auto simp: srv_inv_def)
  then show n: "tok s (next_cap_id s) = None" by (metis less_irrefl not_None_eq)
  have "parent_cap_id t \<noteq> next_cap_id s" if "tok s c = Some t" for c t
  proof -
    have "bounded_by_parent (tok s) t" "next_cap_id s \<noteq> 0" using assms that unfolding srv_inv_def by blast+
    then show ?thesis using n by (auto simp: bounded_by_parent_def split: if_splits)
  qed
  then show "children (tok s) (next_cap_id s) = {}" by (auto simp: children_def)
qed

text \<open>Parents keep bounding their children when a token is added or relinked.\<close>

lemma bounded_mono:
  assumes "bounded_by_parent m t"
    and "\<And>c u. m c = Some u \<Longrightarrow> \<exists>u'. m' c = Some u' \<and> fixed u' = fixed u"
  shows "bounded_by_parent m' t"
proof (cases "parent_cap_id t = 0")
  case True
  then show ?thesis using assms(1) by (simp add: bounded_by_parent_def)
next
  case False
  then obtain p where p: "m (parent_cap_id t) = Some p" using assms(1) by (auto simp: bounded_by_parent_def)
  obtain p' where p': "m' (parent_cap_id t) = Some p'" "fixed p' = fixed p" using assms(2) [OF p] by blast
  have "allowed_ops p' = allowed_ops p" "resource_type p' = resource_type p" "resource_id p' = resource_id p"
    "cap_depth p' = cap_depth p"
    using arg_cong [OF p'(2), of allowed_ops] arg_cong [OF p'(2), of resource_type]
      arg_cong [OF p'(2), of resource_id] arg_cong [OF p'(2), of cap_depth] by (simp_all add: fixed_def)
  then show ?thesis using assms(1) False p p'(1) by (simp add: bounded_by_parent_def)
qed

lemma bounded_fixed:
  assumes "fixed t = fixed t'" "bounded_by_parent m t"
  shows "bounded_by_parent m t'"
proof -
  have "parent_cap_id t' = parent_cap_id t" "allowed_ops t' = allowed_ops t" "resource_type t' = resource_type t"
    "resource_id t' = resource_id t" "cap_depth t' = cap_depth t"
    using arg_cong [OF assms(1), of parent_cap_id] arg_cong [OF assms(1), of allowed_ops]
      arg_cong [OF assms(1), of resource_type] arg_cong [OF assms(1), of resource_id]
      arg_cong [OF assms(1), of cap_depth] by (simp_all add: fixed_def)
  then show ?thesis using assms(2) by (simp only: bounded_by_parent_def)
qed

text \<open>
  The step both handlers take: the tokens that were there keep their fixed part, the new one is
  bounded, and what was signed is the body of a token with the fixed part of an entry.
\<close>

lemma issue_inv:
  assumes s: "srv_inv s" and s': "srv_ok s'" "tree_ok (tok s')" "next_cap_id s' = next_cap_id s + 1" "next_cap_id s' \<noteq> 0"
    and old: "\<And>c u. tok s c = Some u \<Longrightarrow> \<exists>u'. tok s' c = Some u' \<and> fixed u' = fixed u"
    and new: "\<And>c u'. tok s' c = Some u' \<Longrightarrow> cap_wf u' \<and>
      (c = next_cap_id s \<and> bounded_by_parent (tok s') u' \<or> (\<exists>u. tok s c = Some u \<and> fixed u = fixed u'))"
    and signed: "\<And>b. b \<in> signed_bodies s' \<Longrightarrow> b \<in> signed_bodies s \<or>
      (\<exists>t t'. b = cap_body t \<and> cap_wf t \<and> tok s' (cap_id t) = Some t' \<and> fixed t = fixed t')"
  shows "srv_inv s'"
proof -
  have inc: "c < next_cap_id s + 1" if "c \<le> next_cap_id s" for c
    using that s'(3,4) unatSuc [of "next_cap_id s"] by (simp add: word_less_nat_alt word_le_nat_alt add.commute)
  have "bounded_by_parent (tok s') u' \<and> cap_wf u' \<and> c < next_cap_id s'" if c: "tok s' c = Some u'" for c u'
  proof -
    consider "c = next_cap_id s" "bounded_by_parent (tok s') u'" | u where "tok s c = Some u" "fixed u = fixed u'"
      using new [OF c] by blast
    then show ?thesis
    proof cases
      case 1
      then show ?thesis using new [OF c] inc s'(3) by simp
    next
      case 2
      have b: "bounded_by_parent (tok s) u" and l: "c < next_cap_id s" using s 2(1) by (auto simp: srv_inv_def)
      have "bounded_by_parent (tok s') u" using b old by (rule bounded_mono)
      then show ?thesis using bounded_fixed [OF 2(2)] new [OF c] inc [of c] l s'(3) by simp
    qed
  qed
  moreover have "signed_ok s'"
    unfolding signed_ok_def
  proof
    fix b assume "b \<in> signed_bodies s'"
    then consider "b \<in> signed_bodies s" | "\<exists>t t'. b = cap_body t \<and> cap_wf t \<and> tok s' (cap_id t) = Some t' \<and> fixed t = fixed t'"
      using signed by blast
    then show "\<exists>t t'. b = cap_body t \<and> cap_wf t \<and> tok s' (cap_id t) = Some t' \<and> fixed t = fixed t'"
    proof cases
      case 1
      then obtain t t' where t: "b = cap_body t" "cap_wf t" "tok s (cap_id t) = Some t'" "fixed t = fixed t'"
        using s unfolding srv_inv_def signed_ok_def by blast
      then show ?thesis using old [OF t(3)] by metis
    qed
  qed
  ultimately show ?thesis using s'(1,2,4) unfolding srv_inv_def by blast
qed

lemma acquire_result:
  fixes s :: cap_srv
  defines "i \<equiv> next_cap_id s"
  defines "t \<equiv> \<lambda>rtype rid ops. zero_cap\<lparr>cap_id := i, resource_type := rtype, resource_id := rid, allowed_ops := ops, delegable := 1\<rparr>"
  shows "fst (fst (cap_acquire A rtype rid ops l n s)) \<noteq> KERN_SUCCESS \<and> same_srv s (snd (cap_acquire A rtype rid ops l n s)) \<or>
    cap_acquire A rtype rid ops l n s =
      ((KERN_SUCCESS, cap_bytes (cap_sign (cap_hmac_key s) (t rtype rid ops))),
       cap_table_insert \<lparr>ce_token = cap_sign (cap_hmac_key s) (t rtype rid ops), ce_sender = MACH_PORT_NULL\<rparr>
         (s\<lparr>scalls := scalls s @ [Malloc], next_cap_id := i + 1,
            signed_bodies := insert (cap_body (t rtype rid ops)) (signed_bodies s)\<rparr>))"
  by (auto simp: cap_acquire_def i_def t_def scall_def sign_token_def cap_table_alloc_id_def same_srv_def
      Let_def split: prod.split)

lemma tok_issue:
  "srv_ok s \<Longrightarrow> tok s (cap_id t) = None \<Longrightarrow>
   tok (cap_table_insert \<lparr>ce_token = t, ce_sender = p\<rparr> s) = (tok s)(cap_id t \<mapsto> t)"
  using tok_insert [of s "\<lparr>ce_token = t, ce_sender = p\<rparr>"] by (simp add: entry_id_def)

lemma ok_issue:
  "srv_ok s \<Longrightarrow> tok s (cap_id t) = None \<Longrightarrow> srv_ok (cap_table_insert \<lparr>ce_token = t, ce_sender = p\<rparr> s)"
  using ok_insert [of s "\<lparr>ce_token = t, ce_sender = p\<rparr>"] by (simp add: entry_id_def)

lemma same_srvD: "same_srv s s' \<Longrightarrow> tok s' = tok s \<and> srv_ok s' = srv_ok s"
  using tok_cong [of s' s] by (simp add: same_srv_def srv_ok_def)

lemma fixed_sign [simp]: "fixed (cap_sign k t) = fixed t"
  by (simp add: fixed_def cap_sign_def)

lemma acquire_inv:
  assumes s: "srv_inv s" and wrap: "next_cap_id s + 1 \<noteq> 0"
  shows "srv_inv (snd (cap_acquire A rtype rid ops l n s))"
proof -
  let ?i = "next_cap_id s"
  let ?t = "zero_cap\<lparr>cap_id := ?i, resource_type := rtype, resource_id := rid, allowed_ops := ops, delegable := 1\<rparr>"
  let ?st = "cap_sign (cap_hmac_key s) ?t"
  let ?s' = "snd (cap_acquire A rtype rid ops l n s)"
  consider "same_srv s ?s'" | "?s' = cap_table_insert \<lparr>ce_token = ?st, ce_sender = MACH_PORT_NULL\<rparr>
       (s\<lparr>scalls := scalls s @ [Malloc], next_cap_id := ?i + 1, signed_bodies := insert (cap_body ?t) (signed_bodies s)\<rparr>)"
    using acquire_result [of A rtype rid ops l n s] by auto
  then show ?thesis
  proof cases
    case 1
    then show ?thesis using s by (rule same_srv_inv)
  next
    case 2
    note fr = fresh_id [OF s]
    have ok: "srv_ok s" and i0: "?i \<noteq> 0" and tr: "tree_ok (tok s)" using s by (simp_all add: srv_inv_def)
    have tk: "tok ?s' = (tok s)(?i \<mapsto> ?st)" unfolding 2 using ok fr(1) by (subst tok_issue) simp_all
    have wf: "cap_wf ?t" "cap_wf ?st" by (simp_all add: cap_wf_def zero_cap_def cap_sign_def)
    have tree: "tree_ok (tok ?s')"
      unfolding tk by (rule tree_ok_root [OF tr fr(1) i0 fr(2)]) (simp_all add: cap_sign_def zero_cap_def)
    have bd: "bounded_by_parent (tok ?s') ?st" by (simp add: bounded_by_parent_def cap_sign_def zero_cap_def)
    show ?thesis
    proof (rule issue_inv [OF s _ tree])
      show "srv_ok ?s'" unfolding 2 using ok fr(1) by (intro ok_issue) simp_all
      show "next_cap_id ?s' = next_cap_id s + 1" "next_cap_id ?s' \<noteq> 0" using 2 wrap by simp_all
      show "\<exists>u'. tok ?s' c = Some u' \<and> fixed u' = fixed u" if "tok s c = Some u" for c u
        using that fr(1) by (auto simp: tk)
      show "cap_wf u' \<and> (c = ?i \<and> bounded_by_parent (tok ?s') u' \<or> (\<exists>u. tok s c = Some u \<and> fixed u = fixed u'))"
        if "tok ?s' c = Some u'" for c u'
        using that wf(2) bd s unfolding srv_inv_def tk by (auto split: if_splits)
      show "b \<in> signed_bodies s \<or> (\<exists>t t'. b = cap_body t \<and> cap_wf t \<and> tok ?s' (cap_id t) = Some t' \<and> fixed t = fixed t')"
        if "b \<in> signed_bodies ?s'" for b
        using that 2 wf(1) tk by (auto intro!: exI [of _ ?t])
    qed
  qed
qed

section \<open>Deriving keeps the invariant\<close>

lemma cap_wf_of_bytes: "length b = CAP_TOKEN_SIZE \<Longrightarrow> cap_wf (cap_of_bytes b)"
  by (simp add: cap_wf_def cap_of_bytes_def CAP_TOKEN_SIZE_def)

text \<open>A token that was not forged agrees with an entry on everything that never changes.\<close>

lemma genuine:
  assumes "srv_inv s" "unforged b s" "length b = CAP_TOKEN_SIZE" "cap_verify_hmac (cap_hmac_key s) (cap_of_bytes b)"
  shows "\<exists>t. tok s (cap_id (cap_of_bytes b)) = Some t \<and> fixed (cap_of_bytes b) = fixed t"
proof -
  let ?p = "cap_of_bytes b"
  have "cap_body ?p \<in> signed_bodies s" using assms(2-4) by (simp add: unforged_def)
  then obtain t t' where t: "cap_body ?p = cap_body t" "cap_wf t" "tok s (cap_id t) = Some t'" "fixed t = fixed t'"
    using assms(1) unfolding srv_inv_def signed_ok_def by blast
  have p: "?p = t\<lparr>cap_hmac := cap_hmac ?p\<rparr>" by (rule cap_body_inject [OF cap_wf_of_bytes [OF assms(3)] t(2,1)])
  have "cap_id ?p = cap_id t" "fixed ?p = fixed t" by (subst p, simp add: fixed_def)+
  then show ?thesis using t(3,4) by simp
qed

lemma derive_result:
  fixes b s
  defines "p \<equiv> cap_of_bytes b" and "i \<equiv> next_cap_id s"
  shows "fst (fst (cap_derive A b ops l n s)) \<noteq> KERN_SUCCESS \<and> same_srv s (snd (cap_derive A b ops l n s)) \<or>
    (\<exists>pe. length b = CAP_TOKEN_SIZE \<and> cap_verify_hmac (cap_hmac_key s) p \<and> revoked p = 0 \<and>
       unat (cap_depth p) + 1 \<le> CAP_MAX_DEPTH \<and> ops AND NOT (allowed_ops p) = 0 \<and>
       tok s (cap_id p) = Some pe \<and> revoked pe = 0 \<and>
       cap_derive A b ops l n s =
         ((KERN_SUCCESS, cap_bytes (cap_sign (cap_hmac_key s) (child_of p pe ops i))),
          resign_entry (\<lambda>t. t\<lparr>first_child_cap_id := i\<rparr>) (cap_id p)
            (cap_table_insert \<lparr>ce_token = cap_sign (cap_hmac_key s) (child_of p pe ops i), ce_sender = MACH_PORT_NULL\<rparr>
              (s\<lparr>scalls := scalls s @ [Malloc], next_cap_id := i + 1,
                 signed_bodies := insert (cap_body (child_of p pe ops i)) (signed_bodies s)\<rparr>))))"
proof (cases "cap_table_find_by_id (cap_id p) s")
  case None
  then show ?thesis by (auto simp: cap_derive_def p_def [symmetric] Let_def same_srv_def)
next
  case (Some e)
  then show ?thesis
    by (auto simp: cap_derive_def p_def [symmetric] i_def child_of_def scall_def sign_token_def
        cap_table_alloc_id_def same_srv_def tok_def Let_def not_less split: prod.split)
qed

lemma derive_outcome [consumes 1, case_names refused derived]:
  assumes s: "srv_inv s"
  obtains (refused) "fst (fst (cap_derive A b ops l n s)) \<noteq> KERN_SUCCESS" "same_srv s (snd (cap_derive A b ops l n s))"
  | (derived) pe where "length b = CAP_TOKEN_SIZE" "cap_verify_hmac (cap_hmac_key s) (cap_of_bytes b)"
      "unat (cap_depth (cap_of_bytes b)) + 1 \<le> CAP_MAX_DEPTH" "ops AND NOT (allowed_ops (cap_of_bytes b)) = 0"
      "tok s (cap_id (cap_of_bytes b)) = Some pe" "revoked pe = 0"
      "srv_ok (snd (cap_derive A b ops l n s))"
      "tok (snd (cap_derive A b ops l n s)) = (tok s)
         (next_cap_id s \<mapsto> cap_sign (cap_hmac_key s) (child_of (cap_of_bytes b) pe ops (next_cap_id s)),
          cap_id (cap_of_bytes b) \<mapsto> cap_sign (cap_hmac_key s) (pe\<lparr>first_child_cap_id := next_cap_id s\<rparr>))"
      "signed_bodies (snd (cap_derive A b ops l n s)) = insert (cap_body (pe\<lparr>first_child_cap_id := next_cap_id s\<rparr>))
         (insert (cap_body (child_of (cap_of_bytes b) pe ops (next_cap_id s))) (signed_bodies s))"
      "next_cap_id (snd (cap_derive A b ops l n s)) = next_cap_id s + 1" "revoked (cap_of_bytes b) = 0"
proof -
  let ?p = "cap_of_bytes b" and ?i = "next_cap_id s" and ?k = "cap_hmac_key s"
  let ?s' = "snd (cap_derive A b ops l n s)"
  consider (no) "fst (fst (cap_derive A b ops l n s)) \<noteq> KERN_SUCCESS" "same_srv s ?s'"
  | (yes) pe where "length b = CAP_TOKEN_SIZE" "cap_verify_hmac ?k ?p"
    "unat (cap_depth ?p) + 1 \<le> CAP_MAX_DEPTH" "ops AND NOT (allowed_ops ?p) = 0" "tok s (cap_id ?p) = Some pe"
    "revoked pe = 0" "revoked ?p = 0"
    "?s' = resign_entry (\<lambda>t. t\<lparr>first_child_cap_id := ?i\<rparr>) (cap_id ?p)
       (cap_table_insert \<lparr>ce_token = cap_sign ?k (child_of ?p pe ops ?i), ce_sender = MACH_PORT_NULL\<rparr>
         (s\<lparr>scalls := scalls s @ [Malloc], next_cap_id := ?i + 1,
            signed_bodies := insert (cap_body (child_of ?p pe ops ?i)) (signed_bodies s)\<rparr>))"
    using derive_result [of A b ops l n s] by auto
  then show thesis
  proof cases
    case no
    then show thesis by (rule refused)
  next
    case (yes pe)
    let ?t = "child_of ?p pe ops ?i" and ?q = "cap_id ?p"
    let ?s1 = "cap_table_insert \<lparr>ce_token = cap_sign ?k ?t, ce_sender = MACH_PORT_NULL\<rparr>
      (s\<lparr>scalls := scalls s @ [Malloc], next_cap_id := ?i + 1, signed_bodies := insert (cap_body ?t) (signed_bodies s)\<rparr>)"
    note fr = fresh_id [OF s]
    have ok: "srv_ok s" by (rule srv_inv_ok [OF s])
    have idt: "cap_id ?t = ?i" by (simp add: child_of_def)
    have tk1: "tok ?s1 = (tok s)(?i \<mapsto> cap_sign ?k ?t)" using ok fr(1) idt by (subst tok_issue) simp_all
    have ok1: "srv_ok ?s1" using ok fr(1) idt by (intro ok_issue) simp_all
    have qne: "?q \<noteq> ?i" using yes(5) fr(1) by auto
    have pe1: "tok ?s1 ?q = Some pe" using tk1 yes(5) qne by simp
    show thesis
    proof (rule derived [OF yes(1-6)])
      show "srv_ok ?s'" unfolding yes(8) using ok1 by (simp add: ok_resign)
      show "tok ?s' = (tok s)(?i \<mapsto> cap_sign ?k ?t, ?q \<mapsto> cap_sign ?k (pe\<lparr>first_child_cap_id := ?i\<rparr>))"
        unfolding yes(8) using ok1 pe1 by (subst tok_resign) (simp_all add: tk1)
      show "signed_bodies ?s' = insert (cap_body (pe\<lparr>first_child_cap_id := ?i\<rparr>)) (insert (cap_body ?t) (signed_bodies s))"
        unfolding yes(8) using signed_resign [OF pe1] by simp
      show "next_cap_id ?s' = ?i + 1" "revoked ?p = 0" using yes(7,8) by simp_all
    qed
  qed
qed

lemma derive_inv:
  assumes s: "srv_inv s" and wrap: "next_cap_id s + 1 \<noteq> 0" and u: "unforged b s"
  shows "srv_inv (snd (cap_derive A b ops l n s))"
proof -
  let ?p = "cap_of_bytes b" and ?i = "next_cap_id s" and ?k = "cap_hmac_key s"
  let ?s' = "snd (cap_derive A b ops l n s)"
  from s show ?thesis
  proof (cases rule: derive_outcome [where A = A and b = b and ops = ops and l = l and n = n])
    case refused
    show ?thesis by (rule same_srv_inv [OF refused(2) s])
  next
    case (derived pe)
    let ?t = "child_of ?p pe ops ?i" and ?q = "cap_id ?p"
    let ?st = "cap_sign ?k ?t" and ?pt = "cap_sign ?k (pe\<lparr>first_child_cap_id := ?i\<rparr>)"
    note fr = fresh_id [OF s] and tk = derived(8) and sg = derived(9)
    have i0: "?i \<noteq> 0" and tr: "tree_ok (tok s)" and qi: "?q < ?i" and wfpe: "cap_wf pe"
      using s derived(5) unfolding srv_inv_def by auto
    have idt: "cap_id ?t = ?i" by (simp add: child_of_def)
    have qne: "?q \<noteq> ?i" using qi by auto
    obtain g where g: "tok s ?q = Some g" "fixed ?p = fixed g" using genuine [OF s u derived(1,2)] by blast
    then have fx: "fixed ?p = fixed pe" using derived(5) by simp
    have wf: "cap_wf ?t" "cap_wf ?st" "cap_wf ?pt" "cap_wf (pe\<lparr>first_child_cap_id := ?i\<rparr>)"
      using cap_wf_of_bytes [OF derived(1)] wfpe by (simp_all add: cap_wf_def cap_sign_def child_of_def)
    have fpt: "fixed ?pt = fixed pe" by (simp add: fixed_def cap_sign_def)
    have tree: "tree_ok (tok ?s')"
      unfolding tk
      by (rule tree_ok_child [OF tr fr(1) i0 fr(2) derived(5) qi])
        (use tree_okD(1) [OF tr derived(5)] in \<open>simp_all add: cap_sign_def child_of_def\<close>)
    have same: "allowed_ops ?pt = allowed_ops ?p" "resource_type ?pt = resource_type ?p" "resource_id ?pt = resource_id ?p"
      "cap_depth ?pt = cap_depth ?p"
      using arg_cong [OF fx, of allowed_ops] arg_cong [OF fx, of resource_type] arg_cong [OF fx, of resource_id]
        arg_cong [OF fx, of cap_depth] by (simp_all add: fixed_def cap_sign_def)
    have dep: "unat (cap_depth ?p + 1) = unat (cap_depth ?p) + 1"
      using derived(3) by (simp add: CAP_MAX_DEPTH_def unat_word_ariths)
    have bd: "bounded_by_parent (tok ?s') ?st"
      using same dep derived(3,4) tree_okD(2) [OF tr derived(5)] tk qne
      by (simp add: bounded_by_parent_def cap_sign_def child_of_def)
    show ?thesis
    proof (rule issue_inv [OF s _ tree])
      show "srv_ok ?s'" by (rule derived(7))
      show "next_cap_id ?s' = next_cap_id s + 1" "next_cap_id ?s' \<noteq> 0" using derived(10) wrap by simp_all
      show "\<exists>u'. tok ?s' c = Some u' \<and> fixed u' = fixed u" if "tok s c = Some u" for c u
        using that fr(1) fpt derived(5) unfolding tk by (cases "c = ?q"; cases "c = ?i") simp_all
      show "cap_wf u' \<and> (c = ?i \<and> bounded_by_parent (tok ?s') u' \<or> (\<exists>u. tok s c = Some u \<and> fixed u = fixed u'))"
        if c: "tok ?s' c = Some u'" for c u'
      proof -
        consider "c = ?q" "u' = ?pt" | "c = ?i" "u' = ?st" | "tok s c = Some u'"
          using c unfolding tk fun_upd_apply by (metis option.inject)
        then show ?thesis
        proof cases
          case 1
          then show ?thesis using wf(3) derived(5) fpt by simp
        next
          case 2
          then show ?thesis using wf(2) bd by simp
        next
          case 3
          moreover have "cap_wf u'" using s 3 unfolding srv_inv_def by blast
          ultimately show ?thesis by blast
        qed
      qed
      show "b \<in> signed_bodies s \<or> (\<exists>t t'. b = cap_body t \<and> cap_wf t \<and> tok ?s' (cap_id t) = Some t' \<and> fixed t = fixed t')"
        if b: "b \<in> signed_bodies ?s'" for b
      proof -
        have e1: "tok ?s' (cap_id (pe\<lparr>first_child_cap_id := ?i\<rparr>)) = Some ?pt"
          using tree_okD(1) [OF tr derived(5)] by (simp add: tk)
        have e2: "tok ?s' (cap_id ?t) = Some ?st" using idt qne by (simp add: tk)
        consider "b = cap_body (pe\<lparr>first_child_cap_id := ?i\<rparr>)" | "b = cap_body ?t" | "b \<in> signed_bodies s"
          using b unfolding sg by blast
        then show ?thesis
        proof cases
          case 1
          then show ?thesis using e1 wf(4) fixed_sign [symmetric] by blast
        next
          case 2
          then show ?thesis using e2 wf(1) fixed_sign [symmetric] by blast
        qed blast
      qed
    qed
  qed
qed

end
