(* ===== verification/Cap_Notify.thy ===== *)
theory Cap_Notify
  imports Cap_Issue "HOL-Library.Multiset"
begin

text \<open>
  The revocation subscribers: the fan-out over the array that is compacted while it is walked,
  the second walk of \<^verbatim>\<open>cap_revoke\<close>, and that \<^verbatim>\<open>cap_revoke\<close> as a whole returns.
\<close>

section \<open>Vocabulary\<close>

text \<open>Who was told of which capability, and whose right was released, in a list of calls.\<close>

fun told :: "scall list \<Rightarrow> (mach_port \<times> u64) list" where
  "told [] = []"
| "told (Cap_revoke_notify p c # L) = (p, c) # told L"
| "told (_ # L) = told L"

fun released :: "scall list \<Rightarrow> mach_port list" where
  "released [] = []"
| "released (Mach_port_deallocate p # L) = p # released L"
| "released (_ # L) = released L"

text \<open>A bound on the steps of the second walk.\<close>

definition walk_cost :: "nat \<Rightarrow> u64 list \<Rightarrow> nat" where
  "walk_cost N stack = sum_list (map (\<lambda>c. 18 ^ (N - unat c)) stack)"

section \<open>The fan-out\<close>

lemma swap_remove:
  assumes "i < length xs"
  shows "mset (drop i (butlast (xs[i := last xs]))) = mset (drop (Suc i) xs)"
    "take i (butlast (xs[i := last xs])) = take i xs"
proof -
  obtain ys z where xs: "xs = ys @ [z]" using assms by (cases xs rule: rev_cases) auto
  show "mset (drop i (butlast (xs[i := last xs]))) = mset (drop (Suc i) xs)"
  proof (cases "i < length ys")
    case True
    then have "drop i (ys[i := z]) = z # drop (Suc i) ys" by (simp add: drop_update_cancel Cons_nth_drop_Suc [symmetric])
    then show ?thesis using True xs by (simp add: list_update_append)
  next
    case False
    then show ?thesis using xs assms by (simp add: list_update_append)
  qed
  show "take i (butlast (xs[i := last xs])) = take i xs"
    using xs assms by (cases "i < length ys") (simp_all add: list_update_append)
qed

lemma fanout_from_tells:
  "\<exists>L. scalls (fanout_from A c i s) = scalls s @ L \<and>
     mset (told L) = image_mset (\<lambda>p. (p, c)) (mset (drop i (revoke_subscribers s))) \<and>
     mset (drop i (revoke_subscribers s)) =
       mset (drop i (revoke_subscribers (fanout_from A c i s))) + mset (released L) \<and>
     take i (revoke_subscribers (fanout_from A c i s)) = take i (revoke_subscribers s) \<and>
     same_srv s (fanout_from A c i s) \<and> g_table (fanout_from A c i s) = g_table s"
proof (induction A c i s rule: fanout_from.induct)
  case (1 A c i s)
  let ?xs = "revoke_subscribers s"
  let ?s1 = "snd (scall A (Cap_revoke_notify (?xs ! i) c) s)"
  show ?case
  proof (cases "i < length ?xs")
    case False
    then show ?thesis by (subst (1 2 3 4 5) fanout_from.simps) (auto intro: exI [of _ "[]"])
  next
    case i: True
    have dr: "drop i ?xs = ?xs ! i # drop (Suc i) ?xs" using i by (simp add: Cons_nth_drop_Suc)
    show ?thesis
    proof (cases "fst (fst (scall A (Cap_revoke_notify (?xs ! i) c) s)) = KERN_SUCCESS")
      case False
      let ?s2 = "revoke_subscribers_remove_at i ?s1"
      have f: "fanout_from A c i s = fanout_from A c i ?s2"
        using i False by (subst fanout_from.simps) simp
      have s2: "scalls ?s2 = scalls s @ [Cap_revoke_notify (?xs ! i) c, Mach_port_deallocate (?xs ! i)]"
        "revoke_subscribers ?s2 = butlast (?xs[i := last ?xs])" "same_srv s ?s2" "g_table ?s2 = g_table s"
        by (simp_all add: revoke_subscribers_remove_at_def scall_def sdo_def Let_def same_srv_def)
      obtain L where L: "scalls (fanout_from A c i ?s2) = scalls ?s2 @ L"
        "mset (told L) = image_mset (\<lambda>p. (p, c)) (mset (drop i (revoke_subscribers ?s2)))"
        "mset (drop i (revoke_subscribers ?s2)) = mset (drop i (revoke_subscribers (fanout_from A c i ?s2))) + mset (released L)"
        "take i (revoke_subscribers (fanout_from A c i ?s2)) = take i (revoke_subscribers ?s2)"
        "same_srv ?s2 (fanout_from A c i ?s2)" "g_table (fanout_from A c i ?s2) = g_table ?s2"
        using 1(1) [OF i False] by blast
      have "same_srv s (fanout_from A c i ?s2)" using L(5) s2(3) by (simp add: same_srv_def)
      moreover have "mset (drop i ?xs) = add_mset (?xs ! i) (mset (drop i (revoke_subscribers ?s2)))"
        using swap_remove(1) [OF i] s2(2) dr by simp
      ultimately show ?thesis
        unfolding f using L s2 swap_remove(2) [OF i]
        by (intro exI [of _ "Cap_revoke_notify (?xs ! i) c # Mach_port_deallocate (?xs ! i) # L"]) simp
    next
      case True
      have f: "fanout_from A c i s = fanout_from A c (i + 1) ?s1" using i True by (subst fanout_from.simps) simp
      have s1: "scalls ?s1 = scalls s @ [Cap_revoke_notify (?xs ! i) c]" "revoke_subscribers ?s1 = ?xs"
        "same_srv s ?s1" "g_table ?s1 = g_table s"
        by (simp_all add: scall_def same_srv_def)
      let ?s' = "fanout_from A c (i + 1) ?s1"
      obtain L where L: "scalls ?s' = scalls ?s1 @ L"
        "mset (told L) = image_mset (\<lambda>p. (p, c)) (mset (drop (i + 1) (revoke_subscribers ?s1)))"
        "mset (drop (i + 1) (revoke_subscribers ?s1)) = mset (drop (i + 1) (revoke_subscribers ?s')) + mset (released L)"
        "take (i + 1) (revoke_subscribers ?s') = take (i + 1) (revoke_subscribers ?s1)"
        "same_srv ?s1 ?s'" "g_table ?s' = g_table ?s1"
        using 1(2) [OF i] True by blast
      have tk: "take (Suc i) (revoke_subscribers ?s') = take (Suc i) ?xs" using L(4) s1(2) by simp
      have len: "i < length (revoke_subscribers ?s')" using arg_cong [OF tk, of length] i by simp
      have nth: "revoke_subscribers ?s' ! i = ?xs ! i" using arg_cong [OF tk, of "\<lambda>l. l ! i"] by simp
      have "drop i (revoke_subscribers ?s') = ?xs ! i # drop (Suc i) (revoke_subscribers ?s')"
        using len nth by (metis Cons_nth_drop_Suc)
      moreover have "take i (revoke_subscribers ?s') = take i ?xs"
        using arg_cong [OF tk, of "take i"] by simp
      moreover have "same_srv s ?s'" using L(5) s1(3) by (simp add: same_srv_def)
      ultimately show ?thesis
        unfolding f using L s1 dr by (intro exI [of _ "Cap_revoke_notify (?xs ! i) c # L"]) simp
    qed
  qed
qed

lemma fanout_frame: "same_srv s (fanout_revoke_notify A c s)"
  using fanout_from_tells [of A c 0 s] by (auto simp: fanout_revoke_notify_def)

section \<open>The second walk\<close>

lemma walk_cost_append: "walk_cost N (xs @ ys) = walk_cost N xs + walk_cost N ys"
  by (simp add: walk_cost_def)

lemma walk_cost_bound:
  assumes "length xs \<le> 17" "\<And>x. x \<in> set xs \<Longrightarrow> unat c < unat x" "unat c < N"
  shows "walk_cost N xs < 18 ^ (N - unat c)"
proof -
  have "walk_cost N xs \<le> length xs * 18 ^ (N - unat c - 1)"
    using assms(2)
  proof (induction xs)
    case (Cons x xs)
    have "N - unat x \<le> N - unat c - 1" using Cons.prems [of x] assms(3) by simp
    then have "(18::nat) ^ (N - unat x) \<le> 18 ^ (N - unat c - 1)" by (intro power_increasing) simp_all
    moreover have "walk_cost N xs \<le> length xs * 18 ^ (N - unat c - 1)" using Cons by simp
    moreover have "walk_cost N (x # xs) = 18 ^ (N - unat x) + walk_cost N xs" by (simp add: walk_cost_def)
    ultimately show ?case unfolding list.size mult_Suc add_Suc_right add_0_right using add_mono by metis
  qed (simp add: walk_cost_def)
  also have "\<dots> \<le> 17 * 18 ^ (N - unat c - 1)" using assms(1) by (intro mult_right_mono) simp_all
  also have "\<dots> < 18 * 18 ^ (N - unat c - 1)" by simp
  also have "\<dots> = 18 ^ (N - unat c)" using assms(3) by (simp add: power_eq_if)
  finally show ?thesis .
qed

lemma same_srv_trans: "same_srv s s' \<Longrightarrow> same_srv s' s'' \<Longrightarrow> same_srv s s''"
  by (simp add: same_srv_def)

text \<open>The walk ends and leaves the table alone.\<close>

lemma notify_loop_total:
  assumes "srv_inv s" "J s" and fan: "\<And>c s. J s \<Longrightarrow> J (fanout_revoke_notify A c s)"
  shows "\<exists>s'. notify_loop A stack s = Some s' \<and> same_srv s s' \<and> J s'"
  using assms(1,2)
proof (induction "walk_cost (unat (next_cap_id s)) stack" arbitrary: s stack rule: less_induct)
  case less
  let ?N = "unat (next_cap_id s)"
  show ?case
  proof (cases stack)
    case Nil
    then show ?thesis using less.prems by (subst notify_loop.simps) simp
  next
    case (Cons c st)
    show ?thesis
    proof (cases "cap_table_find_by_id c s")
      case None
      have "walk_cost ?N st < walk_cost ?N stack" using Cons by (simp add: walk_cost_def)
      moreover have "notify_loop A stack s = notify_loop A st s" using Cons None by (subst notify_loop.simps) simp
      ultimately show ?thesis using less by simp
    next
      case (Some e)
      let ?s = "fanout_revoke_notify A c s"
      have sv: "same_srv s ?s" by (rule fanout_frame)
      have t: "tok s c = Some (ce_token e)" using Some by (simp add: tok_def)
      obtain cs where cs: "sib_chain (tok s) (first_child_cap_id (ce_token e)) cs" "distinct cs" "set cs = children (tok s) c"
        using tree_childrenE [OF less.prems(1) t] by blast
      let ?new = "rev (take (CAP_MAX_DEPTH + 1 - length st) cs)"
      have push: "push_children ?s (first_child_cap_id (ce_token e)) st = ?new @ st"
        using push_children_chain [of ?s] cs(1) same_srvD [OF sv] by simp
      have "unat c < unat x" if "x \<in> set ?new" for x
        using that cs(3) tree_okD(4) [of "tok s" c] t less.prems(1)
        by (auto simp: srv_inv_def word_less_nat_alt dest: in_set_takeD)
      moreover have "unat c < ?N" using less.prems(1) t by (auto simp: srv_inv_def word_less_nat_alt)
      ultimately have "walk_cost ?N ?new < 18 ^ (?N - unat c)"
        by (intro walk_cost_bound) (simp_all add: CAP_MAX_DEPTH_def)
      then have "walk_cost ?N (?new @ st) < walk_cost ?N stack"
        using Cons by (simp add: walk_cost_append) (simp add: walk_cost_def)
      moreover have "next_cap_id ?s = next_cap_id s" using sv by (simp add: same_srv_def)
      ultimately obtain s' where "notify_loop A (?new @ st) ?s = Some s'" "same_srv ?s s'" "J s'"
        using less.hyps [of ?s "?new @ st"] same_srv_inv [OF sv less.prems(1)] fan [OF less.prems(2)] by auto
      moreover have "notify_loop A stack s = notify_loop A (?new @ st) ?s"
        using Cons Some push by (subst notify_loop.simps) simp
      ultimately show ?thesis using same_srv_trans [OF sv] by auto
    qed
  qed
qed

section \<open>The handler\<close>

text \<open>What \<^verbatim>\<open>cap_revoke\<close> does to the table is what its first loop does.\<close>

lemma cap_revoke_table:
  assumes "srv_inv s" "tok s c \<noteq> None" "revoke_loop [c] 0 s = Some (n, s1)" "srv_inv s1"
    and "J s1" "\<And>c s. J s \<Longrightarrow> J (fanout_revoke_notify A c s)"
  shows "\<exists>s'. cap_revoke A c s = Some (KERN_SUCCESS, s') \<and> same_srv s1 s' \<and> srv_inv s' \<and> J s'"
proof -
  obtain e where e: "cap_table_find_by_id c s = Some e" using assms(2) by (auto simp: tok_def)
  obtain s2 where s2: "notify_loop A [c] s1 = Some s2" "same_srv s1 s2" "J s2"
    using notify_loop_total [where J = J, OF assms(4,5,6)] by blast
  show ?thesis
  proof (cases "revoke_subscribers s1 \<noteq> [] \<and> n > 0")
    case True
    then have "cap_revoke A c s = Some (KERN_SUCCESS, s2)" using e assms(3) s2(1) by (simp add: cap_revoke_def)
    then show ?thesis using s2(2,3) same_srv_inv [OF s2(2) assms(4)] by blast
  next
    case False
    then have "cap_revoke A c s = Some (KERN_SUCCESS, s1)" using e assms(3) by (auto simp: cap_revoke_def)
    then show ?thesis using assms(4,5) same_srv_refl by blast
  qed
qed

lemma subs_fanout:
  "mset (revoke_subscribers (fanout_revoke_notify A c s)) \<subseteq># mset (revoke_subscribers s)"
  using fanout_from_tells [of A c 0 s] by (auto simp: fanout_revoke_notify_def)

lemma cap_revoke_total:
  assumes "srv_inv s"
  shows "\<exists>kr s'. cap_revoke A c s = Some (kr, s') \<and> srv_inv s' \<and> next_cap_id s' = next_cap_id s \<and>
    cap_hmac_key s' = cap_hmac_key s \<and> mset (revoke_subscribers s') \<subseteq># mset (revoke_subscribers s) \<and>
    (\<forall>x. dead (tok s) x \<longrightarrow> dead (tok s') x) \<and> (kr = KERN_SUCCESS \<longrightarrow> dead (tok s') c)"
proof (cases "tok s c")
  case None
  then have "cap_revoke A c s = Some (CAP_ERR_INVALID_TOKEN, s)" by (simp add: cap_revoke_def tok_def)
  then show ?thesis using assms by simp
next
  case (Some t)
  obtain n s1 where s1: "revoke_loop [c] 0 s = Some (n, s1)" "srv_inv s1" "revoked_to s s1" "dead (tok s1) c"
    using revoke_loop_marks [OF assms, of "[c]" 0] Some by auto
  let ?J = "\<lambda>s'. mset (revoke_subscribers s') \<subseteq># mset (revoke_subscribers s)"
  have j1: "?J s1" using s1(3) by (simp add: revoked_to_def)
  have j2: "?J (fanout_revoke_notify A c s')" if "?J s'" for c s'
    using subs_fanout that by (rule subset_mset.order_trans)
  have c: "tok s c \<noteq> None" using Some by simp
  obtain s' where s': "cap_revoke A c s = Some (KERN_SUCCESS, s')" "same_srv s1 s'" "srv_inv s'" "?J s'"
    using cap_revoke_table [where J = ?J, OF assms c s1(1,2) j1 j2] by blast
  have "tok s' = tok s1" "next_cap_id s' = next_cap_id s1" "cap_hmac_key s' = cap_hmac_key s1"
    using same_srvD [OF s'(2)] s'(2) by (simp_all add: same_srv_def)
  then show ?thesis using s' s1(3,4) by (simp add: revoked_to_def)
qed

text \<open>A cascade marks nothing but the capability it starts from and its descendants.\<close>

lemma revoke_loop_only:
  assumes "srv_inv s"
  shows "\<exists>n s'. revoke_loop [r] 0 s = Some (n, s') \<and>
    (\<forall>c. dead (tok s') c \<longrightarrow> dead (tok s) c \<or> c \<in> insert r (descendants (tok s) r))"
proof -
  let ?D = "insert r (descendants (tok s) r)"
  let ?J = "\<lambda>st s'. same_shape (tok s) (tok s') \<and> set st \<subseteq> ?D \<and> (\<forall>c. dead (tok s') c \<longrightarrow> dead (tok s) c \<or> c \<in> ?D)"
  have "\<exists>n s'. revoke_loop [r] 0 s = Some (n, s') \<and> srv_inv s' \<and> ?J [] s' \<and> 0 \<le> n"
  proof (rule revoke_loop_rule [where J = ?J, OF assms])
    show "?J [r] s" by simp
  next
    fix c st s' assume "srv_inv s'" "?J (c # st) s'" "c \<notin> live s'"
    then show "?J st s'" by simp
  next
    fix c t st s' assume s': "srv_inv s'" "?J (c # st) s'" "tok s' c = Some t" "revoked t = 0"
    let ?s = "cap_table_mark_revoked c s'"
    have ok: "srv_ok s'" by (rule srv_inv_ok [OF s'(1)])
    obtain cs where cs: "sib_chain (tok s') (first_child_cap_id t) cs" "set cs = children (tok s) c"
      using tree_childrenE [OF s'(1,3)] children_shape [of "tok s" "tok s'"] s'(2) by metis
    have cD: "c \<in> ?D" using s'(2) by simp
    have "set cs \<subseteq> ?D" using cs(2) descendants_child [OF cD] by blast
    then have "set (push_children ?s (first_child_cap_id t) st) \<subseteq> ?D"
      unfolding push_after_mark [OF s'(1,3) cs(1)] using s'(2) set_take_subset [of _ cs] by auto
    moreover have "same_shape (tok s) (tok ?s)" using s'(2) mark_shape [OF ok] same_shape_trans by blast
    moreover have "\<forall>x. dead (tok ?s) x \<longrightarrow> dead (tok s) x \<or> x \<in> ?D" using mark_dead [OF ok] s'(2) cD by metis
    ultimately show "?J (push_children ?s (first_child_cap_id t) st) ?s" by blast
  qed
  then show ?thesis by blast
qed

lemma sib_chain_unique: "sib_chain m a xs \<Longrightarrow> sib_chain m a ys \<Longrightarrow> xs = ys"
proof (induction xs arbitrary: a ys)
  case Nil
  then show ?case by (cases ys) auto
next
  case (Cons x xs)
  then show ?case by (cases ys) auto
qed

text \<open>
  A child the first push has no room for is never reached: it is a child of nothing but the
  capability that has just been marked.
\<close>

lemma revoke_loop_misses:
  assumes s: "srv_inv s" and p: "tok s p = Some t" "revoked t = 0"
    and cs: "sib_chain (tok s) (first_child_cap_id t) cs" and c: "c \<in> set (drop (CAP_MAX_DEPTH + 1) cs)" "\<not> dead (tok s) c"
  shows "\<exists>n s'. revoke_loop [p] 0 s = Some (n, s') \<and> srv_inv s' \<and> same_shape (tok s) (tok s') \<and> \<not> dead (tok s') c"
proof -
  obtain ds where ds: "sib_chain (tok s) (first_child_cap_id t) ds" "distinct ds" "set ds = children (tok s) p"
    using tree_childrenE [OF s p(1)] by blast
  have cd: "cs = ds" by (rule sib_chain_unique [OF cs ds(1)])
  have cp: "c \<in> children (tok s) p" using c(1) cd ds(3) by (auto dest: in_set_dropD)
  have cnp: "c \<noteq> p" using tree_okD(4) [of "tok s" p, OF _ p(1) cp] s by (auto simp: srv_inv_def)
  have ctk: "c \<notin> set (take (CAP_MAX_DEPTH + 1) cs)"
    using c(1) ds(2) cd set_take_disj_set_drop_if_distinct [of cs "CAP_MAX_DEPTH + 1" "CAP_MAX_DEPTH + 1"] by blast
  let ?J = "\<lambda>st s'. same_shape (tok s) (tok s') \<and> \<not> dead (tok s') c \<and> (st = [p] \<and> s' = s \<or> c \<notin> set st \<and> dead (tok s') p)"
  have "\<exists>n s'. revoke_loop [p] 0 s = Some (n, s') \<and> srv_inv s' \<and> ?J [] s' \<and> 0 \<le> n"
  proof (rule revoke_loop_rule [where J = ?J, OF s])
    show "?J [p] s" using c(2) by simp
  next
    fix x st s' assume "srv_inv s'" "?J (x # st) s'" "x \<notin> live s'"
    then show "?J st s'" using p by (auto simp: live_def)
  next
    fix x u st s' assume s': "srv_inv s'" "?J (x # st) s'" "tok s' x = Some u" "revoked u = 0"
    let ?s = "cap_table_mark_revoked x s'"
    have ok: "srv_ok s'" by (rule srv_inv_ok [OF s'(1)])
    have sh: "same_shape (tok s) (tok ?s)" using s'(2) mark_shape [OF ok] same_shape_trans by blast
    have dd: "dead (tok ?s) y \<longleftrightarrow> dead (tok s') y \<or> y = x" for y using mark_dead [OF ok] s'(3) by auto
    obtain es where es: "sib_chain (tok s') (first_child_cap_id u) es" "set es = children (tok s) x"
      using tree_childrenE [OF s'(1,3)] children_shape [of "tok s" "tok s'"] s'(2) by metis
    have push: "push_children ?s (first_child_cap_id u) st = rev (take (CAP_MAX_DEPTH + 1 - length st) es) @ st"
      by (rule push_after_mark [OF s'(1,3) es(1)])
    consider "x = p" "st = []" "s' = s" | "c \<notin> set (x # st)" "dead (tok s') p" using s'(2) by auto
    then show "?J (push_children ?s (first_child_cap_id u) st) ?s"
    proof cases
      case 1
      then have "es = cs" using sib_chain_unique es(1) cs s'(3) p(1) by simp
      then show ?thesis using 1 sh dd s'(2) ctk cnp push by simp
    next
      case 2
      have "x \<noteq> p" using 2(2) s'(3,4) by (auto simp: dead_def)
      then have "c \<notin> set es" using es(2) children_unique cp by metis
      then have "c \<notin> set (take (CAP_MAX_DEPTH + 1 - length st) es)" by (meson in_set_takeD)
      then show ?thesis using 2 sh dd s'(2) push by simp
    qed
  qed
  then show ?thesis by auto
qed

end
