(* ===== verification/Cap_Kernel.thy ===== *)
theory Cap_Kernel
  imports Cap_Types Id_Table
begin

text \<open>
  The capability subsystem of the kernel, \<^verbatim>\<open>mach_kernel/kern/cap.c\<close>: the key installed by the
  capability server, the table of revoked and consumed identifiers, and the four traps.  Every
  trap runs under one lock except that allocating a table entry drops it; a trap that has to
  allocate is therefore split at that point into a start and a resumption, and other threads
  may run in between.  \<^verbatim>\<open>kstep\<close> interleaves any number of threads in this way.
\<close>

section \<open>State\<close>

record cap_state_entry =
  se_cap_id :: u64
  se_flags :: u32
  uses_left :: u32

definition CAP_FLAG_REVOKED :: u32 where "CAP_FLAG_REVOKED = 1"
definition CAP_FLAG_CONSUMED :: u32 where "CAP_FLAG_CONSUMED = 2"
definition CAP_STATE_BUCKETS :: nat where "CAP_STATE_BUCKETS = 256"

text \<open>Tasks are numbered; 0 is \<^verbatim>\<open>TASK_NULL\<close>.\<close>

record kcap =
  cap_state_table :: "cap_state_entry list list"
  k_hmac_key :: "byte list"
  cap_key_set :: bool
  cap_server_task :: nat

definition cap_init :: kcap where
  "cap_init = \<lparr>cap_state_table = replicate CAP_STATE_BUCKETS [], k_hmac_key = replicate 32 0,
     cap_key_set = False, cap_server_task = 0\<rparr>"

section \<open>The table\<close>

definition cap_bucket :: "u64 \<Rightarrow> nat" where
  "cap_bucket x =
     (let x = x XOR drop_bit 33 x;
          x = x * 0xff51afd7ed558ccd;
          x = x XOR drop_bit 33 x
      in unat (x AND 255))"

definition cap_state_lookup :: "u64 \<Rightarrow> kcap \<Rightarrow> cap_state_entry option" where
  "cap_state_lookup c s = bucket_find cap_bucket se_cap_id c (cap_state_table s)"

text \<open>Linking a fresh entry at the head of its bucket, and changing one in place.\<close>

definition cap_state_insert :: "cap_state_entry \<Rightarrow> kcap \<Rightarrow> kcap" where
  "cap_state_insert e s = s\<lparr>cap_state_table := bucket_add cap_bucket se_cap_id e (cap_state_table s)\<rparr>"

definition cap_state_change :: "u64 \<Rightarrow> (cap_state_entry \<Rightarrow> cap_state_entry) \<Rightarrow> kcap \<Rightarrow> kcap" where
  "cap_state_change c f s = s\<lparr>cap_state_table := bucket_change cap_bucket se_cap_id c f (cap_state_table s)\<rparr>"

definition new_state_entry :: "u64 \<Rightarrow> cap_state_entry" where
  "new_state_entry c = \<lparr>se_cap_id = c, se_flags = 0, uses_left = 0\<rparr>"

text \<open>
  The second half of \<^verbatim>\<open>cap_state_get_or_create\<close>, after the allocation succeeded and the lock is
  held again: another thread may have inserted the identifier meanwhile.
\<close>

definition get_or_create_relocked :: "u64 \<Rightarrow> kcap \<Rightarrow> kcap" where
  "get_or_create_relocked c s =
     (case cap_state_lookup c s of Some _ \<Rightarrow> s | None \<Rightarrow> cap_state_insert (new_state_entry c) s)"

section \<open>Validation\<close>

definition cap_hmac_check :: "uros_cap \<Rightarrow> kcap \<Rightarrow> bool" where
  "cap_hmac_check t s = hmac_sha256_equal (cap_mac (k_hmac_key s) (cap_body t)) (cap_hmac t)"

text \<open>\<open>copyin\<close>: the bytes at the user pointer, \<open>None\<close> for a null or bad one.\<close>

definition cap_copyin_token :: "byte list option \<Rightarrow> uros_cap option" where
  "cap_copyin_token p = map_option cap_of_bytes p"

definition cap_check_locked :: "uros_cap \<Rightarrow> u32 \<Rightarrow> u64 \<Rightarrow> kcap \<Rightarrow> kern_return" where
  "cap_check_locked t op rid s =
     (if \<not> cap_key_set s then CAP_ERR_INTERNAL
      else if \<not> cap_hmac_check t s then CAP_ERR_INVALID_TOKEN
      else if resource_id t \<noteq> rid then CAP_ERR_RESOURCE_MISMATCH
      else if allowed_ops t AND ucast op \<noteq> ucast op then CAP_ERR_OP_NOT_ALLOWED
      else if revoked t \<noteq> 0 then CAP_ERR_REVOKED
      else case cap_state_lookup (cap_id t) s of
             Some e \<Rightarrow> if se_flags e AND CAP_FLAG_REVOKED \<noteq> 0 then CAP_ERR_REVOKED else KERN_SUCCESS
           | None \<Rightarrow> KERN_SUCCESS)"

section \<open>Traps\<close>

definition urmach_cap_verify :: "byte list option \<Rightarrow> u32 \<Rightarrow> u64 \<Rightarrow> kcap \<Rightarrow> kern_return" where
  "urmach_cap_verify p op rid s =
     (case cap_copyin_token p of
        None \<Rightarrow> CAP_ERR_INVALID_TOKEN
      | Some t \<Rightarrow> cap_check_locked t op rid s)"

text \<open>The rest of \<^verbatim>\<open>urmach_cap_use\<close> once the entry of the token exists.\<close>

definition use_entry :: "uros_cap \<Rightarrow> kcap \<Rightarrow> kern_return \<times> kcap" where
  "use_entry t s =
     (case cap_state_lookup (cap_id t) s of
        None \<Rightarrow> (CAP_ERR_NO_MEMORY, s)
      | Some e \<Rightarrow>
          if se_flags e AND CAP_FLAG_REVOKED \<noteq> 0 then (CAP_ERR_REVOKED, s)
          else
            (let e = (if se_flags e AND CAP_FLAG_CONSUMED = 0
                      then e\<lparr>uses_left := max_uses t, se_flags := se_flags e OR CAP_FLAG_CONSUMED\<rparr> else e)
             in if uses_left e = 0 then (CAP_ERR_EXHAUSTED, cap_state_change (cap_id t) (\<lambda>_. e) s)
                else (KERN_SUCCESS, cap_state_change (cap_id t) (\<lambda>_. e\<lparr>uses_left := uses_left e - 1\<rparr>) s)))"

text \<open>A trap either finishes at once or waits for an allocation with the lock dropped.\<close>

datatype 'a trap = Done kern_return | Allocating 'a

definition cap_use_start :: "byte list option \<Rightarrow> u32 \<Rightarrow> u64 \<Rightarrow> kcap \<Rightarrow> uros_cap trap \<times> kcap" where
  "cap_use_start p op rid s =
     (case cap_copyin_token p of
        None \<Rightarrow> (Done CAP_ERR_INVALID_TOKEN, s)
      | Some t \<Rightarrow>
          (let kr = cap_check_locked t op rid s
           in if kr \<noteq> KERN_SUCCESS then (Done kr, s)
              else if max_uses t = 0 then (Done KERN_SUCCESS, s)
              else case cap_state_lookup (cap_id t) s of
                     None \<Rightarrow> (Allocating t, s)
                   | Some _ \<Rightarrow> (let (kr, s) = use_entry t s in (Done kr, s))))"

definition cap_use_resume :: "bool \<Rightarrow> uros_cap \<Rightarrow> kcap \<Rightarrow> kern_return \<times> kcap" where
  "cap_use_resume kalloc_ok t s =
     (if \<not> kalloc_ok then (CAP_ERR_NO_MEMORY, s) else use_entry t (get_or_create_relocked (cap_id t) s))"

text \<open>The whole trap; \<open>other\<close> is what other threads do to the state while the lock is dropped.\<close>

definition urmach_cap_use ::
  "bool \<Rightarrow> (kcap \<Rightarrow> kcap) \<Rightarrow> byte list option \<Rightarrow> u32 \<Rightarrow> u64 \<Rightarrow> kcap \<Rightarrow> kern_return \<times> kcap" where
  "urmach_cap_use kalloc_ok other p op rid s =
     (case cap_use_start p op rid s of
        (Done kr, s) \<Rightarrow> (kr, s)
      | (Allocating t, s) \<Rightarrow> cap_use_resume kalloc_ok t (other s))"

definition set_revoked :: "u64 \<Rightarrow> kcap \<Rightarrow> kcap" where
  "set_revoked c = cap_state_change c (\<lambda>e. e\<lparr>se_flags := se_flags e OR CAP_FLAG_REVOKED\<rparr>)"

definition cap_revoke_start :: "nat \<Rightarrow> u64 \<Rightarrow> kcap \<Rightarrow> u64 trap \<times> kcap" where
  "cap_revoke_start caller c s =
     (if \<not> cap_key_set s \<or> caller \<noteq> cap_server_task s then (Done CAP_ERR_UNAUTHORIZED, s)
      else case cap_state_lookup c s of
             None \<Rightarrow> (Allocating c, s)
           | Some _ \<Rightarrow> (Done KERN_SUCCESS, set_revoked c s))"

definition cap_revoke_resume :: "bool \<Rightarrow> u64 \<Rightarrow> kcap \<Rightarrow> kern_return \<times> kcap" where
  "cap_revoke_resume kalloc_ok c s =
     (if \<not> kalloc_ok then (CAP_ERR_NO_MEMORY, s)
      else (KERN_SUCCESS, set_revoked c (get_or_create_relocked c s)))"

definition urmach_cap_revoke :: "bool \<Rightarrow> (kcap \<Rightarrow> kcap) \<Rightarrow> nat \<Rightarrow> u64 \<Rightarrow> kcap \<Rightarrow> kern_return \<times> kcap" where
  "urmach_cap_revoke kalloc_ok other caller c s =
     (case cap_revoke_start caller c s of
        (Done kr, s) \<Rightarrow> (kr, s)
      | (Allocating c, s) \<Rightarrow> cap_revoke_resume kalloc_ok c (other s))"

definition urmach_cap_register :: "nat \<Rightarrow> byte list option \<Rightarrow> kcap \<Rightarrow> kern_return \<times> kcap" where
  "urmach_cap_register caller p s =
     (case cap_copyin_token p of
        None \<Rightarrow> (CAP_ERR_INVALID_TOKEN, s)
      | Some t \<Rightarrow>
          if cap_id t = 0 then
            (if cap_key_set s \<and> caller \<noteq> cap_server_task s then (CAP_ERR_UNAUTHORIZED, s)
             else (KERN_SUCCESS, s\<lparr>k_hmac_key := cap_hmac t, cap_key_set := True, cap_server_task := caller\<rparr>))
          else if \<not> cap_key_set s \<or> caller \<noteq> cap_server_task s then (CAP_ERR_UNAUTHORIZED, s)
          else (KERN_SUCCESS, s))"

section \<open>Interleaving\<close>

text \<open>A thread inside a trap, waiting for memory.\<close>

datatype pending = Using uros_cap | Revoking u64

datatype kevent = Verified u64 kern_return | Used u64 kern_return | Revoked u64 kern_return

datatype klabel =
    Verify_trap "byte list option" u32 u64
  | Use_trap nat "byte list option" u32 u64
  | Revoke_trap nat nat u64
  | Register_trap nat "byte list option"
  | Resume nat bool

record ksys =
  kc :: kcap
  waiting :: "nat \<rightharpoonup> pending"
  klog :: "kevent list"

text \<open>The identifier in the token at a user pointer.\<close>

definition token_id :: "byte list option \<Rightarrow> u64" where
  "token_id p = (case p of None \<Rightarrow> 0 | Some b \<Rightarrow> cap_id (cap_of_bytes b))"

text \<open>
  One step: a thread enters a trap and runs until it is done or waits for memory, or a waiting
  thread resumes.  A label for a thread that is already waiting, or a resumption of one that is
  not, does nothing.
\<close>

definition resume_thread :: "nat \<Rightarrow> bool \<Rightarrow> ksys \<Rightarrow> ksys" where
  "resume_thread th ok w =
     (case waiting w th of
        None \<Rightarrow> w
      | Some (Using t) \<Rightarrow>
          (let (kr, s) = cap_use_resume ok t (kc w)
           in w\<lparr>kc := s, waiting := (waiting w)(th := None), klog := klog w @ [Used (cap_id t) kr]\<rparr>)
      | Some (Revoking c) \<Rightarrow>
          (let (kr, s) = cap_revoke_resume ok c (kc w)
           in w\<lparr>kc := s, waiting := (waiting w)(th := None), klog := klog w @ [Revoked c kr]\<rparr>))"

fun kstep :: "klabel \<Rightarrow> ksys \<Rightarrow> ksys" where
  "kstep (Verify_trap p op rid) w = w\<lparr>klog := klog w @ [Verified (token_id p) (urmach_cap_verify p op rid (kc w))]\<rparr>"
| "kstep (Use_trap th p op rid) w =
     (if waiting w th \<noteq> None then w
      else case cap_use_start p op rid (kc w) of
             (Done kr, s) \<Rightarrow> w\<lparr>kc := s, klog := klog w @ [Used (token_id p) kr]\<rparr>
           | (Allocating t, s) \<Rightarrow> w\<lparr>kc := s, waiting := (waiting w)(th \<mapsto> Using t)\<rparr>)"
| "kstep (Revoke_trap th caller c) w =
     (if waiting w th \<noteq> None then w
      else case cap_revoke_start caller c (kc w) of
             (Done kr, s) \<Rightarrow> w\<lparr>kc := s, klog := klog w @ [Revoked c kr]\<rparr>
           | (Allocating c, s) \<Rightarrow> w\<lparr>kc := s, waiting := (waiting w)(th \<mapsto> Revoking c)\<rparr>)"
| "kstep (Register_trap caller p) w = w\<lparr>kc := snd (urmach_cap_register caller p (kc w))\<rparr>"
| "kstep (Resume th ok) w = resume_thread th ok w"

definition ksys_init :: ksys where
  "ksys_init = \<lparr>kc = cap_init, waiting = (\<lambda>_. None), klog = []\<rparr>"

section \<open>Vocabulary of the properties\<close>

definition kcap_ok :: "kcap \<Rightarrow> bool" where
  "kcap_ok s \<longleftrightarrow> bucket_ok cap_bucket se_cap_id CAP_STATE_BUCKETS (cap_state_table s)"

text \<open>How many uses of \<open>c\<close> have succeeded.\<close>

definition successes :: "u64 \<Rightarrow> kevent list \<Rightarrow> nat" where
  "successes c l = length (filter (\<lambda>e. e = Used c KERN_SUCCESS) l)"

text \<open>Every token presented for \<open>c\<close> carries the limit \<open>m\<close>.\<close>

fun limit_is :: "u64 \<Rightarrow> u32 \<Rightarrow> klabel \<Rightarrow> bool" where
  "limit_is c m (Use_trap th (Some b) op rid) = (cap_id (cap_of_bytes b) = c \<longrightarrow> max_uses (cap_of_bytes b) = m)"
| "limit_is c m _ = True"

text \<open>The entry of \<open>c\<close> accounts for \<open>n\<close> uses out of \<open>m\<close>.\<close>

definition count_ok :: "u64 \<Rightarrow> u32 \<Rightarrow> nat \<Rightarrow> kcap \<Rightarrow> bool" where
  "count_ok c m n s =
     (case cap_state_lookup c s of
        None \<Rightarrow> n = 0
      | Some e \<Rightarrow> if se_flags e AND CAP_FLAG_CONSUMED = 0 then n = 0 else n + unat (uses_left e) = unat m)"

definition uses_inv :: "u64 \<Rightarrow> u32 \<Rightarrow> ksys \<Rightarrow> bool" where
  "uses_inv c m w \<longleftrightarrow> kcap_ok (kc w) \<and>
     (\<forall>th t. waiting w th = Some (Using t) \<longrightarrow> cap_id t = c \<longrightarrow> max_uses t = m) \<and>
     count_ok c m (successes c (klog w)) (kc w)"

definition is_revoked :: "u64 \<Rightarrow> kcap \<Rightarrow> bool" where
  "is_revoked c s = (case cap_state_lookup c s of None \<Rightarrow> False | Some e \<Rightarrow> se_flags e AND CAP_FLAG_REVOKED \<noteq> 0)"

text \<open>An answer that lets the holder of \<open>c\<close> through.\<close>

definition granted :: "u64 \<Rightarrow> kevent \<Rightarrow> bool" where
  "granted c e \<longleftrightarrow> e = Verified c KERN_SUCCESS \<or> e = Used c KERN_SUCCESS"

text \<open>Tokens for the examples: the setup token that carries a key, and a use-once token.\<close>

definition setup_token :: "byte list \<Rightarrow> uros_cap" where
  "setup_token key = zero_cap\<lparr>cap_hmac := key\<rparr>"

definition once_token :: uros_cap where
  "once_token = cap_sign (replicate 32 7) (zero_cap\<lparr>cap_id := 9, allowed_ops := 3, max_uses := 1\<rparr>)"

text \<open>A setup or ordinary registration by the task \<open>task\<close>.\<close>

fun registers :: "nat \<Rightarrow> klabel \<Rightarrow> bool" where
  "registers task (Register_trap caller p) = (caller = task)"
| "registers task _ = False"

section \<open>The table implements the store\<close>

lemma cap_bucket_less: "cap_bucket c < CAP_STATE_BUCKETS"
proof -
  have "unat (x AND 255 :: u64) < 256" for x
    using unat_and_mask_mod [of x 8] by (simp add: mask_eq_exp_minus_1)
  then show ?thesis by (simp add: cap_bucket_def Let_def CAP_STATE_BUCKETS_def)
qed

lemmas kbuckets = id_store_buckets [of cap_bucket CAP_STATE_BUCKETS se_cap_id, OF cap_bucket_less]

interpretation kstate: id_store kcap_ok cap_state_lookup cap_state_insert cap_state_change se_cap_id
  by unfold_locales
    (simp_all add: kcap_ok_def cap_state_lookup_def cap_state_insert_def cap_state_change_def
      id_store.ok_create [OF kbuckets] id_store.ok_change [OF kbuckets]
      id_store.look_create [OF kbuckets] id_store.look_change [OF kbuckets])

section \<open>Lemmas\<close>

lemma flag_simps [simp]:
  "(x OR CAP_FLAG_CONSUMED) AND CAP_FLAG_CONSUMED \<noteq> 0" "(x OR CAP_FLAG_REVOKED) AND CAP_FLAG_REVOKED \<noteq> 0"
  "(x OR CAP_FLAG_CONSUMED) AND CAP_FLAG_REVOKED = x AND CAP_FLAG_REVOKED"
  "(x OR CAP_FLAG_REVOKED) AND CAP_FLAG_CONSUMED = x AND CAP_FLAG_CONSUMED"
  by (simp_all add: CAP_FLAG_CONSUMED_def CAP_FLAG_REVOKED_def bit.conj_disj_distrib2 or_eq_0_iff)

lemma flag_nonzero [simp]: "CAP_FLAG_CONSUMED \<noteq> 0" "CAP_FLAG_REVOKED \<noteq> 0"
  by (simp_all add: CAP_FLAG_CONSUMED_def CAP_FLAG_REVOKED_def)

lemma kcap_ok_init: "kcap_ok cap_init"
  unfolding kcap_ok_def cap_init_def by (simp add: bucket_ok_empty cap_bucket_less)

lemma lookup_init: "cap_state_lookup c cap_init = None"
  by (simp add: cap_state_lookup_def cap_init_def cap_bucket_less)

text \<open>The entry found has the identifier looked for.\<close>

lemma lookup_id: "cap_state_lookup c s = Some e \<Longrightarrow> se_cap_id e = c"
  unfolding cap_state_lookup_def bucket_find_def by (drule chain_find_SomeD) simp

lemma relocked:
  assumes "kcap_ok s"
  shows "kcap_ok (get_or_create_relocked c s)"
    and "cap_state_lookup k (get_or_create_relocked c s) =
      (if k = c \<and> cap_state_lookup c s = None then Some (new_state_entry c) else cap_state_lookup k s)"
proof -
  have id: "se_cap_id (new_state_entry c) = c" by (simp add: new_state_entry_def)
  then show "kcap_ok (get_or_create_relocked c s)"
    using kstate.ok_create [OF assms, of "new_state_entry c"] assms
    by (simp add: get_or_create_relocked_def split: option.split)
  show "cap_state_lookup k (get_or_create_relocked c s) =
      (if k = c \<and> cap_state_lookup c s = None then Some (new_state_entry c) else cap_state_lookup k s)"
    using kstate.look_create [OF assms, of "new_state_entry c" k] id
    by (auto simp: get_or_create_relocked_def split: option.split)
qed

text \<open>Replacing an entry by one with the same identifier.\<close>

lemma change_const:
  assumes "kcap_ok s" and "cap_state_lookup c s = Some e" and "se_cap_id e' = c"
  shows "kcap_ok (cap_state_change c (\<lambda>_. e') s)"
    and "cap_state_lookup k (cap_state_change c (\<lambda>_. e') s) = (if k = c then Some e' else cap_state_lookup k s)"
proof -
  let ?f = "\<lambda>x. if se_cap_id x = c then e' else x"
  have f: "se_cap_id (?f x) = se_cap_id x" for x using assms(3) by simp
  have same: "chain_change se_cap_id c (\<lambda>_. e') es = chain_change se_cap_id c ?f es" for es
    by (induction es) simp_all
  then have eq: "cap_state_change c (\<lambda>_. e') s = cap_state_change c ?f s"
    by (simp add: cap_state_change_def bucket_change_def)
  show "kcap_ok (cap_state_change c (\<lambda>_. e') s)" unfolding eq by (rule kstate.ok_change [OF assms(1) f])
  show "cap_state_lookup k (cap_state_change c (\<lambda>_. e') s) = (if k = c then Some e' else cap_state_lookup k s)"
    unfolding eq kstate.look_change [OF assms(1) f] using assms(2) lookup_id [OF assms(2)] by simp
qed

lemma set_revoked:
  assumes "kcap_ok s"
  shows "kcap_ok (set_revoked c s)"
    and "cap_state_lookup k (set_revoked c s) =
      (if k = c then map_option (\<lambda>e. e\<lparr>se_flags := se_flags e OR CAP_FLAG_REVOKED\<rparr>) (cap_state_lookup c s)
       else cap_state_lookup k s)"
  unfolding set_revoked_def by (simp_all add: kstate.ok_change kstate.look_change assms)

text \<open>What a use does to the entry of its token, and that it touches no other.\<close>

lemma use_entry_Some:
  assumes "cap_state_lookup (cap_id t) s = Some e" and "se_flags e AND CAP_FLAG_REVOKED = 0"
  defines "e0 \<equiv> if se_flags e AND CAP_FLAG_CONSUMED = 0
                 then e\<lparr>uses_left := max_uses t, se_flags := se_flags e OR CAP_FLAG_CONSUMED\<rparr> else e"
  shows "use_entry t s =
    (if uses_left e0 = 0 then (CAP_ERR_EXHAUSTED, cap_state_change (cap_id t) (\<lambda>_. e0) s)
     else (KERN_SUCCESS, cap_state_change (cap_id t) (\<lambda>_. e0\<lparr>uses_left := uses_left e0 - 1\<rparr>) s))"
    and "se_cap_id e0 = cap_id t" and "se_flags e0 AND CAP_FLAG_CONSUMED \<noteq> 0"
  using assms(1,2) lookup_id [OF assms(1)] by (simp_all add: use_entry_def e0_def Let_def)

lemma use_entry_stuck:
  "cap_state_lookup (cap_id t) s = None \<Longrightarrow> use_entry t s = (CAP_ERR_NO_MEMORY, s)"
  "cap_state_lookup (cap_id t) s = Some e \<Longrightarrow> se_flags e AND CAP_FLAG_REVOKED \<noteq> 0 \<Longrightarrow>
   use_entry t s = (CAP_ERR_REVOKED, s)"
  by (simp_all add: use_entry_def)

text \<open>A use either leaves the table alone and fails, or replaces the entry of its token.\<close>

lemma use_entry_cases:
  obtains (stuck) kr where "use_entry t s = (kr, s)" "kr \<noteq> KERN_SUCCESS"
  | (changed) e e' kr where "cap_state_lookup (cap_id t) s = Some e" "se_flags e AND CAP_FLAG_REVOKED = 0"
      "use_entry t s = (kr, cap_state_change (cap_id t) (\<lambda>_. e') s)" "se_cap_id e' = cap_id t"
      "se_flags e' AND CAP_FLAG_CONSUMED \<noteq> 0"
      "(if kr = KERN_SUCCESS then 1 else 0) + unat (uses_left e') =
         unat (if se_flags e AND CAP_FLAG_CONSUMED = 0 then max_uses t else uses_left e)"
proof (cases "cap_state_lookup (cap_id t) s")
  case None
  then show ?thesis using stuck use_entry_stuck(1) by fastforce
next
  case (Some e)
  show ?thesis
  proof (cases "se_flags e AND CAP_FLAG_REVOKED = 0")
    case True
    note u = use_entry_Some [OF Some True]
    let ?e0 = "if se_flags e AND CAP_FLAG_CONSUMED = 0
                 then e\<lparr>uses_left := max_uses t, se_flags := se_flags e OR CAP_FLAG_CONSUMED\<rparr> else e"
    show ?thesis
    proof (cases "uses_left ?e0 = 0")
      case True
      show ?thesis
        by (rule changed [OF Some \<open>se_flags e AND CAP_FLAG_REVOKED = 0\<close>, of CAP_ERR_EXHAUSTED ?e0])
          (use True u in \<open>auto split: if_splits\<close>)
    next
      case False
      then have "1 + unat (uses_left ?e0 - 1) = unat (uses_left ?e0)"
        by (simp add: unat_minus_one unat_eq_0 [symmetric] del: unat_eq_0)
      then show ?thesis
        by (intro changed [OF Some \<open>se_flags e AND CAP_FLAG_REVOKED = 0\<close>,
              of KERN_SUCCESS "?e0\<lparr>uses_left := uses_left ?e0 - 1\<rparr>"])
          (use False u in \<open>auto split: if_splits\<close>)
    qed
  next
    case False
    then show ?thesis using stuck use_entry_stuck(2) [OF Some] by fastforce
  qed
qed

lemma use_entry_ok:
  assumes ok: "kcap_ok s"
  shows "kcap_ok (snd (use_entry t s))"
    and "count_ok c m n s \<Longrightarrow> (cap_id t = c \<longrightarrow> max_uses t = m) \<Longrightarrow>
      count_ok c m (if cap_id t = c \<and> fst (use_entry t s) = KERN_SUCCESS then n + 1 else n) (snd (use_entry t s))"
    and "is_revoked c s \<Longrightarrow> is_revoked c (snd (use_entry t s))"
    and "is_revoked (cap_id t) s \<Longrightarrow> fst (use_entry t s) \<noteq> KERN_SUCCESS"
proof -
  show "kcap_ok (snd (use_entry t s))"
    by (cases t s rule: use_entry_cases) (simp_all add: ok change_const)
  show "count_ok c m (if cap_id t = c \<and> fst (use_entry t s) = KERN_SUCCESS then n + 1 else n) (snd (use_entry t s))"
    if "count_ok c m n s" "cap_id t = c \<longrightarrow> max_uses t = m"
  proof (cases t s rule: use_entry_cases)
    case stuck
    then show ?thesis using that by simp
  next
    case (changed e e' kr)
    then show ?thesis
      using that change_const(2) [OF ok changed(1,4), of c]
      by (auto simp: count_ok_def split: if_splits)
  qed
  show "is_revoked c (snd (use_entry t s))" if "is_revoked c s"
  proof (cases t s rule: use_entry_cases)
    case (changed e e' kr)
    then have "c \<noteq> cap_id t" using that by (auto simp: is_revoked_def)
    then show ?thesis using that changed change_const(2) [OF ok changed(1,4), of c] by (simp add: is_revoked_def)
  qed (use that in simp)
  show "fst (use_entry t s) \<noteq> KERN_SUCCESS" if "is_revoked (cap_id t) s"
    by (cases t s rule: use_entry_cases) (use that in \<open>auto simp: is_revoked_def\<close>)
qed

lemma check_revoked: "is_revoked (cap_id t) s \<Longrightarrow> cap_check_locked t op rid s \<noteq> KERN_SUCCESS"
  by (auto simp: is_revoked_def cap_check_locked_def split: option.splits)

lemma cap_use_start_cases:
  obtains (failed) kr where "cap_use_start p op rid s = (Done kr, s)" "kr \<noteq> KERN_SUCCESS"
  | (free) b where "p = Some b" "cap_use_start p op rid s = (Done KERN_SUCCESS, s)" "max_uses (cap_of_bytes b) = 0"
      "\<not> is_revoked (cap_id (cap_of_bytes b)) s"
  | (allocating) b where "p = Some b" "cap_use_start p op rid s = (Allocating (cap_of_bytes b), s)"
  | (counted) b where "p = Some b"
      "cap_use_start p op rid s = (Done (fst (use_entry (cap_of_bytes b) s)), snd (use_entry (cap_of_bytes b) s))"
proof (cases p)
  case None
  then show ?thesis using failed by (simp add: cap_use_start_def cap_copyin_token_def)
next
  case (Some b)
  let ?t = "cap_of_bytes b"
  have c: "cap_copyin_token p = Some ?t" using Some by (simp add: cap_copyin_token_def)
  consider "cap_check_locked ?t op rid s \<noteq> KERN_SUCCESS"
    | "cap_check_locked ?t op rid s = KERN_SUCCESS" "max_uses ?t = 0"
    | "cap_check_locked ?t op rid s = KERN_SUCCESS" "max_uses ?t \<noteq> 0" "cap_state_lookup (cap_id ?t) s = None"
    | e where "cap_check_locked ?t op rid s = KERN_SUCCESS" "max_uses ?t \<noteq> 0" "cap_state_lookup (cap_id ?t) s = Some e"
    by (cases "cap_state_lookup (cap_id ?t) s") auto
  then show ?thesis
  proof cases
    case 1
    then show ?thesis using failed c by (simp add: cap_use_start_def Let_def)
  next
    case 2
    then show ?thesis using free [OF Some] c check_revoked by (fastforce simp: cap_use_start_def Let_def)
  next
    case 3
    then show ?thesis using allocating [OF Some] c by (simp add: cap_use_start_def Let_def)
  next
    case 4
    then show ?thesis using counted [OF Some] c by (simp add: cap_use_start_def Let_def split_beta)
  qed
qed

lemma successes_simps [simp]:
  "successes c [] = 0" "successes c (l @ [e]) = successes c l + (if e = Used c KERN_SUCCESS then 1 else 0)"
  by (simp_all add: successes_def)

lemma count_ok_relocked:
  "kcap_ok s \<Longrightarrow> count_ok c m n s \<Longrightarrow> count_ok c m n (get_or_create_relocked d s)"
  by (auto simp: count_ok_def relocked new_state_entry_def split: option.splits if_splits)

lemma count_ok_revoked: "kcap_ok s \<Longrightarrow> count_ok c m n s \<Longrightarrow> count_ok c m n (set_revoked d s)"
  by (auto simp: count_ok_def set_revoked split: option.splits if_splits)

lemma is_revoked_relocked: "kcap_ok s \<Longrightarrow> is_revoked c s \<Longrightarrow> is_revoked c (get_or_create_relocked d s)"
  by (auto simp: is_revoked_def relocked split: option.splits if_splits)

lemma is_revoked_set: "kcap_ok s \<Longrightarrow> is_revoked c s \<Longrightarrow> is_revoked c (set_revoked d s)"
  by (auto simp: is_revoked_def set_revoked split: option.splits if_splits)

lemma set_revoked_revokes: "kcap_ok s \<Longrightarrow> cap_state_lookup c s \<noteq> None \<Longrightarrow> is_revoked c (set_revoked c s)"
  by (auto simp: is_revoked_def set_revoked)

lemma register_frame:
  "kcap_ok s \<Longrightarrow> kcap_ok (snd (urmach_cap_register caller p s))"
  "count_ok c m n (snd (urmach_cap_register caller p s)) = count_ok c m n s"
  "is_revoked c (snd (urmach_cap_register caller p s)) = is_revoked c s"
  by (auto simp: urmach_cap_register_def kcap_ok_def count_ok_def is_revoked_def cap_state_lookup_def split: option.split)

lemma use_resume_ok:
  assumes ok: "kcap_ok s"
  shows "kcap_ok (snd (cap_use_resume a t s))"
    and "count_ok c m n s \<Longrightarrow> (cap_id t = c \<longrightarrow> max_uses t = m) \<Longrightarrow>
      count_ok c m (if cap_id t = c \<and> fst (cap_use_resume a t s) = KERN_SUCCESS then n + 1 else n)
        (snd (cap_use_resume a t s))"
    and "is_revoked c s \<Longrightarrow> is_revoked c (snd (cap_use_resume a t s))"
    and "is_revoked (cap_id t) s \<Longrightarrow> fst (cap_use_resume a t s) \<noteq> KERN_SUCCESS"
proof -
  let ?s = "get_or_create_relocked (cap_id t) s"
  note u = use_entry_ok [OF relocked(1) [OF ok], where t = t]
  show "kcap_ok (snd (cap_use_resume a t s))" using ok u(1) by (simp add: cap_use_resume_def)
  show "count_ok c m (if cap_id t = c \<and> fst (cap_use_resume a t s) = KERN_SUCCESS then n + 1 else n)
        (snd (cap_use_resume a t s))" if "count_ok c m n s" "cap_id t = c \<longrightarrow> max_uses t = m"
  proof (cases a)
    case True
    then show ?thesis
      using u(2) [OF count_ok_relocked [OF ok that(1)] that(2)] unfolding cap_use_resume_def by simp
  next
    case False
    then show ?thesis using that(1) by (simp add: cap_use_resume_def)
  qed
  show "is_revoked c (snd (cap_use_resume a t s))" if "is_revoked c s"
    using that u(3) is_revoked_relocked [OF ok] by (simp add: cap_use_resume_def)
  show "fst (cap_use_resume a t s) \<noteq> KERN_SUCCESS" if "is_revoked (cap_id t) s"
    using that u(4) is_revoked_relocked [OF ok] by (simp add: cap_use_resume_def)
qed

lemma revoke_resume_ok:
  assumes ok: "kcap_ok s"
  shows "kcap_ok (snd (cap_revoke_resume a d s))"
    and "count_ok c m n s \<Longrightarrow> count_ok c m n (snd (cap_revoke_resume a d s))"
    and "is_revoked c s \<Longrightarrow> is_revoked c (snd (cap_revoke_resume a d s))"
    and "fst (cap_revoke_resume a d s) = KERN_SUCCESS \<Longrightarrow> is_revoked d (snd (cap_revoke_resume a d s))"
  unfolding cap_revoke_resume_def
  using ok relocked [OF ok] set_revoked(1) count_ok_relocked [OF ok] is_revoked_relocked [OF ok]
    count_ok_revoked is_revoked_set set_revoked_revokes
  by auto

lemma revoke_start_cases:
  obtains (refused) "cap_revoke_start caller c s = (Done CAP_ERR_UNAUTHORIZED, s)"
  | (waits) "cap_revoke_start caller c s = (Allocating c, s)"
  | (done_now) "cap_revoke_start caller c s = (Done KERN_SUCCESS, set_revoked c s)" "cap_state_lookup c s \<noteq> None"
proof (cases "\<not> cap_key_set s \<or> caller \<noteq> cap_server_task s")
  case True
  then show ?thesis using refused by (simp add: cap_revoke_start_def)
next
  case False
  then show ?thesis using waits done_now by (cases "cap_state_lookup c s") (simp_all add: cap_revoke_start_def)
qed

section \<open>Invariants of the interleaved system\<close>

lemma uses_inv_step:
  assumes inv: "uses_inv c m w" and m: "m \<noteq> 0" and l: "limit_is c m l"
  shows "uses_inv c m (kstep l w)"
proof -
  have ok: "kcap_ok (kc w)" and pend: "\<And>th t. waiting w th = Some (Using t) \<Longrightarrow> cap_id t = c \<Longrightarrow> max_uses t = m"
    and n: "count_ok c m (successes c (klog w)) (kc w)" using inv by (auto simp: uses_inv_def)
  show ?thesis
  proof (cases l)
    case (Verify_trap p op rid)
    then show ?thesis using inv by (simp add: uses_inv_def)
  next
    case (Use_trap th p op rid)
    show ?thesis
    proof (cases "waiting w th")
      case None
      show ?thesis
      proof (cases p op rid "kc w" rule: cap_use_start_cases)
        case failed
        then show ?thesis using inv Use_trap None by (simp add: uses_inv_def)
      next
        case (free b)
        then have "cap_id (cap_of_bytes b) \<noteq> c" using l Use_trap m by auto
        then show ?thesis using inv Use_trap None free by (simp add: uses_inv_def token_id_def)
      next
        case (allocating b)
        then show ?thesis using inv Use_trap None l by (auto simp: uses_inv_def)
      next
        case (counted b)
        have "count_ok c m (if cap_id (cap_of_bytes b) = c \<and> fst (use_entry (cap_of_bytes b) (kc w)) = KERN_SUCCESS
            then successes c (klog w) + 1 else successes c (klog w)) (snd (use_entry (cap_of_bytes b) (kc w)))"
          using use_entry_ok(2) [OF ok n, of "cap_of_bytes b"] l Use_trap counted(1) by simp
        then show ?thesis
          using use_entry_ok(1) [OF ok] pend Use_trap None counted
          by (auto simp: uses_inv_def token_id_def split: if_splits)
      qed
    qed (use inv Use_trap in simp)
  next
    case (Revoke_trap th caller d)
    show ?thesis
      by (cases caller d "kc w" rule: revoke_start_cases)
        (use inv Revoke_trap set_revoked(1) [OF ok] count_ok_revoked [OF ok n] in \<open>auto simp: uses_inv_def\<close>)
  next
    case (Register_trap caller p)
    then show ?thesis using inv register_frame by (simp add: uses_inv_def)
  next
    case (Resume th a)
    show ?thesis
    proof (cases "waiting w th")
      case None
      then show ?thesis using inv Resume by (simp add: resume_thread_def)
    next
      case (Some q)
      show ?thesis
      proof (cases q)
        case (Using t)
        have "count_ok c m (if cap_id t = c \<and> fst (cap_use_resume a t (kc w)) = KERN_SUCCESS
            then successes c (klog w) + 1 else successes c (klog w)) (snd (cap_use_resume a t (kc w)))"
          using use_resume_ok(2) [OF ok n] pend [of th t] Some Using by simp
        then show ?thesis
          using use_resume_ok(1) [OF ok] pend Resume Some Using
          by (auto simp: uses_inv_def resume_thread_def split_beta Let_def split: if_splits)
      next
        case (Revoking d)
        then show ?thesis
          using revoke_resume_ok(1,2) [OF ok] n pend Resume Some
          by (auto simp: uses_inv_def resume_thread_def split_beta Let_def)
      qed
    qed
  qed
qed

text \<open>Once an identifier is revoked it stays so, and every later answer about it is a refusal.\<close>

lemma verify_revoked:
  "is_revoked (token_id p) s \<Longrightarrow> urmach_cap_verify p op rid s \<noteq> KERN_SUCCESS"
  using check_revoked by (auto simp: urmach_cap_verify_def cap_copyin_token_def token_id_def split: option.splits)

lemma revoked_step:
  assumes ok: "kcap_ok (kc w)" and r: "is_revoked c (kc w)"
  shows "is_revoked c (kc (kstep l w)) \<and> (\<exists>es. klog (kstep l w) = klog w @ es \<and> (\<forall>e \<in> set es. \<not> granted c e))"
proof (cases l)
  case (Verify_trap p op rid)
  then show ?thesis using r verify_revoked by (auto simp: granted_def)
next
  case (Use_trap th p op rid)
  show ?thesis
  proof (cases p op rid "kc w" rule: cap_use_start_cases)
    case failed
    then show ?thesis using r Use_trap by (auto simp: granted_def)
  next
    case (free b)
    then show ?thesis using r Use_trap by (auto simp: granted_def token_id_def)
  next
    case (allocating b)
    then show ?thesis using r Use_trap by auto
  next
    case (counted b)
    then show ?thesis
      using r Use_trap use_entry_ok(3,4) [OF ok] by (auto simp: granted_def token_id_def)
  qed
next
  case (Revoke_trap th caller d)
  show ?thesis
    by (cases caller d "kc w" rule: revoke_start_cases)
      (use r Revoke_trap is_revoked_set [OF ok] in \<open>auto simp: granted_def\<close>)
next
  case (Register_trap caller p)
  then show ?thesis using r register_frame by simp
next
  case (Resume th a)
  then show ?thesis
    using r use_resume_ok(3,4) [OF ok] revoke_resume_ok(3) [OF ok]
    by (auto simp: resume_thread_def granted_def split_beta Let_def split: option.split pending.split)
qed

lemma kcap_ok_step: "kcap_ok (kc w) \<Longrightarrow> kcap_ok (kc (kstep l w))"
proof (cases l)
  case (Use_trap th p op rid)
  assume "kcap_ok (kc w)"
  then show ?thesis
    by (cases p op rid "kc w" rule: cap_use_start_cases) (use Use_trap use_entry_ok(1) in auto)
next
  case (Revoke_trap th caller d)
  assume "kcap_ok (kc w)"
  then show ?thesis
    by (cases caller d "kc w" rule: revoke_start_cases) (use Revoke_trap set_revoked(1) in auto)
qed (auto simp: register_frame resume_thread_def use_resume_ok revoke_resume_ok split_beta Let_def
    split: option.split pending.split)

lemma revoked_steps:
  "kcap_ok (kc w) \<Longrightarrow> is_revoked c (kc w) \<Longrightarrow>
   \<exists>es. klog (fold kstep ls w) = klog w @ es \<and> (\<forall>e \<in> set es. \<not> granted c e)"
proof (induction ls arbitrary: w)
  case Nil
  then show ?case by simp
next
  case (Cons l ls)
  obtain es where "klog (kstep l w) = klog w @ es" "\<forall>e \<in> set es. \<not> granted c e" "is_revoked c (kc (kstep l w))"
    using revoked_step [OF Cons.prems, of l] by blast
  moreover obtain es' where "klog (fold kstep ls (kstep l w)) = klog (kstep l w) @ es'" "\<forall>e \<in> set es'. \<not> granted c e"
    using Cons.IH [OF kcap_ok_step [OF Cons.prems(1)] calculation(3)] by blast
  ultimately show ?case by (intro exI [of _ "es @ es'"]) auto
qed

text \<open>A successful revocation in the log means that the identifier is revoked now.\<close>

lemma log_revoked_step:
  assumes ok: "kcap_ok (kc w)" and h: "Revoked c KERN_SUCCESS \<in> set (klog w) \<Longrightarrow> is_revoked c (kc w)"
    and r: "Revoked c KERN_SUCCESS \<in> set (klog (kstep l w))"
  shows "is_revoked c (kc (kstep l w))"
proof (cases "Revoked c KERN_SUCCESS \<in> set (klog w)")
  case True
  then show ?thesis using revoked_step [OF ok h] by blast
next
  case False
  show ?thesis
  proof (cases l)
    case (Use_trap th p op rid)
    show ?thesis
      by (cases p op rid "kc w" rule: cap_use_start_cases) (use Use_trap False r in \<open>auto split: if_splits\<close>)
  next
    case (Revoke_trap th caller d)
    show ?thesis
      by (cases caller d "kc w" rule: revoke_start_cases)
        (use Revoke_trap False r set_revoked_revokes [OF ok] in \<open>auto split: if_splits\<close>)
  next
    case (Resume th a)
    then show ?thesis
      using False r revoke_resume_ok(4) [OF ok]
      by (auto simp: resume_thread_def split_beta Let_def split: option.splits pending.splits)
  qed (use False r in auto)
qed

lemma log_revoked:
  "kcap_ok (kc w) \<Longrightarrow> (Revoked c KERN_SUCCESS \<in> set (klog w) \<longrightarrow> is_revoked c (kc w)) \<Longrightarrow>
   kcap_ok (kc (fold kstep ls w)) \<and>
   (Revoked c KERN_SUCCESS \<in> set (klog (fold kstep ls w)) \<longrightarrow> is_revoked c (kc (fold kstep ls w)))"
  by (induction ls arbitrary: w) (simp_all add: kcap_ok_step log_revoked_step)

section \<open>Properties\<close>


lemma example_tokens:
  "length key = 32 \<Longrightarrow> cap_of_bytes (cap_bytes (setup_token key)) = setup_token key"
  "cap_of_bytes (cap_bytes once_token) = once_token"
  by (rule cap_of_bytes; simp add: setup_token_def once_token_def zero_cap_def cap_wf_def cap_sign_def)+


text \<open>
  C10. Revocation is final: once \<^verbatim>\<open>urmach_cap_revoke\<close> has reported success for an identifier, no
  verification and no use of it succeeds any more, in any interleaving, not even a use that had
  passed its checks before and was waiting for memory during the revocation.
\<close>

theorem revocation_is_final:
  assumes "Revoked c KERN_SUCCESS \<in> set (klog (fold kstep ls ksys_init))"
  shows "\<exists>es. klog (fold kstep (ls @ ls') ksys_init) = klog (fold kstep ls ksys_init) @ es \<and>
              (\<forall>e \<in> set es. \<not> granted c e)"
proof -
  have "kcap_ok (kc (fold kstep ls ksys_init)) \<and> is_revoked c (kc (fold kstep ls ksys_init))"
    using log_revoked [of ksys_init c ls] assms by (simp add: ksys_init_def kcap_ok_init)
  then show ?thesis using revoked_steps [of "fold kstep ls ksys_init" c ls'] by simp
qed

theorem revocation_is_final_witness:
  "let w = fold kstep [Register_trap 5 (Some (cap_bytes (setup_token (replicate 32 7)))), Revoke_trap 1 5 9, Resume 1 True]
             ksys_init
   in \<exists>es. klog (fold kstep [Use_trap 2 (Some (cap_bytes once_token)) 1 0] w) = klog w @ es \<and>
           (\<forall>e \<in> set es. \<not> granted 9 e)"
proof -
  let ?ls = "[Register_trap 5 (Some (cap_bytes (setup_token (replicate 32 7)))), Revoke_trap 1 5 9, Resume 1 True]"
  have "cap_id (setup_token k) = 0" for k by (simp add: setup_token_def zero_cap_def)
  moreover have "cap_state_lookup 9 (ksys.kc ksys_init\<lparr>k_hmac_key := k, cap_key_set := True, cap_server_task := 5\<rparr>) = None" for k
    using lookup_init [of 9] by (simp add: cap_state_lookup_def ksys_init_def)
  ultimately have "Revoked 9 KERN_SUCCESS \<in> set (klog (fold kstep ?ls ksys_init))"
    by (simp add: urmach_cap_register_def cap_copyin_token_def example_tokens cap_revoke_start_def
        resume_thread_def cap_revoke_resume_def) (simp add: ksys_init_def cap_init_def)
  from revocation_is_final [OF this, of "[Use_trap 2 (Some (cap_bytes once_token)) 1 0]"]
  show ?thesis by (simp only: fold_append Let_def comp_apply)
qed

text \<open>
  C11. The first task that installs a key owns the subsystem: until that task registers again, no
  sequence of traps by anybody changes the key or the owner, and every revocation attempt by
  another task is refused.
\<close>

theorem first_registrant_owns_key:
  assumes "cap_key_set (kc w)" and "\<forall>l \<in> set ls. \<not> registers (cap_server_task (kc w)) l"
  shows "let w' = fold kstep ls w
         in cap_key_set (kc w') \<and> k_hmac_key (kc w') = k_hmac_key (kc w) \<and>
            cap_server_task (kc w') = cap_server_task (kc w) \<and>
            (\<forall>caller c. caller \<noteq> cap_server_task (kc w) \<longrightarrow>
               cap_revoke_start caller c (kc w') = (Done CAP_ERR_UNAUTHORIZED, kc w'))"
proof -
  let ?K = "\<lambda>s. (cap_key_set s, k_hmac_key s, cap_server_task s)"
  have entry: "?K (cap_state_change c f s) = ?K s" "?K (get_or_create_relocked c s) = ?K s" "?K (set_revoked c s) = ?K s" for c f s
    by (simp_all add: cap_state_change_def get_or_create_relocked_def cap_state_insert_def set_revoked_def split: option.split)
  have use: "?K (snd (use_entry t s)) = ?K s" for t s
    by (cases t s rule: use_entry_cases) (use entry in simp_all)
  have resume: "?K (snd (cap_use_resume a t s)) = ?K s" "?K (snd (cap_revoke_resume a c s)) = ?K s" for a t c s
    using entry use by (simp_all add: cap_use_resume_def cap_revoke_resume_def)
  have step: "?K (kc (kstep l w)) = ?K (kc w)"
    if "cap_key_set (kc w)" "\<not> registers (cap_server_task (kc w)) l" for l w
  proof (cases l)
    case (Use_trap th p op rid)
    show ?thesis by (cases p op rid "kc w" rule: cap_use_start_cases) (use Use_trap use in auto)
  next
    case (Revoke_trap th caller d)
    show ?thesis by (cases caller d "kc w" rule: revoke_start_cases) (use Revoke_trap entry in auto)
  next
    case (Register_trap caller p)
    then show ?thesis using that by (auto simp: urmach_cap_register_def split: option.split)
  next
    case (Resume th a)
    then show ?thesis using resume by (auto simp: resume_thread_def split_beta Let_def split: option.split pending.split)
  qed simp
  have "?K (kc (fold kstep ls w)) = ?K (kc w)"
    using assms
  proof (induction ls arbitrary: w)
    case (Cons l ls)
    then show ?case using step [of w l] by simp
  qed simp
  then show ?thesis using assms(1) by (simp add: cap_revoke_start_def Let_def)
qed

theorem first_registrant_owns_key_witness:
  "let w = kstep (Register_trap 5 (Some (cap_bytes (setup_token (replicate 32 7))))) ksys_init
   in k_hmac_key (kc (kstep (Register_trap 6 (Some (cap_bytes (setup_token (replicate 32 8))))) w)) = replicate 32 7"
proof -
  let ?w = "kstep (Register_trap 5 (Some (cap_bytes (setup_token (replicate 32 7))))) ksys_init"
  have "cap_id (setup_token k) = 0" "cap_hmac (setup_token k) = k" for k by (simp_all add: setup_token_def zero_cap_def)
  then have k: "cap_key_set (kc ?w)" "cap_server_task (kc ?w) = 5" "k_hmac_key (kc ?w) = replicate 32 7"
    by (simp_all add: urmach_cap_register_def cap_copyin_token_def example_tokens ksys_init_def cap_init_def)
  have "\<forall>l \<in> set [Register_trap 6 (Some (cap_bytes (setup_token (replicate 32 8))))]. \<not> registers (cap_server_task (kc ?w)) l"
    unfolding k(2) by simp
  from first_registrant_owns_key [OF k(1) this] k(3) show ?thesis unfolding Let_def by simp
qed

end
