(* ===== verification/Cap_System.thy ===== *)
theory Cap_System
  imports Cap_Notify Cap_Kernel
begin

text \<open>
  The capability system as a whole: the states the server can reach, what holds in all of them,
  and the server together with the kernel that holds a copy of its key.
\<close>

section \<open>Runs of the server\<close>

text \<open>No request presents a forged token.\<close>

fun honest :: "cap_request \<Rightarrow> cap_srv \<Rightarrow> bool" where
  "honest (Derive b ops l n) s = unforged b s"
| "honest _ s = True"

text \<open>One request, received on some port; identifiers have not run out.\<close>

inductive srv_step :: "sanswer \<Rightarrow> cap_srv \<Rightarrow> cap_srv \<Rightarrow> bool" for A where
  srv_step: "cap_demux A (p, r) s = Some s' \<Longrightarrow> honest r s \<Longrightarrow> next_cap_id s + 1 \<noteq> 0 \<Longrightarrow> srv_step A s s'"

inductive_cases srv_stepE: "srv_step A s s'"

definition reachable :: "sanswer \<Rightarrow> cap_srv \<Rightarrow> bool" where
  "reachable A s \<longleftrightarrow> (\<exists>tsc self p ps. (srv_step A)\<^sup>*\<^sup>* (cap_start tsc self p ps) s)"

definition subscribers_ok :: "cap_srv \<Rightarrow> bool" where
  "subscribers_ok s \<longleftrightarrow> length (revoke_subscribers s) \<le> CAP_MAX_REVOKE_SUBSCRIBERS \<and>
     distinct (revoke_subscribers s) \<and> MACH_PORT_NULL \<notin> set (revoke_subscribers s)"

text \<open>What every request keeps, besides the invariant.\<close>

definition kept :: "cap_srv \<Rightarrow> cap_srv \<Rightarrow> bool" where
  "kept s s' \<longleftrightarrow> srv_inv s' \<and> (\<forall>c. dead (tok s) c \<longrightarrow> dead (tok s') c) \<and> cap_hmac_key s' = cap_hmac_key s \<and>
     (subscribers_ok s \<longrightarrow> subscribers_ok s')"

text \<open>The key reaches the kernel: \<^verbatim>\<open>cap_key_export_to_kernel\<close> by task \<open>task\<close>.\<close>

definition cap_key_export_to_kernel :: "nat \<Rightarrow> cap_srv \<Rightarrow> kcap \<Rightarrow> kern_return \<times> kcap" where
  "cap_key_export_to_kernel task s k = urmach_cap_register task (Some (cap_bytes (cap_key_export_token s))) k"

text \<open>An environment in which every call succeeds, and a server with one capability.\<close>

definition all_ok :: sanswer where
  "all_ok l c = (KERN_SUCCESS, 7)"

definition started :: cap_srv where
  "started = cap_start 1 2 3 4"

definition one_cap :: cap_srv where
  "one_cap = the (cap_demux all_ok (3, Acquire 1 5 3 0 256) started)"

definition root_token :: uros_cap where
  "root_token = cap_sign (cap_hmac_key started)
     (zero_cap\<lparr>cap_id := 1, resource_type := 1, resource_id := 5, allowed_ops := 3, delegable := 1\<rparr>)"

text \<open>That capability derived from \<open>n\<close> times.\<close>

primrec fanned :: "nat \<Rightarrow> cap_srv" where
  "fanned 0 = one_cap"
| "fanned (Suc n) = the (cap_demux all_ok (3, Derive (cap_bytes root_token) 1 0 256) (fanned n))"

definition fanned_ok :: "nat \<Rightarrow> cap_srv \<Rightarrow> bool" where
  "fanned_ok n s \<longleftrightarrow> reachable all_ok s \<and> cap_hmac_key s = cap_hmac_key started \<and> unat (next_cap_id s) = n + 2 \<and>
     cap_body root_token \<in> signed_bodies s \<and> (\<forall>c. \<not> dead (tok s) c) \<and>
     (\<exists>t cs. tok s 1 = Some t \<and> sib_chain (tok s) (first_child_cap_id t) cs \<and> length cs = n)"

section \<open>The invariant holds in every reachable state\<close>

lemma srv_inv_start: "srv_inv (cap_start tsc self p ps)"
proof -
  let ?s = "cap_start tsc self p ps"
  have ok: "srv_ok ?s"
    by (simp add: srv_ok_def cap_start_def cap_table_init_def bucket_ok_empty hash64_less)
  have "tok ?s c = None" for c
    by (simp add: tok_def cap_table_find_by_id_def cap_start_def cap_table_init_def hash64_less)
  then show ?thesis
    using ok by (simp add: srv_inv_def tree_ok_def signed_ok_def)
      (simp add: cap_start_def cap_table_init_def cap_key_init_def)
qed

lemma subscribe_same: "same_srv s (snd (cap_subscribe_revoke p s))"
  by (simp add: cap_subscribe_revoke_def sdo_def same_srv_def)

lemma provision_same: "same_srv s (snd (cap_provision_task A b s))"
  by (auto simp: cap_provision_task_def provision_install_def scall_def sdo_def same_srv_def Let_def split: prod.split)

lemma subscribe_ok: "subscribers_ok s \<Longrightarrow> subscribers_ok (snd (cap_subscribe_revoke p s))"
  by (auto simp: subscribers_ok_def cap_subscribe_revoke_def revoke_subscribers_contains_def sdo_def not_le)

lemma subscribers_sub:
  assumes "mset (revoke_subscribers s') \<subseteq># mset (revoke_subscribers s)" "subscribers_ok s"
  shows "subscribers_ok s'"
proof -
  have "length (revoke_subscribers s') \<le> length (revoke_subscribers s)"
    using size_mset_mono [OF assms(1)] by simp
  moreover have "set (revoke_subscribers s') \<subseteq> set (revoke_subscribers s)"
    using set_mset_mono [OF assms(1)] by simp
  moreover have "distinct (revoke_subscribers s')"
    unfolding distinct_count_atmost_1
  proof
    fix x
    have "count (mset (revoke_subscribers s')) x \<le> count (mset (revoke_subscribers s)) x"
      using assms(1) by (simp add: mset_subset_eq_count)
    moreover have "count (mset (revoke_subscribers s)) x \<le> 1"
      using assms(2) by (simp add: subscribers_ok_def distinct_count_atmost_1)
    ultimately have le: "count (mset (revoke_subscribers s')) x \<le> 1" by linarith
    show "count (mset (revoke_subscribers s')) x = (if x \<in> set (revoke_subscribers s') then 1 else 0)"
    proof (cases "x \<in> set (revoke_subscribers s')")
      case True
      then have "count (mset (revoke_subscribers s')) x \<noteq> 0" unfolding count_mset_0_iff by simp
      then have "count (mset (revoke_subscribers s')) x = 1" using le by linarith
      then show ?thesis using True by simp
    next
      case False
      then show ?thesis by (simp add: count_mset_0_iff)
    qed
  qed
  ultimately show ?thesis using assms(2) by (auto simp: subscribers_ok_def)
qed

lemma acquire_subs: "revoke_subscribers (snd (cap_acquire A rtype rid ops l n s)) = revoke_subscribers s"
  by (simp add: cap_acquire_def scall_def sign_token_def cap_table_alloc_id_def Let_def split: prod.split)

lemma derive_subs: "revoke_subscribers (snd (cap_derive A b ops l n s)) = revoke_subscribers s"
  by (simp add: cap_derive_def scall_def sign_token_def cap_table_alloc_id_def Let_def split: prod.split option.split)

lemma provision_subs: "revoke_subscribers (snd (cap_provision_task A b s)) = revoke_subscribers s"
  by (auto simp: cap_provision_task_def provision_install_def scall_def sdo_def Let_def split: prod.split)

lemma acquire_key: "cap_hmac_key (snd (cap_acquire A rtype rid ops l n s)) = cap_hmac_key s"
  by (simp add: cap_acquire_def scall_def sign_token_def cap_table_alloc_id_def Let_def split: prod.split)

lemma derive_key: "cap_hmac_key (snd (cap_derive A b ops l n s)) = cap_hmac_key s"
  by (simp add: cap_derive_def scall_def sign_token_def cap_table_alloc_id_def Let_def split: prod.split option.split)

lemma same_srv_key: "same_srv s s' \<Longrightarrow> cap_hmac_key s' = cap_hmac_key s"
  by (simp add: same_srv_def)

lemma subscribers_cong: "revoke_subscribers s' = revoke_subscribers s \<Longrightarrow> subscribers_ok s' = subscribers_ok s"
  by (simp add: subscribers_ok_def)

lemma dead_same: "same_srv s s' \<Longrightarrow> dead (tok s') c \<longleftrightarrow> dead (tok s) c"
  using same_srvD by simp

lemma acquire_dead:
  assumes "srv_inv s" "dead (tok s) c"
  shows "dead (tok (snd (cap_acquire A rtype rid ops l n s))) c"
proof -
  have i: "tok s (next_cap_id s) = None" by (rule fresh_id(1) [OF assms(1)])
  then have "c \<noteq> next_cap_id s" using assms(2) by (auto simp: dead_def)
  then show ?thesis
    using acquire_result [of A rtype rid ops l n s] dead_same assms(2) i srv_inv_ok [OF assms(1)]
    by (elim disjE conjE) (simp_all add: dead_def tok_issue)
qed

lemma derive_dead:
  assumes "srv_inv s" "dead (tok s) c"
  shows "dead (tok (snd (cap_derive A b ops l n s))) c"
  using assms(1)
proof (cases rule: derive_outcome [where A = A and b = b and ops = ops and l = l and n = n])
  case refused
  then show ?thesis using dead_same assms(2) by simp
next
  case (derived pe)
  have "c \<noteq> next_cap_id s" using assms(2) fresh_id(1) [OF assms(1)] by (auto simp: dead_def)
  moreover have "c \<noteq> cap_id (cap_of_bytes b)" using derived(5,6) assms(2) by (auto simp: dead_def)
  ultimately show ?thesis using assms(2) unfolding derived(8) by (simp add: dead_def)
qed

text \<open>One request: it is answered, keeps the invariant and revives nothing.\<close>

lemma handle_inv:
  assumes "srv_inv s" "honest r s" "next_cap_id s + 1 \<noteq> 0"
  shows "\<exists>s'. cap_handle A r s = Some s' \<and> kept s s'"
proof (cases r)
  case (Acquire rtype rid ops l n)
  then show ?thesis
    using acquire_inv [OF assms(1,3)] acquire_dead [OF assms(1)] acquire_key subscribers_cong [OF acquire_subs]
    by (simp add: kept_def)
next
  case (Derive b ops l n)
  then show ?thesis
    using derive_inv [OF assms(1,3)] derive_dead [OF assms(1)] derive_key subscribers_cong [OF derive_subs] assms(2)
    by (simp add: kept_def)
next
  case (Revoke c)
  then show ?thesis using cap_revoke_total [OF assms(1), of A c] subscribers_sub by (auto simp: kept_def)
next
  case (Subscribe p)
  then show ?thesis
    using same_srv_inv [OF subscribe_same assms(1)] dead_same [OF subscribe_same] same_srv_key [OF subscribe_same]
      subscribe_ok by (simp add: kept_def)
next
  case (Provision b)
  then show ?thesis
    using same_srv_inv [OF provision_same assms(1)] dead_same [OF provision_same] same_srv_key [OF provision_same]
      subscribers_cong [OF provision_subs] by (simp add: kept_def)
next
  case (Verify b op rid)
  then show ?thesis using assms(1) by (simp add: kept_def)
qed

lemma port_same: "same_srv s (s\<lparr>g_request_local_port := p\<rparr>)"
  by (simp add: same_srv_def)

lemma kept_port: "kept (s\<lparr>g_request_local_port := p\<rparr>) s' \<Longrightarrow> kept s (s'\<lparr>g_request_local_port := q\<rparr>)"
  using same_srv_inv [OF port_same] by (simp add: kept_def subscribers_ok_def)

lemma honest_port: "honest r (s\<lparr>g_request_local_port := p\<rparr>) = honest r s"
  by (cases r) (simp_all add: unforged_def)

lemma demux_inv:
  assumes "srv_inv s" "honest r s" "next_cap_id s + 1 \<noteq> 0"
  shows "\<exists>s'. cap_demux A (p, r) s = Some s' \<and> kept s s'"
proof -
  let ?s = "s\<lparr>g_request_local_port := p\<rparr>"
  obtain s' where s': "cap_handle A r ?s = Some s'" "kept ?s s'"
    using handle_inv [of ?s r A] same_srv_inv [OF port_same assms(1)] assms(2,3) honest_port by auto
  then show ?thesis using kept_port by (simp add: cap_demux_def)
qed

lemma step_inv: "srv_step A s s' \<Longrightarrow> srv_inv s \<Longrightarrow> kept s s'"
  by (elim srv_stepE) (metis demux_inv option.inject)

lemma steps_inv: "(srv_step A)\<^sup>*\<^sup>* s s' \<Longrightarrow> srv_inv s \<Longrightarrow> kept s s'"
proof (induction rule: rtranclp_induct)
  case base
  then show ?case by (simp add: kept_def)
next
  case (step y z)
  then have "kept s y" "kept y z" using step_inv by (auto simp: kept_def)
  then show ?case unfolding kept_def by simp
qed

lemma length_key_init: "length (cap_hmac_key (cap_start tsc self p ps)) = 32"
  by (simp add: cap_start_def cap_table_init_def cap_key_init_def sha256_def split_beta Let_def)

lemma reachable_kept:
  assumes "reachable A s"
  shows "srv_inv s" "subscribers_ok s" "length (cap_hmac_key s) = 32"
proof -
  obtain tsc self p ps where "(srv_step A)\<^sup>*\<^sup>* (cap_start tsc self p ps) s" using assms by (auto simp: reachable_def)
  then have k: "kept (cap_start tsc self p ps) s" by (rule steps_inv) (rule srv_inv_start)
  then show "srv_inv s" by (simp add: kept_def)
  show "length (cap_hmac_key s) = 32" using k length_key_init by (simp add: kept_def)
  have "subscribers_ok (cap_start tsc self p ps)" by (simp add: subscribers_ok_def cap_start_def cap_table_init_def cap_key_init_def)
  then show "subscribers_ok s" using k by (simp add: kept_def)
qed

lemma reachable_started: "reachable A started"
  by (auto simp: reachable_def started_def)

section \<open>A server with two capabilities\<close>

lemma started_fields [simp]:
  "next_cap_id started = 1" "cap_port started = 3" "scalls started = []" "signed_bodies started = {}"
  "srv_inv started" "tok started c = None"
proof -
  show "next_cap_id started = 1" "cap_port started = 3" "scalls started = []" "signed_bodies started = {}"
    by (simp_all add: started_def cap_start_def cap_table_init_def cap_key_init_def)
  show "srv_inv started" unfolding started_def by (rule srv_inv_start)
  show "tok started c = None"
    by (simp add: started_def tok_def cap_table_find_by_id_def cap_start_def cap_table_init_def hash64_less)
qed

lemma acquire_ok:
  fixes rtype rid ops s
  assumes "g_request_local_port s = cap_port s" "CAP_TOKEN_SIZE \<le> n"
  defines "t \<equiv> zero_cap\<lparr>cap_id := next_cap_id s, resource_type := rtype, resource_id := rid, allowed_ops := ops, delegable := 1\<rparr>"
  shows "cap_acquire all_ok rtype rid ops l n s =
    ((KERN_SUCCESS, cap_bytes (cap_sign (cap_hmac_key s) t)),
     cap_table_insert \<lparr>ce_token = cap_sign (cap_hmac_key s) t, ce_sender = MACH_PORT_NULL\<rparr>
       (s\<lparr>scalls := scalls s @ [Malloc], next_cap_id := next_cap_id s + 1,
          signed_bodies := insert (cap_body t) (signed_bodies s)\<rparr>))"
  using assms(1,2)
  by (simp add: cap_acquire_def t_def manifest_denies_def policy_allows_v1_def scall_def all_ok_def sign_token_def
      cap_table_alloc_id_def Let_def not_less)

lemma one_cap:
  "cap_demux all_ok (3, Acquire 1 5 3 0 256) started = Some one_cap"
  "tok one_cap = [1 \<mapsto> root_token]" "cap_hmac_key one_cap = cap_hmac_key started" "next_cap_id one_cap = 2"
  "signed_bodies one_cap = {cap_body root_token}"
proof -
  let ?s = "started\<lparr>g_request_local_port := 3\<rparr>"
  have a: "cap_acquire all_ok 1 5 3 0 256 ?s =
    ((KERN_SUCCESS, cap_bytes root_token),
     cap_table_insert \<lparr>ce_token = root_token, ce_sender = MACH_PORT_NULL\<rparr>
       (?s\<lparr>scalls := [Malloc], next_cap_id := 2, signed_bodies := {cap_body root_token}\<rparr>))"
    using acquire_ok [of ?s 256 1 5 3 0] by (simp add: root_token_def CAP_TOKEN_SIZE_def)
  show d: "cap_demux all_ok (3, Acquire 1 5 3 0 256) started = Some one_cap"
    by (simp add: one_cap_def cap_demux_def)
  have o: "one_cap = snd (cap_acquire all_ok 1 5 3 0 256 ?s)\<lparr>g_request_local_port := MACH_PORT_NULL\<rparr>"
    by (simp add: one_cap_def cap_demux_def)
  have id: "cap_id root_token = 1" by (simp add: root_token_def)
  have tk: "tok ?s = Map.empty" by (simp add: fun_eq_iff)
  have ok: "srv_ok ?s" using srv_inv_ok [OF started_fields(5)] by simp
  have "tok one_cap = (tok ?s)(cap_id root_token \<mapsto> root_token)"
    unfolding o a using ok tk id by (simp add: tok_issue del: fun_upd_apply)
  then show "tok one_cap = [1 \<mapsto> root_token]" unfolding tk id .
  show "cap_hmac_key one_cap = cap_hmac_key started" "next_cap_id one_cap = 2"
    "signed_bodies one_cap = {cap_body root_token}"
    unfolding o a by simp_all
qed

lemma one_cap_reachable: "reachable all_ok one_cap"
proof -
  have "srv_step all_ok started one_cap" by (rule srv_step [OF one_cap(1)]) simp_all
  then show ?thesis unfolding reachable_def started_def by blast
qed

lemma root_token:
  "cap_id root_token = 1" "cap_wf root_token" "cap_of_bytes (cap_bytes root_token) = root_token"
  "length (cap_bytes root_token) = CAP_TOKEN_SIZE" "revoked root_token = 0" "allowed_ops root_token = 3"
  "resource_id root_token = 5" "cap_verify_hmac (cap_hmac_key started) root_token" "first_child_cap_id root_token = 0"
proof -
  show w: "cap_wf root_token" by (simp add: root_token_def cap_wf_def zero_cap_def cap_sign_def)
  then show "cap_of_bytes (cap_bytes root_token) = root_token" by simp
  show "length (cap_bytes root_token) = CAP_TOKEN_SIZE"
    using length_cap_body [OF w] w by (simp add: cap_bytes_def CAP_TOKEN_SIZE_def cap_wf_def)
  show "cap_verify_hmac (cap_hmac_key started) root_token" by (simp add: root_token_def)
qed (simp_all add: root_token_def cap_sign_def zero_cap_def)

lemma unforged_root:
  "cap_body root_token \<in> signed_bodies s \<Longrightarrow> unforged (cap_bytes root_token) s"
  using root_token(3) by (simp add: unforged_def)

lemma derive_root_ok:
  assumes "tok s 1 = Some t" "revoked t = 0" "cap_hmac_key s = cap_hmac_key started"
  shows "fst (fst (cap_derive all_ok (cap_bytes root_token) 1 0 256 s)) = KERN_SUCCESS"
proof -
  obtain e where e: "cap_table_find_by_id 1 s = Some e" "ce_token e = t" using assms(1) by (auto simp: tok_def)
  have "delegable root_token \<noteq> 0" "cap_depth root_token = 0" by (simp_all add: root_token_def cap_sign_def zero_cap_def)
  then show ?thesis
    using e assms(2,3) root_token
    by (simp add: cap_derive_def scall_def all_ok_def Let_def CAP_TOKEN_SIZE_def CAP_MAX_DEPTH_def split_beta)
qed

lemma fanned_step:
  assumes "fanned_ok n s" "n < 1000"
  shows "\<exists>s'. cap_demux all_ok (3, Derive (cap_bytes root_token) 1 0 256) s = Some s' \<and> fanned_ok (Suc n) s'"
proof -
  let ?r = "Derive (cap_bytes root_token) 1 0 256" and ?s = "s\<lparr>g_request_local_port := 3\<rparr>"
  let ?d = "snd (cap_derive all_ok (cap_bytes root_token) 1 0 256 ?s)"
  have s: "reachable all_ok s" "cap_hmac_key s = cap_hmac_key started" "unat (next_cap_id s) = n + 2"
    "cap_body root_token \<in> signed_bodies s" "\<And>c. \<not> dead (tok s) c"
    using assms(1) by (simp_all add: fanned_ok_def)
  obtain t cs where t: "tok s 1 = Some t" "sib_chain (tok s) (first_child_cap_id t) cs" "length cs = n"
    using assms(1) unfolding fanned_ok_def by blast
  have rv: "revoked t = 0" using s(5) [of 1] t(1) by (auto simp: dead_def)
  have inv: "srv_inv ?s" by (rule same_srv_inv [OF port_same reachable_kept(1) [OF s(1)]])
  have nx: "unat (next_cap_id s + 1) = n + 3" using s(3) assms(2) by (simp add: unat_word_ariths)
  then have n0: "next_cap_id s + 1 \<noteq> 0" by (metis add_is_0 unat_0 zero_neq_numeral)
  define s' where "s' = ?d\<lparr>g_request_local_port := MACH_PORT_NULL\<rparr>"
  have dm: "cap_demux all_ok (3, ?r) s = Some s'" by (simp add: cap_demux_def s'_def)
  have "honest ?r s" using unforged_root [OF s(4)] by simp
  then have "srv_step all_ok s s'" using dm n0 by (intro srv_step)
  then have re: "reachable all_ok s'" using s(1) unfolding reachable_def by (meson rtranclp.rtrancl_into_rtrancl)
  have fst: "fst (fst (cap_derive all_ok (cap_bytes root_token) 1 0 256 ?s)) = KERN_SUCCESS"
    by (rule derive_root_ok [of _ t]) (use t(1) rv s(2) in simp_all)
  from inv have "fanned_ok (Suc n) s'"
  proof (cases rule: derive_outcome [where A = all_ok and b = "cap_bytes root_token" and ops = 1 and l = 0 and n = 256])
    case refused
    then show ?thesis using fst by simp
  next
    case (derived pe)
    have pe: "pe = t" using derived(5) t(1) root_token(1,3) by simp
    let ?i = "next_cap_id s" and ?k = "cap_hmac_key s"
    let ?c = "cap_sign ?k (child_of root_token t 1 ?i)" and ?p = "cap_sign ?k (t\<lparr>first_child_cap_id := ?i\<rparr>)"
    have tk: "tok s' = (tok s)(?i \<mapsto> ?c, 1 \<mapsto> ?p)" using derived(8) root_token(1,3) pe by (simp add: s'_def)
    have i1: "?i \<noteq> 1" using s(3) by auto
    have i0: "?i \<noteq> 0" using s(3) by auto
    have none: "tok s ?i = None" by (rule fresh_id(1) [OF reachable_kept(1) [OF s(1)]])
    have "?i \<notin> set cs"
    proof -
      obtain ds where ds: "sib_chain (tok s) (first_child_cap_id t) ds" "distinct ds" "set ds = children (tok s) 1"
        by (rule tree_childrenE [OF reachable_kept(1) [OF s(1)] t(1)])
      then have "set cs = children (tok s) 1" using sib_chain_unique [OF t(2) ds(1)] by simp
      then show ?thesis using none by (auto simp: children_def)
    qed
    then have "sib_chain (tok s') (first_child_cap_id t) cs"
      using t(1) by (intro sib_chain_upd [OF _ t(2)]) (auto simp: tk cap_sign_def)
    then have "sib_chain (tok s') (first_child_cap_id ?p) (?i # cs)"
      using i1 i0 by (simp add: tk cap_sign_def child_of_def)
    moreover have "tok s' 1 = Some ?p" by (simp add: tk)
    moreover have "\<not> dead (tok s') c" for c
      using s(5) [of c] rv root_token(5) by (auto simp: tk dead_def cap_sign_def child_of_def)
    moreover have "cap_hmac_key s' = cap_hmac_key started" using derive_key s(2) by (simp add: s'_def)
    moreover have "unat (next_cap_id s') = Suc n + 2" using derived(10) nx by (simp add: s'_def)
    moreover have "cap_body root_token \<in> signed_bodies s'" using derived(9) s(4) by (simp add: s'_def)
    ultimately show ?thesis using re t(3) unfolding fanned_ok_def by (metis length_Cons)
  qed
  then show ?thesis using dm by blast
qed

lemma fanned_ok: "n < 1000 \<Longrightarrow> fanned_ok n (fanned n)"
proof (induction n)
  case 0
  have "reachable all_ok one_cap" by (rule one_cap_reachable)
  moreover have "\<not> dead (tok one_cap) c" for c using root_token(5) by (auto simp: one_cap dead_def)
  moreover have "tok one_cap 1 = Some root_token" "sib_chain (tok one_cap) (first_child_cap_id root_token) []"
    using root_token(9) by (simp_all add: one_cap)
  ultimately show ?case unfolding fanned_ok_def by (auto simp: one_cap(3,4,5))
next
  case (Suc n)
  then have "fanned_ok n (fanned n)" by simp
  then show ?case using fanned_step [of n "fanned n"] Suc.prems by auto
qed

end
