(* ===== verification/Cap_Guarantees.thy ===== *)
theory Cap_Guarantees
  imports Cap_System
begin

text \<open>
  What the capability server guarantees in every reachable state, where its cascade of
  revocations stops short, and how the server and the kernel agree and disagree on tokens.
\<close>

section \<open>Lemmas\<close>

lemma ops_trans:
  fixes x y z :: "64 word"
  assumes "x AND NOT y = 0" "y AND NOT z = 0"
  shows "x AND NOT z = 0"
proof (rule bit_word_eqI)
  fix n assume "n < LENGTH(64)"
  then show "bit (x AND NOT z) n = bit (0 :: 64 word) n"
    using arg_cong [OF assms(1), of "\<lambda>w. bit w n"] arg_cong [OF assms(2), of "\<lambda>w. bit w n"]
    by (auto simp: bit_simps)
qed

lemma child_bounded:
  assumes "srv_inv s" "c \<in> children (tok s) a" "tok s a = Some ta" "tok s c = Some tc"
  shows "allowed_ops tc AND NOT (allowed_ops ta) = 0 \<and> resource_type tc = resource_type ta \<and>
    resource_id tc = resource_id ta \<and> unat (cap_depth ta) < unat (cap_depth tc) \<and> unat (cap_depth tc) \<le> CAP_MAX_DEPTH"
proof -
  have "parent_cap_id tc = a" using assms(2,4) by (simp add: children_def)
  moreover have "a \<noteq> 0" using assms(1,3) tree_okD(2) by (auto simp: srv_inv_def)
  moreover have "bounded_by_parent (tok s) tc" using assms(1,4) unfolding srv_inv_def by blast
  ultimately show ?thesis using assms(3) by (simp add: bounded_by_parent_def)
qed

lemma descendant_bounded:
  assumes "srv_inv s" "tok s a = Some ta" "(a, c) \<in> {(p, c). c \<in> children (tok s) p}\<^sup>+"
  shows "\<exists>tc. tok s c = Some tc \<and> allowed_ops tc AND NOT (allowed_ops ta) = 0 \<and> resource_type tc = resource_type ta \<and>
    resource_id tc = resource_id ta \<and> unat (cap_depth ta) < unat (cap_depth tc) \<and> unat (cap_depth tc) \<le> CAP_MAX_DEPTH"
  using assms(3)
proof (induction rule: trancl_induct)
  case (base y)
  then obtain ty where "tok s y = Some ty" by (auto simp: children_def)
  then show ?case using child_bounded [OF assms(1) _ assms(2)] base by blast
next
  case (step y z)
  then obtain ty where ty: "tok s y = Some ty" "allowed_ops ty AND NOT (allowed_ops ta) = 0"
    "resource_type ty = resource_type ta" "resource_id ty = resource_id ta" "unat (cap_depth ta) < unat (cap_depth ty)"
    by blast
  have z: "z \<in> children (tok s) y" using step.hyps(2) by simp
  then obtain tz where tz: "tok s z = Some tz" by (auto simp: children_def)
  note b = child_bounded [OF assms(1) z ty(1) tz]
  have "allowed_ops tz AND NOT (allowed_ops ta) = 0" by (rule ops_trans [OF conjunct1 [OF b] ty(2)])
  then show ?case using b ty(3,4,5) tz by auto
qed

lemma dead_refused:
  "dead (tok s) (cap_id (cap_of_bytes b)) \<Longrightarrow> cap_verify b op rid s \<noteq> KERN_SUCCESS"
  by (auto simp: cap_verify_def dead_def tok_def Let_def)

lemma verify_success_iff:
  "cap_verify b op rid s = KERN_SUCCESS \<longleftrightarrow> length b = CAP_TOKEN_SIZE \<and>
     cap_verify_hmac (cap_hmac_key s) (cap_of_bytes b) \<and> revoked (cap_of_bytes b) = 0 \<and>
     resource_id (cap_of_bytes b) = rid \<and> op AND NOT (allowed_ops (cap_of_bytes b)) = 0 \<and>
     \<not> dead (tok s) (cap_id (cap_of_bytes b))"
  by (auto simp: cap_verify_def dead_def tok_def Let_def split: option.split)

lemma fixedD:
  assumes "fixed t = fixed t'"
  shows "allowed_ops t = allowed_ops t'" "resource_id t = resource_id t'" "resource_type t = resource_type t'"
  using arg_cong [OF assms, of allowed_ops] arg_cong [OF assms, of resource_id] arg_cong [OF assms, of resource_type]
  by (simp_all add: fixed_def)

lemma fanned_18:
  "reachable all_ok (fanned 18)" "\<exists>t cs. tok (fanned 18) 1 = Some t \<and> revoked t = 0 \<and>
     sib_chain (tok (fanned 18)) (first_child_cap_id t) cs \<and> length cs = 18"
  "\<not> dead (tok (fanned 18)) c"
  using fanned_ok [of 18] by (auto simp: fanned_ok_def dead_def)

section \<open>Properties of the server\<close>

text \<open>
  C8. Whatever state the capability server has reached, every request it then receives (on any
  port, and with any answers of the kernel, of malloc and of the subscribers) is answered:
  neither the cascade of \<^verbatim>\<open>cap_revoke\<close> nor its second walk can run forever.
\<close>

theorem every_request_answered:
  assumes "reachable A s" "honest r s" "next_cap_id s + 1 \<noteq> 0"
  shows "\<exists>s'. cap_demux A (p, r) s = Some s' \<and> reachable A s'"
proof -
  obtain s' where s': "cap_demux A (p, r) s = Some s'" using demux_inv [OF reachable_kept(1) [OF assms(1)] assms(2,3)] by blast
  then have "srv_step A s s'" using assms(2,3) by (intro srv_step)
  then show ?thesis using s' assms(1) unfolding reachable_def by (meson rtranclp.rtrancl_into_rtrancl)
qed

theorem every_request_answered_witness:
  "\<exists>s'. cap_demux all_ok (3, Revoke 1) one_cap = Some s' \<and> reachable all_ok s'"
  by (rule every_request_answered [OF one_cap_reachable]) (simp_all add: one_cap)

text \<open>
  C5. A successful \<^verbatim>\<open>cap_verify\<close> means what it should: the token belongs to a capability the
  server issued and has not revoked, which covers the operations and is for the resource, as
  long as the token was not forged.
\<close>

theorem cap_verify_sound:
  assumes "reachable A s" "unforged b s" "cap_verify b op rid s = KERN_SUCCESS"
  shows "\<exists>t. tok s (cap_id (cap_of_bytes b)) = Some t \<and> revoked t = 0 \<and> op AND NOT (allowed_ops t) = 0 \<and>
    resource_id t = rid \<and> resource_type t = resource_type (cap_of_bytes b)"
proof -
  note v = assms(3) [unfolded verify_success_iff]
  obtain t where t: "tok s (cap_id (cap_of_bytes b)) = Some t" "fixed (cap_of_bytes b) = fixed t"
    using genuine [OF reachable_kept(1) [OF assms(1)] assms(2)] v by blast
  moreover have "revoked t = 0" using v t(1) by (auto simp: dead_def)
  ultimately show ?thesis using v fixedD [OF t(2)] by auto
qed

theorem cap_verify_sound_witness:
  "\<exists>t. tok one_cap 1 = Some t \<and> revoked t = 0 \<and> 1 AND NOT (allowed_ops t) = 0 \<and> resource_id t = 5 \<and>
     resource_type t = resource_type root_token"
proof -
  have "cap_verify (cap_bytes root_token) 1 5 one_cap = KERN_SUCCESS"
    unfolding verify_success_iff using root_token one_cap(3) by (auto simp: one_cap(2) dead_def)
  from cap_verify_sound [OF one_cap_reachable unforged_root this] root_token(1,3) show ?thesis
    by (simp add: one_cap(5))
qed

text \<open>
  C1. Delegation never adds authority: a capability derived from another one, directly or over
  any number of steps, is for the same resource, allows no operation its ancestor does not
  allow, and is at most 16 levels deep.
\<close>

theorem delegation_attenuates:
  assumes "reachable A s" "tok s a = Some ta" "c \<in> descendants (tok s) a"
  shows "\<exists>tc. tok s c = Some tc \<and> allowed_ops tc AND NOT (allowed_ops ta) = 0 \<and>
    resource_type tc = resource_type ta \<and> resource_id tc = resource_id ta \<and>
    unat (cap_depth ta) < unat (cap_depth tc) \<and> unat (cap_depth tc) \<le> CAP_MAX_DEPTH"
  using descendant_bounded [OF reachable_kept(1) [OF assms(1)] assms(2)] assms(3) by (simp add: descendants_def)

theorem delegation_attenuates_witness:
  "\<exists>c ta tc. tok (fanned 18) 1 = Some ta \<and> tok (fanned 18) c = Some tc \<and> c \<noteq> 1 \<and>
     allowed_ops tc AND NOT (allowed_ops ta) = 0 \<and> resource_id tc = resource_id ta"
proof -
  obtain t cs where t: "tok (fanned 18) 1 = Some t" "sib_chain (tok (fanned 18)) (first_child_cap_id t) cs" "length cs = 18"
    using fanned_18(2) by blast
  note inv = reachable_kept(1) [OF fanned_18(1)]
  obtain ds where ds: "sib_chain (tok (fanned 18)) (first_child_cap_id t) ds" "distinct ds" "set ds = children (tok (fanned 18)) 1"
    by (rule tree_childrenE [OF inv t(1)])
  have cd: "cs = ds" by (rule sib_chain_unique [OF t(2) ds(1)])
  define c where "c = hd cs"
  have c: "c \<in> children (tok (fanned 18)) 1"
    unfolding ds(3) [symmetric] cd [symmetric] c_def using t(3) by (intro hd_in_set) auto
  then have d: "c \<in> descendants (tok (fanned 18)) 1" by (rule descendants_child [OF insertI1])
  have "1 < c" using tree_okD(4) [OF _ t(1) c] inv by (simp add: srv_inv_def)
  then show ?thesis using delegation_attenuates [OF fanned_18(1) t(1) d] t(1) by auto
qed

text \<open>
  C3. Revocation at the server is permanent: once \<^verbatim>\<open>cap_revoke\<close> has returned success for an
  identifier, no later sequence of requests makes \<^verbatim>\<open>cap_verify\<close> accept a token with it.
\<close>

theorem revoked_stays_refused:
  assumes "reachable A s" "cap_revoke A c s = Some (KERN_SUCCESS, s1)" "(srv_step A)\<^sup>*\<^sup>* s1 s2"
    and "cap_id (cap_of_bytes b) = c"
  shows "cap_verify b op rid s2 \<noteq> KERN_SUCCESS"
proof -
  have "srv_inv s1" "dead (tok s1) c"
    using cap_revoke_total [OF reachable_kept(1) [OF assms(1)], of A c] assms(2) by auto
  then have "dead (tok s2) c" using steps_inv [OF assms(3)] by (simp add: kept_def)
  then show ?thesis using dead_refused assms(4) by blast
qed

theorem revoked_stays_refused_witness:
  "\<exists>s1. cap_revoke all_ok 1 one_cap = Some (KERN_SUCCESS, s1) \<and>
        cap_verify (cap_bytes root_token) 1 5 s1 \<noteq> KERN_SUCCESS"
proof -
  note inv = reachable_kept(1) [OF one_cap_reachable]
  obtain n s0 where "revoke_loop [1] 0 one_cap = Some (n, s0)" "srv_inv s0"
    using revoke_loop_marks [OF inv, of "[1]" 0] by blast
  then obtain s1 where s1: "cap_revoke all_ok 1 one_cap = Some (KERN_SUCCESS, s1)"
    using cap_revoke_table [OF inv, of 1 n s0 "\<lambda>_. True" all_ok] by (auto simp: one_cap(2))
  from revoked_stays_refused [OF one_cap_reachable s1 rtranclp.rtrancl_refl, of "cap_bytes root_token"] root_token(1,3) s1
  show ?thesis by simp
qed



text \<open>
  C7. The cascade misses children: of a capability with more than 17 children, the ones after the
  seventeenth in the chain (the oldest) are not revoked, and a token of theirs that was
  accepted before \<^verbatim>\<open>cap_revoke\<close> succeeded on their parent is accepted after it.
\<close>

theorem cascade_misses_children:
  assumes "reachable A s" "tok s p = Some t" "revoked t = 0" "sib_chain (tok s) (first_child_cap_id t) cs"
    and "cap_id (cap_of_bytes b) \<in> set (drop (CAP_MAX_DEPTH + 1) cs)" "cap_verify b op rid s = KERN_SUCCESS"
  shows "\<exists>s'. cap_revoke A p s = Some (KERN_SUCCESS, s') \<and> dead (tok s') p \<and> cap_verify b op rid s' = KERN_SUCCESS"
proof -
  let ?c = "cap_id (cap_of_bytes b)"
  note inv = reachable_kept(1) [OF assms(1)] and v = assms(6) [unfolded verify_success_iff]
  obtain n s1 where s1: "revoke_loop [p] 0 s = Some (n, s1)" "srv_inv s1" "\<not> dead (tok s1) ?c"
    using revoke_loop_misses [OF inv assms(2-5)] v by blast
  obtain s' where s': "cap_revoke A p s = Some (KERN_SUCCESS, s')" "same_srv s1 s'"
    using cap_revoke_table [OF inv _ s1(1,2), of "\<lambda>_. True" A] assms(2) by auto
  have "dead (tok s') p" "cap_hmac_key s' = cap_hmac_key s" using cap_revoke_total [OF inv, of A p] s'(1) by auto
  moreover have "\<not> dead (tok s') ?c" using s1(3) dead_same [OF s'(2)] by simp
  ultimately show ?thesis using s'(1) v by (simp add: verify_success_iff)
qed

theorem cascade_misses_children_witness:
  "\<exists>b s'. cap_revoke all_ok 1 (fanned 18) = Some (KERN_SUCCESS, s') \<and> dead (tok s') 1 \<and>
     cap_id (cap_of_bytes b) \<in> children (tok (fanned 18)) 1 \<and>
     cap_verify b 0 (resource_id (cap_of_bytes b)) s' = KERN_SUCCESS"
proof -
  let ?s = "fanned 18"
  note inv = reachable_kept(1) [OF fanned_18(1)]
  obtain t cs where t: "tok ?s 1 = Some t" "revoked t = 0" "sib_chain (tok ?s) (first_child_cap_id t) cs" "length cs = 18"
    using fanned_18(2) by blast
  obtain ds where ds: "sib_chain (tok ?s) (first_child_cap_id t) ds" "distinct ds" "set ds = children (tok ?s) 1"
    by (rule tree_childrenE [OF inv t(1)])
  have cd: "cs = ds" by (rule sib_chain_unique [OF t(3) ds(1)])
  define c where "c = hd (drop (CAP_MAX_DEPTH + 1) cs)"
  have c: "c \<in> set (drop (CAP_MAX_DEPTH + 1) cs)"
    unfolding c_def using t(4) by (intro hd_in_set) (simp add: CAP_MAX_DEPTH_def)
  then have ch: "c \<in> children (tok ?s) 1" using ds(3) cd by (auto dest: in_set_dropD)
  then obtain tc where tc: "tok ?s c = Some tc" by (auto simp: children_def)
  define u where "u = cap_sign (cap_hmac_key ?s) (tc\<lparr>revoked := 0\<rparr>)"
  have wf: "cap_wf u" using inv tc unfolding srv_inv_def u_def by (auto simp: cap_wf_def cap_sign_def)
  have u: "cap_of_bytes (cap_bytes u) = u" using wf by simp
  have id: "cap_id u = c" using tree_okD(1) [of "tok ?s" c tc] tc inv by (simp add: u_def srv_inv_def)
  have len: "length (cap_bytes u) = CAP_TOKEN_SIZE"
    using length_cap_body [OF wf] wf by (simp add: cap_bytes_def CAP_TOKEN_SIZE_def cap_wf_def)
  have r0: "revoked u = 0" "cap_verify_hmac (cap_hmac_key ?s) u" by (simp_all add: u_def) (simp add: cap_sign_def)
  have "cap_verify (cap_bytes u) 0 (resource_id u) ?s = KERN_SUCCESS"
    unfolding verify_success_iff u using len r0 fanned_18(3) by simp
  from cascade_misses_children [OF fanned_18(1) t(1,2,3) _ this] c ch id u
  show ?thesis by (metis (no_types, lifting))
qed

text \<open>
  C2. The fan-out of a revocation tells every subscriber exactly once, although the array is
  compacted while it is walked: the ports told are the subscribers before, and those are the
  subscribers after together with the ones whose send right was released.
\<close>

theorem fanout_tells_every_subscriber:
  "\<exists>L. scalls (fanout_revoke_notify A c s) = scalls s @ L \<and>
     mset (told L) = image_mset (\<lambda>p. (p, c)) (mset (revoke_subscribers s)) \<and>
     mset (revoke_subscribers s) = mset (revoke_subscribers (fanout_revoke_notify A c s)) + mset (released L)"
  using fanout_from_tells [of A c 0 s] by (auto simp: fanout_revoke_notify_def)

text \<open>
  C9. In every reachable state the subscribers fit the array of eight, are distinct and none of
  them is the null port, whatever subscriptions, revocations and failed notifications led
  there.
\<close>

theorem subscriber_array_ok:
  assumes "reachable A s"
  shows "length (revoke_subscribers s) \<le> CAP_MAX_REVOKE_SUBSCRIBERS \<and> distinct (revoke_subscribers s) \<and>
    MACH_PORT_NULL \<notin> set (revoke_subscribers s)"
  using reachable_kept(2) [OF assms] by (simp add: subscribers_ok_def)

theorem subscriber_array_ok_witness:
  "length (revoke_subscribers one_cap) \<le> CAP_MAX_REVOKE_SUBSCRIBERS \<and> distinct (revoke_subscribers one_cap) \<and>
   MACH_PORT_NULL \<notin> set (revoke_subscribers one_cap)"
  by (rule subscriber_array_ok [OF one_cap_reachable])

section \<open>The server and the kernel\<close>

lemma length_cap_bytes: "cap_wf t \<Longrightarrow> length (cap_bytes t) = CAP_TOKEN_SIZE"
  using length_cap_body [of t] by (simp add: cap_bytes_def CAP_TOKEN_SIZE_def cap_wf_def)

lemma export_key:
  assumes "cap_key_export_to_kernel task s k0 = (KERN_SUCCESS, k)" "length (cap_hmac_key s) = 32"
  shows "cap_key_set k \<and> k_hmac_key k = cap_hmac_key s \<and> cap_state_table k = cap_state_table k0"
proof -
  let ?t = "cap_key_export_token s"
  have "cap_wf ?t" "cap_id ?t = 0" "cap_hmac ?t = cap_hmac_key s"
    using assms(2) by (simp_all add: cap_key_export_token_def zero_cap_def cap_wf_def)
  then show ?thesis
    using assms(1) by (auto simp: cap_key_export_to_kernel_def urmach_cap_register_def cap_copyin_token_def split: if_splits)
qed

text \<open>The fresh token of \<^verbatim>\<open>cap_acquire\<close>, which both sides check.\<close>

lemma acquired_token:
  assumes "cap_acquire A rtype rid ops l n s = ((KERN_SUCCESS, b), s')"
  shows "\<exists>t. b = cap_bytes t \<and> cap_wf t \<and> cap_verify_hmac (cap_hmac_key s) t \<and> revoked t = 0 \<and> resource_id t = rid \<and>
    allowed_ops t = ops \<and> cap_id t = next_cap_id s"
proof -
  define t where "t = zero_cap\<lparr>cap_id := next_cap_id s, resource_type := rtype, resource_id := rid, allowed_ops := ops, delegable := 1\<rparr>"
  have f: "cap_wf (cap_sign k t)" "revoked (cap_sign k t) = 0" "resource_id (cap_sign k t) = rid"
    "allowed_ops (cap_sign k t) = ops" "cap_id (cap_sign k t) = next_cap_id s" for k
    by (simp_all add: t_def zero_cap_def cap_wf_def cap_sign_def)
  have "b = cap_bytes (cap_sign (cap_hmac_key s) t)"
    using acquire_result [of A rtype rid ops l n s] assms by (auto simp: t_def)
  then show ?thesis using f cap_verify_sign by blast
qed

lemma kernel_accepts:
  assumes "cap_key_set k" "cap_verify_hmac (k_hmac_key k) t" "cap_wf t" "revoked t = 0"
    and "ucast op AND NOT (allowed_ops t) = 0" "cap_state_lookup (cap_id t) k = None"
  shows "urmach_cap_verify (Some (cap_bytes t)) op (resource_id t) k = KERN_SUCCESS"
proof -
  have "allowed_ops t AND ucast op = ucast op"
  proof (rule bit_word_eqI)
    fix i assume "i < LENGTH(64)"
    then show "bit (allowed_ops t AND ucast op) i = bit (ucast op :: u64) i"
      using arg_cong [OF assms(5), of "\<lambda>w. bit w i"] by (auto simp: bit_simps)
  qed
  then show ?thesis
    using assms by (simp add: urmach_cap_verify_def cap_copyin_token_def cap_check_locked_def cap_hmac_check_def
        cap_verify_hmac_def)
qed

text \<open>
  C12. The two halves of the system agree on fresh tokens: after the server has handed its key to the
  kernel, a token it issues is accepted both by the kernel trap and by the server, for every
  operation it was acquired for.
\<close>

theorem issued_token_accepted:
  assumes "reachable A s" "cap_key_export_to_kernel task s k0 = (KERN_SUCCESS, k)"
    and "cap_acquire A rtype rid ops l n s = ((KERN_SUCCESS, b), s')"
    and "cap_state_lookup (next_cap_id s) k = None" "ucast op AND NOT ops = 0"
  shows "urmach_cap_verify (Some b) op rid k = KERN_SUCCESS \<and> cap_verify b (ucast op) rid s' = KERN_SUCCESS"
proof -
  note inv = reachable_kept [OF assms(1)]
  obtain t where t: "b = cap_bytes t" "cap_wf t" "cap_verify_hmac (cap_hmac_key s) t" "revoked t = 0"
    "resource_id t = rid" "allowed_ops t = ops" "cap_id t = next_cap_id s"
    using acquired_token [OF assms(3)] by blast
  have k: "cap_key_set k" "k_hmac_key k = cap_hmac_key s" using export_key [OF assms(2) inv(3)] by simp_all
  have "urmach_cap_verify (Some b) op rid k = KERN_SUCCESS"
    using kernel_accepts [of k t op] k t assms(4,5) by simp
  moreover have "\<not> dead (tok s') (next_cap_id s)"
    using acquire_result [of A rtype rid ops l n s] assms(3) fresh_id(1) [OF inv(1)] srv_inv_ok [OF inv(1)]
    by (auto simp: dead_def tok_issue zero_cap_def cap_sign_def)
  moreover have "cap_hmac_key s' = cap_hmac_key s" using acquire_key [of A rtype rid ops l n s] assms(3) by simp
  ultimately show ?thesis
    using t assms(5) length_cap_bytes [OF t(2)] by (simp add: verify_success_iff)
qed

lemma export_started:
  "\<exists>k. cap_key_export_to_kernel 5 started cap_init = (KERN_SUCCESS, k) \<and> cap_state_table k = cap_state_table cap_init"
proof -
  let ?t = "cap_key_export_token started"
  have "cap_wf ?t" "cap_id ?t = 0"
    using reachable_kept(3) [OF reachable_started] by (simp_all add: cap_key_export_token_def zero_cap_def cap_wf_def)
  then show ?thesis
    by (simp add: cap_key_export_to_kernel_def urmach_cap_register_def cap_copyin_token_def cap_init_def)
qed

lemma lookup_started: "cap_state_table k = cap_state_table cap_init \<Longrightarrow> cap_state_lookup c k = None"
  using cap_bucket_less [of c] by (simp add: cap_state_lookup_def cap_init_def)

lemma acquire_started: "\<exists>b s'. cap_acquire all_ok 1 5 3 0 256 started = ((KERN_SUCCESS, b), s')"
proof -
  have "g_request_local_port started = MACH_PORT_NULL" by (simp add: started_def cap_start_def cap_table_init_def cap_key_init_def)
  then show ?thesis
    by (simp add: cap_acquire_def manifest_denies_def policy_allows_v1_def scall_def all_ok_def sign_token_def
        cap_table_alloc_id_def Let_def CAP_TOKEN_SIZE_def)
qed

theorem issued_token_accepted_witness:
  "\<exists>k b s'. cap_key_export_to_kernel 5 started cap_init = (KERN_SUCCESS, k) \<and>
     cap_acquire all_ok 1 5 3 0 256 started = ((KERN_SUCCESS, b), s') \<and>
     urmach_cap_verify (Some b) 1 5 k = KERN_SUCCESS \<and> cap_verify b 1 5 s' = KERN_SUCCESS"
proof -
  obtain k where k: "cap_key_export_to_kernel 5 started cap_init = (KERN_SUCCESS, k)" "cap_state_table k = cap_state_table cap_init"
    using export_started by blast
  obtain b s' where b: "cap_acquire all_ok 1 5 3 0 256 started = ((KERN_SUCCESS, b), s')" using acquire_started by blast
  from issued_token_accepted [OF reachable_started k(1) b lookup_started [OF k(2)], of 1] k(1) b show ?thesis by simp
qed



text \<open>
  C13. Every token in the table of a reachable server is well typed: its fields have the lengths of
  the C structure, it takes 188 bytes and is recovered from them unchanged, it is filed
  under its own non-zero identifier, its depth is within the limit, and its parent, if it has
  one, is an issued capability with a smaller identifier, so that delegations form a forest.
\<close>

theorem issued_tokens_well_typed:
  assumes "reachable A s" "tok s c = Some t"
  shows "cap_wf t \<and> length (cap_bytes t) = CAP_TOKEN_SIZE \<and> cap_of_bytes (cap_bytes t) = t \<and> cap_id t = c \<and> c \<noteq> 0 \<and>
    unat (cap_depth t) \<le> CAP_MAX_DEPTH \<and>
    (parent_cap_id t = 0 \<or> parent_cap_id t < c \<and> tok s (parent_cap_id t) \<noteq> None)"
proof -
  note inv = reachable_kept(1) [OF assms(1)]
  have wf: "cap_wf t" and up: "bounded_by_parent (tok s) t" and tree: "tree_ok (tok s)"
    using inv assms(2) by (simp_all add: srv_inv_def)
  have id: "cap_id t = c" "c \<noteq> 0" using tree assms(2) unfolding tree_ok_def by blast+
  have depth: "unat (cap_depth t) \<le> CAP_MAX_DEPTH" using up by (auto simp: bounded_by_parent_def split: if_splits)
  have "parent_cap_id t < c \<and> tok s (parent_cap_id t) \<noteq> None" if child: "parent_cap_id t \<noteq> 0"
  proof -
    obtain p where p: "tok s (parent_cap_id t) = Some p"
      using up unfolding bounded_by_parent_def if_not_P [OF child] by blast
    have "c \<in> children (tok s) (parent_cap_id t)" using assms(2) by (simp add: children_def)
    then have "parent_cap_id t < c" using tree p unfolding tree_ok_def by blast
    then show ?thesis using p by simp
  qed
  then show ?thesis using wf length_cap_bytes [OF wf] id depth by auto
qed

theorem issued_tokens_well_typed_witness:
  "tok one_cap 1 = Some root_token \<and> cap_wf root_token \<and> length (cap_bytes root_token) = CAP_TOKEN_SIZE \<and>
   cap_of_bytes (cap_bytes root_token) = root_token \<and> unat (cap_depth root_token) \<le> CAP_MAX_DEPTH"
proof -
  have "tok one_cap 1 = Some root_token" by (simp add: one_cap(2))
  then show ?thesis using issued_tokens_well_typed [OF one_cap_reachable, of 1 root_token] by simp
qed

end
