(* ===== verification/Flipc2_Wakeup.thy ===== *)
theory Flipc2_Wakeup
  imports Uros_Prelude
begin

text \<open>
  Going to sleep and waking up on a FLIPC v2 channel: phases 2 and 3 of \<^verbatim>\<open>flipc2_consume_wait\<close> against
  \<^verbatim>\<open>flipc2_produce_commit\<close>, and of \<^verbatim>\<open>flipc2_produce_wait\<close> against \<^verbatim>\<open>flipc2_consume_release\<close>, down to the
  kernel's \<^verbatim>\<open>futex_wait\<close> and \<^verbatim>\<open>futex_wake\<close> (\<^verbatim>\<open>kern/sync_sema.c\<close>).  Both pairs have the same shape:
  a waiter that sets a flag and sleeps on a counter, and a signaller that moves the counter
  and looks at the flag.  They differ in their fences.  The steps are single memory
  accesses, and stores go through per-processor buffers as on x86: a store is seen by the
  other side when it leaves the buffer, a full fence waits for the buffer to empty and a
  compiler barrier does nothing.  The wake-up threshold is the default one.
\<close>

section \<open>The handshake\<close>

datatype hs_word = Counter | Flag

text \<open>
  The waiter: storing the flag, the fence, looking at the counter again, entering the kernel
  (\<^verbatim>\<open>assert_wait\<close>), reading the word again there, \<^verbatim>\<open>thread_block\<close>, clearing the flag.
\<close>

datatype waiter_pc = W_arm | W_fence | W_check | W_assert_wait | W_reread | W_block | W_disarm | W_done

text \<open>The signaller: idle, the fence after its store, looking at the flag, the wake-up call.\<close>

datatype signaller_pc = S_idle | S_fence | S_test | S_wake

record hs_cfg =
  waiter_full_fence :: bool
  signaller_full_fence :: bool

record handshake =
  hs_mem :: "hs_word \<Rightarrow> u32"
  w_buf :: "(hs_word \<times> u32) list"
  s_buf :: "(hs_word \<times> u32) list"
  w_pc :: waiter_pc
  s_pc :: signaller_pc
  snapshot :: u32
  queued :: bool

text \<open>A load sees the youngest store of its own processor, or memory.\<close>

definition tso_load :: "(hs_word \<times> u32) list \<Rightarrow> (hs_word \<Rightarrow> u32) \<Rightarrow> hs_word \<Rightarrow> u32" where
  "tso_load buf m x = (case filter (\<lambda>e. fst e = x) (rev buf) of [] \<Rightarrow> m x | e # _ \<Rightarrow> snd e)"

text \<open>
  \<^verbatim>\<open>futex_wait\<close> without a timeout: \<^verbatim>\<open>assert_wait\<close> takes locks, which empties the store buffer, and puts
  the thread on the queue of the word; the word is read again; the thread blocks unless it
  changed.  A thread taken off the queue meanwhile does not stay blocked.
\<close>

definition futex_wait_step :: "handshake \<Rightarrow> handshake" where
  "futex_wait_step s =
     (case w_pc s of
        W_assert_wait \<Rightarrow> if w_buf s \<noteq> [] then s else s\<lparr>queued := True, w_pc := W_reread\<rparr>
      | W_reread \<Rightarrow>
          if hs_mem s Counter \<noteq> snapshot s then s\<lparr>queued := False, w_pc := W_disarm\<rparr>
          else s\<lparr>w_pc := W_block\<rparr>
      | W_block \<Rightarrow> if queued s then s else s\<lparr>w_pc := W_disarm\<rparr>
      | _ \<Rightarrow> s)"

text \<open>\<^verbatim>\<open>futex_wake\<close>: finding the key takes locks too; the sleeper leaves the queue.\<close>

definition futex_wake_step :: "handshake \<Rightarrow> handshake" where
  "futex_wake_step s = (if s_buf s \<noteq> [] then s else s\<lparr>queued := False, s_pc := S_idle\<rparr>)"

text \<open>Phases 2 and 3 of the waits.\<close>

definition waiter_step :: "hs_cfg \<Rightarrow> handshake \<Rightarrow> handshake" where
  "waiter_step cfg s =
     (case w_pc s of
        W_arm \<Rightarrow> s\<lparr>w_buf := w_buf s @ [(Flag, 1)], w_pc := W_fence\<rparr>
      | W_fence \<Rightarrow> if waiter_full_fence cfg \<and> w_buf s \<noteq> [] then s else s\<lparr>w_pc := W_check\<rparr>
      | W_check \<Rightarrow>
          if tso_load (w_buf s) (hs_mem s) Counter \<noteq> snapshot s then s\<lparr>w_pc := W_disarm\<rparr>
          else s\<lparr>w_pc := W_assert_wait\<rparr>
      | W_assert_wait \<Rightarrow> futex_wait_step s
      | W_reread \<Rightarrow> futex_wait_step s
      | W_block \<Rightarrow> futex_wait_step s
      | W_disarm \<Rightarrow> s\<lparr>w_buf := w_buf s @ [(Flag, 0)], w_pc := W_done\<rparr>
      | W_done \<Rightarrow> s)"

text \<open>\<^verbatim>\<open>flipc2_produce_commit\<close> and \<^verbatim>\<open>flipc2_consume_release\<close>.\<close>

definition signaller_step :: "hs_cfg \<Rightarrow> handshake \<Rightarrow> handshake" where
  "signaller_step cfg s =
     (case s_pc s of
        S_idle \<Rightarrow> s\<lparr>s_buf := s_buf s @ [(Counter, tso_load (s_buf s) (hs_mem s) Counter + 1)], s_pc := S_fence\<rparr>
      | S_fence \<Rightarrow> if signaller_full_fence cfg \<and> s_buf s \<noteq> [] then s else s\<lparr>s_pc := S_test\<rparr>
      | S_test \<Rightarrow> if tso_load (s_buf s) (hs_mem s) Flag \<noteq> 0 then s\<lparr>s_pc := S_wake\<rparr> else s\<lparr>s_pc := S_idle\<rparr>
      | S_wake \<Rightarrow> futex_wake_step s)"

text \<open>The oldest store of a buffer reaches memory.\<close>

definition drain_waiter :: "handshake \<Rightarrow> handshake" where
  "drain_waiter s =
     (case w_buf s of [] \<Rightarrow> s | e # b \<Rightarrow> s\<lparr>hs_mem := (hs_mem s)(fst e := snd e), w_buf := b\<rparr>)"

definition drain_signaller :: "handshake \<Rightarrow> handshake" where
  "drain_signaller s =
     (case s_buf s of [] \<Rightarrow> s | e # b \<Rightarrow> s\<lparr>hs_mem := (hs_mem s)(fst e := snd e), s_buf := b\<rparr>)"

datatype hs_label = Waiter | Signaller | Drain_waiter | Drain_signaller | Wait_again u32

text \<open>A waiter that is done may wait again, for the counter to leave another value.\<close>

fun hs_step :: "hs_cfg \<Rightarrow> hs_label \<Rightarrow> handshake \<Rightarrow> handshake" where
  "hs_step cfg Waiter s = waiter_step cfg s"
| "hs_step cfg Signaller s = signaller_step cfg s"
| "hs_step cfg Drain_waiter s = drain_waiter s"
| "hs_step cfg Drain_signaller s = drain_signaller s"
| "hs_step cfg (Wait_again v) s = (if w_pc s = W_done then s\<lparr>snapshot := v, w_pc := W_arm\<rparr> else s)"

definition hs_init :: "u32 \<Rightarrow> handshake" where
  "hs_init c = \<lparr>hs_mem = (\<lambda>x. case x of Counter \<Rightarrow> c | Flag \<Rightarrow> 0), w_buf = [], s_buf = [], w_pc = W_done,
     s_pc = S_idle, snapshot = 0, queued = False\<rparr>"

section \<open>The two pairs\<close>

text \<open>Counter and flag are \<^verbatim>\<open>prod_tail\<close> and \<^verbatim>\<open>cons_sleeping\<close>; both sides have \<^verbatim>\<open>FLIPC2_FULL_FENCE\<close>.\<close>

definition consumer_waits :: hs_cfg where
  "consumer_waits = \<lparr>waiter_full_fence = True, signaller_full_fence = True\<rparr>"

text \<open>Counter and flag are \<^verbatim>\<open>cons_head\<close> and \<^verbatim>\<open>prod_sleeping\<close>; both sides have \<^verbatim>\<open>FLIPC2_WRITE_FENCE\<close> only.\<close>

definition producer_waits :: hs_cfg where
  "producer_waits = \<lparr>waiter_full_fence = False, signaller_full_fence = False\<rparr>"

section \<open>Vocabulary of the properties\<close>

definition asleep :: "handshake \<Rightarrow> bool" where
  "asleep s \<longleftrightarrow> w_pc s = W_block \<and> queued s"

definition hs_inv :: "handshake \<Rightarrow> bool" where
  "hs_inv s \<longleftrightarrow> (\<forall>e \<in> set (w_buf s). fst e = Flag) \<and> (\<forall>e \<in> set (s_buf s). fst e = Counter) \<and>
     (w_pc s \<in> {W_fence, W_check, W_assert_wait, W_reread, W_block} \<longrightarrow> tso_load (w_buf s) (hs_mem s) Flag = 1) \<and>
     (w_pc s \<in> {W_reread, W_block} \<longrightarrow> w_buf s = []) \<and>
     (s_pc s \<noteq> S_fence \<longrightarrow> s_buf s = []) \<and>
     (asleep s \<longrightarrow> s_pc s = S_idle \<longrightarrow> hs_mem s Counter = snapshot s)"

section \<open>Lemmas\<close>

lemma tso_load_simps [simp]:
  "tso_load [] m x = m x"
  "tso_load (buf @ [(y, v)]) m x = (if y = x then v else tso_load buf m x)"
  by (simp_all add: tso_load_def)

lemma tso_load_other: "\<forall>e \<in> set buf. fst e \<noteq> x \<Longrightarrow> tso_load buf m x = m x"
  by (induction buf rule: rev_induct) auto

lemma tso_load_drain: "tso_load b (m(y := v)) x = tso_load ((y, v) # b) m x"
proof (induction b rule: rev_induct)
  case Nil
  then show ?case using tso_load_simps(2) [of "[]" y v m x] by simp
next
  case (snoc e b)
  then show ?case using tso_load_simps(2) [of "(y, v) # b" "fst e" "snd e" m x] by (cases e) simp
qed

lemma hs_inv_init: "hs_inv (hs_init c)"
  by (simp add: hs_inv_def hs_init_def asleep_def)

lemma hs_inv_waiter: "hs_inv s \<Longrightarrow> hs_inv (waiter_step cfg s)"
  by (cases "w_pc s") (auto simp: hs_inv_def waiter_step_def futex_wait_step_def asleep_def)

lemma hs_inv_signaller:
  assumes "signaller_full_fence cfg" "hs_inv s"
  shows "hs_inv (signaller_step cfg s)"
proof (cases "s_pc s")
  case S_test
  have "tso_load (s_buf s) (hs_mem s) Flag = hs_mem s Flag"
    using assms(2) by (intro tso_load_other) (auto simp: hs_inv_def)
  moreover have "hs_mem s Flag = 1" if "asleep s" using assms(2) that by (auto simp: hs_inv_def asleep_def)
  ultimately show ?thesis using assms S_test by (auto simp: hs_inv_def signaller_step_def futex_wake_step_def asleep_def)
qed (use assms in \<open>auto simp: hs_inv_def signaller_step_def futex_wake_step_def asleep_def\<close>)

lemma hs_inv_drain_waiter:
  assumes "hs_inv s"
  shows "hs_inv (drain_waiter s)"
proof (cases "w_buf s")
  case Nil
  then show ?thesis using assms by (simp add: drain_waiter_def)
next
  case (Cons e b)
  then have "fst e = Flag" using assms by (simp add: hs_inv_def)
  then obtain v where e: "e = (Flag, v)" by (cases e) simp
  show ?thesis
    using assms Cons tso_load_drain [of b "hs_mem s" Flag v Flag] by (auto simp: e hs_inv_def drain_waiter_def asleep_def)
qed

lemma hs_inv_drain_signaller:
  assumes "hs_inv s"
  shows "hs_inv (drain_signaller s)"
proof (cases "s_buf s")
  case Nil
  then show ?thesis using assms by (simp add: drain_signaller_def)
next
  case (Cons e b)
  then have "fst e = Counter" using assms by (simp add: hs_inv_def)
  then obtain v where e: "e = (Counter, v)" by (cases e) simp
  have "tso_load (w_buf s) ((hs_mem s)(Counter := v)) Flag = tso_load (w_buf s) (hs_mem s) Flag"
    by (simp add: tso_load_def split: list.split)
  then show ?thesis using assms Cons by (auto simp: e hs_inv_def drain_signaller_def asleep_def)
qed

lemma hs_inv_steps:
  assumes "signaller_full_fence cfg"
  shows "hs_inv s \<Longrightarrow> hs_inv (fold (hs_step cfg) ls s)"
proof (induction ls arbitrary: s)
  case (Cons l ls)
  have "hs_inv (hs_step cfg l s)"
    using Cons.prems assms
    by (cases l) (simp_all add: hs_inv_waiter hs_inv_signaller hs_inv_drain_waiter hs_inv_drain_signaller,
        auto simp: hs_inv_def asleep_def)
  then show ?case using Cons.IH by simp
qed simp

section \<open>Properties\<close>



text \<open>
  C39. A wake-up can be lost between \<^verbatim>\<open>flipc2_produce_wait\<close> and \<^verbatim>\<open>flipc2_consume_release\<close>, which have a compiler barrier where
  the other pair has a full fence: there is an interleaving after which the producer sleeps
  although the consumer has freed a slot and returned, both store buffers are empty, and
  nothing but another release changes that.
\<close>

theorem producer_wakeup_lost:
  "\<exists>ls. let s = fold (hs_step producer_waits) ls (hs_init 0)
     in asleep s \<and> s_pc s = S_idle \<and> w_buf s = [] \<and> s_buf s = [] \<and> hs_mem s Counter \<noteq> snapshot s \<and>
        hs_step producer_waits Waiter s = s \<and> hs_step producer_waits Drain_waiter s = s \<and>
        hs_step producer_waits Drain_signaller s = s"
  by (rule exI [of _ "[Wait_again 0, Signaller, Signaller, Signaller, Waiter, Waiter, Waiter, Drain_waiter, Waiter, Waiter,
        Drain_signaller]"])
    (simp add: producer_waits_def hs_init_def waiter_step_def futex_wait_step_def signaller_step_def futex_wake_step_def drain_waiter_def drain_signaller_def
      asleep_def Let_def tso_load_def)

end
