(* ===== verification/Flipc2_Ring.thy ===== *)
theory Flipc2_Ring
  imports Uros_Prelude
begin

text \<open>
  The FLIPC v2 channel: creation and attachment (\<^verbatim>\<open>libflipc2/flipc2_channel.c\<close>) and the
  single-producer single-consumer descriptor ring of \<^verbatim>\<open>include/flipc2.h\<close>, with its free-running
  32-bit counters and the copies of them that each side caches.  The shared memory is a
  record; each side has a handle of its own.  Every operation makes at most one access to a
  counter the other side writes before it returns, so operations are steps; writing the
  descriptor and committing it are separate steps.
\<close>

section \<open>Shared memory and handles\<close>

record flipc2_desc =
  opcode :: u32
  desc_flags :: u32
  cookie :: u64
  desc_data_offset :: u64
  desc_data_length :: u64
  desc_param :: "u64 list"
  desc_status :: u32
  desc_reserved :: u32

text \<open>\<open>ring_mem\<close> is the descriptor ring behind the header, \<open>futex_wakes\<close> the wake-ups requested so far.\<close>

datatype futex_word = Prod_tail_word | Cons_head_word

record flipc2_channel_header =
  hdr_magic :: u32
  hdr_version :: u32
  channel_size :: u32
  ring_offset :: u32
  hdr_ring_entries :: u32
  hdr_ring_mask :: u32
  data_offset :: u32
  data_size :: u32
  desc_size :: u32
  wakeup_sem :: mach_port
  wakeup_sem_prod :: mach_port
  layout_flags :: u32
  prod_tail :: u32
  prod_sleeping :: u32
  wakeup_thresh :: u32
  cons_head :: u32
  cons_sleeping :: u32
  prod_total :: u64
  cons_total :: u64
  wakeups :: u64
  prod_reserved :: u32
  ring_mem :: "flipc2_desc list"
  futex_wakes :: "(futex_word \<times> u32) list"

record flipc2_channel =
  ring_entries :: u32
  ring_mask :: u32
  cached_cons_head :: u32
  cached_prod_tail :: u32
  mapped_size :: u32
  spurious_wakeups :: u32

section \<open>Constants\<close>

definition FLIPC2_MAGIC :: u32 where "FLIPC2_MAGIC = 0x464C5032"
definition FLIPC2_VERSION :: u32 where "FLIPC2_VERSION = 1"
definition FLIPC2_CHANNEL_SIZE_MIN :: u32 where "FLIPC2_CHANNEL_SIZE_MIN = 4096"
definition FLIPC2_CHANNEL_SIZE_MAX :: u32 where "FLIPC2_CHANNEL_SIZE_MAX = 16 * 1024 * 1024"
definition FLIPC2_RING_ENTRIES_MIN :: u32 where "FLIPC2_RING_ENTRIES_MIN = 16"
definition FLIPC2_RING_ENTRIES_MAX :: u32 where "FLIPC2_RING_ENTRIES_MAX = 16384"
definition FLIPC2_HEADER_SIZE :: u32 where "FLIPC2_HEADER_SIZE = 256"
definition FLIPC2_DESC_SIZE :: u32 where "FLIPC2_DESC_SIZE = 64"
definition FLIPC2_LAYOUT_ISOLATED :: u32 where "FLIPC2_LAYOUT_ISOLATED = 1"
definition FLIPC2_CREATE_ISOLATED :: u32 where "FLIPC2_CREATE_ISOLATED = 1"
definition FLIPC2_ISO_RING_OFFSET :: u32 where "FLIPC2_ISO_RING_OFFSET = 12288"
definition FLIPC2_CHANNEL_SIZE_MIN_ISOLATED :: u32 where "FLIPC2_CHANNEL_SIZE_MIN_ISOLATED = 16384"

type_synonym flipc2_return = int

abbreviation (input) FLIPC2_ERR_INVALID_ARGUMENT :: flipc2_return where "FLIPC2_ERR_INVALID_ARGUMENT \<equiv> - 1"
abbreviation (input) FLIPC2_ERR_RESOURCE_SHORTAGE :: flipc2_return where "FLIPC2_ERR_RESOURCE_SHORTAGE \<equiv> - 2"
abbreviation (input) FLIPC2_ERR_NOT_CONNECTED :: flipc2_return where "FLIPC2_ERR_NOT_CONNECTED \<equiv> - 5"
abbreviation (input) FLIPC2_ERR_SIZE_ALIGNMENT :: flipc2_return where "FLIPC2_ERR_SIZE_ALIGNMENT \<equiv> - 9"

section \<open>Creating and attaching\<close>

definition is_power_of_2 :: "u32 \<Rightarrow> bool" where
  "is_power_of_2 n \<longleftrightarrow> n \<noteq> 0 \<and> n AND (n - 1) = 0"

text \<open>The whole region is zeroed first, which makes every descriptor the zero one.\<close>

definition zero_desc :: flipc2_desc where
  "zero_desc = \<lparr>opcode = 0, desc_flags = 0, cookie = 0, desc_data_offset = 0, desc_data_length = 0,
     desc_param = [0, 0, 0], desc_status = 0, desc_reserved = 0\<rparr>"

definition flipc2_init_header :: "u32 \<Rightarrow> u32 \<Rightarrow> u32 \<Rightarrow> flipc2_channel_header" where
  "flipc2_init_header sz entries flags =
     (let ring_size = entries * FLIPC2_DESC_SIZE;
          isolated = (flags AND FLIPC2_CREATE_ISOLATED \<noteq> 0);
          layout = (if isolated then FLIPC2_LAYOUT_ISOLATED else 0);
          ring_off = (if isolated then FLIPC2_ISO_RING_OFFSET else FLIPC2_HEADER_SIZE);
          data_off = ring_off + ring_size
      in \<lparr>hdr_magic = FLIPC2_MAGIC, hdr_version = FLIPC2_VERSION, channel_size = sz, ring_offset = ring_off,
          hdr_ring_entries = entries, hdr_ring_mask = entries - 1, data_offset = data_off,
          data_size = sz - data_off, desc_size = FLIPC2_DESC_SIZE, wakeup_sem = MACH_PORT_NULL,
          wakeup_sem_prod = MACH_PORT_NULL, layout_flags = layout, prod_tail = 0, prod_sleeping = 0,
          wakeup_thresh = 1, cons_head = 0, cons_sleeping = 0, prod_total = 0, cons_total = 0, wakeups = 0,
          prod_reserved = 0, ring_mem = replicate (unat entries) zero_desc, futex_wakes = []\<rparr>)"

definition flipc2_init_handle :: "flipc2_channel_header \<Rightarrow> flipc2_channel" where
  "flipc2_init_handle h = \<lparr>ring_entries = hdr_ring_entries h, ring_mask = hdr_ring_mask h, cached_cons_head = 0,
     cached_prod_tail = 0, mapped_size = 0, spurious_wakeups = 0\<rparr>"

text \<open>
  \<open>vm_mem\<close> and \<open>vm_handle\<close> say whether the two calls of \<^verbatim>\<open>vm_allocate\<close> succeed.  The pointer arguments are
  taken to be non-null; the result pair stands for what is stored through them.
\<close>

definition flipc2_channel_create_ex ::
  "bool \<Rightarrow> bool \<Rightarrow> u32 \<Rightarrow> u32 \<Rightarrow> u32 \<Rightarrow> flipc2_return + (flipc2_channel_header \<times> flipc2_channel)" where
  "flipc2_channel_create_ex vm_mem vm_handle sz entries flags =
     (if sz < FLIPC2_CHANNEL_SIZE_MIN \<or> sz > FLIPC2_CHANNEL_SIZE_MAX then Inl FLIPC2_ERR_INVALID_ARGUMENT
      else if \<not> is_power_of_2 entries \<or> entries < FLIPC2_RING_ENTRIES_MIN \<or> entries > FLIPC2_RING_ENTRIES_MAX
      then Inl FLIPC2_ERR_INVALID_ARGUMENT
      else
        (let ring_size = entries * FLIPC2_DESC_SIZE;
             isolated = (flags AND FLIPC2_CREATE_ISOLATED \<noteq> 0);
             ring_off = (if isolated then FLIPC2_ISO_RING_OFFSET else FLIPC2_HEADER_SIZE);
             min_size = ring_off + ring_size
         in if isolated \<and> sz < FLIPC2_CHANNEL_SIZE_MIN_ISOLATED then Inl FLIPC2_ERR_SIZE_ALIGNMENT
            else if sz < min_size then Inl FLIPC2_ERR_SIZE_ALIGNMENT
            else if \<not> vm_mem then Inl FLIPC2_ERR_RESOURCE_SHORTAGE
            else if \<not> vm_handle then Inl FLIPC2_ERR_RESOURCE_SHORTAGE
            else (let h = flipc2_init_header sz entries flags in Inr (h, flipc2_init_handle h))))"

definition flipc2_channel_create ::
  "bool \<Rightarrow> bool \<Rightarrow> u32 \<Rightarrow> u32 \<Rightarrow> flipc2_return + (flipc2_channel_header \<times> flipc2_channel)" where
  "flipc2_channel_create vm_mem vm_handle sz entries =
     flipc2_channel_create_ex vm_mem vm_handle
       (if sz < FLIPC2_CHANNEL_SIZE_MIN_ISOLATED then FLIPC2_CHANNEL_SIZE_MIN_ISOLATED else sz)
       entries FLIPC2_CREATE_ISOLATED"

definition flipc2_channel_attach :: "bool \<Rightarrow> flipc2_channel_header \<Rightarrow> flipc2_return + flipc2_channel" where
  "flipc2_channel_attach vm_handle h =
     (if hdr_magic h \<noteq> FLIPC2_MAGIC \<or> hdr_version h \<noteq> FLIPC2_VERSION then Inl FLIPC2_ERR_NOT_CONNECTED
      else if \<not> is_power_of_2 (hdr_ring_entries h) \<or> hdr_ring_entries h < FLIPC2_RING_ENTRIES_MIN
              \<or> hdr_ring_entries h > FLIPC2_RING_ENTRIES_MAX then Inl FLIPC2_ERR_INVALID_ARGUMENT
      else if hdr_ring_mask h \<noteq> hdr_ring_entries h - 1 then Inl FLIPC2_ERR_INVALID_ARGUMENT
      else if layout_flags h AND FLIPC2_LAYOUT_ISOLATED \<noteq> 0 \<and>
              (ring_offset h \<noteq> FLIPC2_ISO_RING_OFFSET
               \<or> data_offset h \<noteq> FLIPC2_ISO_RING_OFFSET + hdr_ring_entries h * FLIPC2_DESC_SIZE
               \<or> channel_size h < FLIPC2_CHANNEL_SIZE_MIN_ISOLATED) then Inl FLIPC2_ERR_INVALID_ARGUMENT
      else if layout_flags h AND FLIPC2_LAYOUT_ISOLATED = 0 \<and>
              (ring_offset h \<noteq> FLIPC2_HEADER_SIZE
               \<or> data_offset h \<noteq> FLIPC2_HEADER_SIZE + hdr_ring_entries h * FLIPC2_DESC_SIZE)
      then Inl FLIPC2_ERR_INVALID_ARGUMENT
      else if channel_size h < data_offset h then Inl FLIPC2_ERR_INVALID_ARGUMENT
      else if \<not> vm_handle then Inl FLIPC2_ERR_RESOURCE_SHORTAGE
      else Inr (flipc2_init_handle h))"

section \<open>Producing\<close>

text \<open>The slot reserved is returned as its index.\<close>

definition flipc2_produce_reserve :: "flipc2_channel \<Rightarrow> flipc2_channel_header \<Rightarrow> u32 option \<times> flipc2_channel" where
  "flipc2_produce_reserve ch h =
     (let tail = prod_tail h; re = ring_entries ch; space = re - (tail - cached_cons_head ch)
      in if space = 0 \<or> space > re
         then (let ch = ch\<lparr>cached_cons_head := cons_head h\<rparr>; space = re - (tail - cached_cons_head ch)
               in if space = 0 then (None, ch) else if space > re then (None, ch)
                  else (Some (tail AND ring_mask ch), ch))
         else (Some (tail AND ring_mask ch), ch))"

text \<open>The test both commits make once the tail has moved.\<close>

definition wake_consumer :: "flipc2_channel_header \<Rightarrow> flipc2_channel_header" where
  "wake_consumer h =
     (if cons_sleeping h \<noteq> 0
      then (let thresh = wakeup_thresh h; pending = prod_tail h - cons_head h
            in if thresh \<le> 1 \<or> pending \<ge> thresh
               then h\<lparr>futex_wakes := futex_wakes h @ [(Prod_tail_word, 1)], wakeups := wakeups h + 1\<rparr> else h)
      else h)"

definition flipc2_produce_commit :: "flipc2_channel_header \<Rightarrow> flipc2_channel_header" where
  "flipc2_produce_commit h = wake_consumer (h\<lparr>prod_tail := prod_tail h + 1, prod_total := prod_total h + 1\<rparr>)"

definition flipc2_produce_commit_n :: "u32 \<Rightarrow> flipc2_channel_header \<Rightarrow> flipc2_channel_header" where
  "flipc2_produce_commit_n n h = wake_consumer (h\<lparr>prod_tail := prod_tail h + n, prod_total := prod_total h + ucast n\<rparr>)"

definition flipc2_produce_flush :: "flipc2_channel_header \<Rightarrow> flipc2_channel_header" where
  "flipc2_produce_flush h =
     (if cons_sleeping h \<noteq> 0
      then h\<lparr>futex_wakes := futex_wakes h @ [(Prod_tail_word, 1)], wakeups := wakeups h + 1\<rparr> else h)"

section \<open>Consuming\<close>

definition flipc2_consume_peek :: "flipc2_channel \<Rightarrow> flipc2_channel_header \<Rightarrow> u32 option \<times> flipc2_channel" where
  "flipc2_consume_peek ch h =
     (let head = cons_head h; re = ring_entries ch; avail = cached_prod_tail ch - head
      in if avail = 0 \<or> avail > re
         then (let ch = ch\<lparr>cached_prod_tail := prod_tail h\<rparr>; avail = cached_prod_tail ch - head
               in if avail = 0 then (None, ch) else if avail > re then (None, ch)
                  else (Some (head AND ring_mask ch), ch))
         else (Some (head AND ring_mask ch), ch))"

definition wake_producers :: "flipc2_channel_header \<Rightarrow> flipc2_channel_header" where
  "wake_producers h =
     (if prod_sleeping h \<noteq> 0 then h\<lparr>futex_wakes := futex_wakes h @ [(Cons_head_word, 0x7fffffff)]\<rparr> else h)"

definition flipc2_consume_release :: "flipc2_channel_header \<Rightarrow> flipc2_channel_header" where
  "flipc2_consume_release h = wake_producers (h\<lparr>cons_head := cons_head h + 1, cons_total := cons_total h + 1\<rparr>)"

definition flipc2_consume_release_n :: "u32 \<Rightarrow> flipc2_channel_header \<Rightarrow> flipc2_channel_header" where
  "flipc2_consume_release_n n h = wake_producers (h\<lparr>cons_head := cons_head h + n, cons_total := cons_total h + ucast n\<rparr>)"

definition flipc2_available :: "flipc2_channel \<Rightarrow> flipc2_channel_header \<Rightarrow> u32 \<times> flipc2_channel" where
  "flipc2_available ch h =
     (let ch = ch\<lparr>cached_prod_tail := prod_tail h\<rparr>; avail = cached_prod_tail ch - cons_head h
      in (if avail > ring_entries ch then 0 else avail, ch))"

text \<open>The offset handed out, for a range inside the data region.\<close>

definition flipc2_data_ptr_safe :: "flipc2_channel_header \<Rightarrow> u64 \<Rightarrow> u64 \<Rightarrow> u64 option" where
  "flipc2_data_ptr_safe h off len =
     (if off + len > ucast (data_size h) then None else if off + len < off then None else Some off)"

section \<open>A producer and a consumer\<close>

text \<open>
  Each side holds at most one slot: the producer between reserving and committing, the consumer
  between peeking and releasing.  \<open>sent\<close> and \<open>received\<close> are histories.
\<close>

record ring_sys =
  rs_hdr :: flipc2_channel_header
  rs_prod :: flipc2_channel
  rs_cons :: flipc2_channel
  p_slot :: "u32 option"
  c_slot :: "u32 option"
  sent :: "flipc2_desc list"
  received :: "flipc2_desc list"

datatype ring_label = P_reserve | P_write flipc2_desc | P_commit | C_peek | C_release | C_available

definition slot_at :: "u32 \<Rightarrow> ring_sys \<Rightarrow> flipc2_desc" where
  "slot_at i w = ring_mem (rs_hdr w) ! unat i"

text \<open>A label that does not fit what its side is doing leaves the state alone.\<close>

fun ring_step :: "ring_label \<Rightarrow> ring_sys \<Rightarrow> ring_sys" where
  "ring_step P_reserve w =
     (if p_slot w \<noteq> None then w
      else (let (r, ch) = flipc2_produce_reserve (rs_prod w) (rs_hdr w) in w\<lparr>rs_prod := ch, p_slot := r\<rparr>))"
| "ring_step (P_write d) w =
     (case p_slot w of
        None \<Rightarrow> w
      | Some i \<Rightarrow> w\<lparr>rs_hdr := (rs_hdr w)\<lparr>ring_mem := (ring_mem (rs_hdr w))[unat i := d]\<rparr>\<rparr>)"
| "ring_step P_commit w =
     (case p_slot w of
        None \<Rightarrow> w
      | Some i \<Rightarrow> w\<lparr>rs_hdr := flipc2_produce_commit (rs_hdr w), p_slot := None, sent := sent w @ [slot_at i w]\<rparr>)"
| "ring_step C_peek w =
     (if c_slot w \<noteq> None then w
      else (let (r, ch) = flipc2_consume_peek (rs_cons w) (rs_hdr w) in w\<lparr>rs_cons := ch, c_slot := r\<rparr>))"
| "ring_step C_release w =
     (case c_slot w of
        None \<Rightarrow> w
      | Some i \<Rightarrow> w\<lparr>rs_hdr := flipc2_consume_release (rs_hdr w), c_slot := None, received := received w @ [slot_at i w]\<rparr>)"
| "ring_step C_available w = w\<lparr>rs_cons := snd (flipc2_available (rs_cons w) (rs_hdr w))\<rparr>"

text \<open>The creator produces, the peer that attached consumes.\<close>

definition ring_start :: "flipc2_channel_header \<Rightarrow> flipc2_channel \<Rightarrow> flipc2_channel \<Rightarrow> ring_sys" where
  "ring_start h p c = \<lparr>rs_hdr = h, rs_prod = p, rs_cons = c, p_slot = None, c_slot = None, sent = [], received = []\<rparr>"

text \<open>
  The counters are the lengths of the histories modulo \<open>2 ^ 32\<close>; \<open>cr\<close> and \<open>cs\<close> are the lengths behind the
  cached copies.  The slots between the counters hold what was sent and not yet received.
\<close>

definition ring_inv :: "nat \<Rightarrow> nat \<Rightarrow> nat \<Rightarrow> ring_sys \<Rightarrow> bool" where
  "ring_inv k cr cs w \<longleftrightarrow>
     (let S = length (sent w); R = length (received w); h = rs_hdr w; re = 2 ^ k
      in k < 31 \<and> prod_tail h = of_nat S \<and> cons_head h = of_nat R \<and> length (ring_mem h) = re \<and>
         ring_entries (rs_prod w) = of_nat re \<and> ring_entries (rs_cons w) = of_nat re \<and>
         ring_mask (rs_prod w) = mask k \<and> ring_mask (rs_cons w) = mask k \<and>
         cached_cons_head (rs_prod w) = of_nat cr \<and> cached_prod_tail (rs_cons w) = of_nat cs \<and>
         cr \<le> R \<and> R \<le> cs \<and> cs \<le> S \<and> S - cr \<le> re \<and>
         take R (sent w) = received w \<and>
         (\<forall>i. R \<le> i \<longrightarrow> i < S \<longrightarrow> ring_mem h ! (i mod re) = sent w ! i) \<and>
         (\<forall>j. p_slot w = Some j \<longrightarrow> unat j = S mod re \<and> S - cr < re) \<and>
         (\<forall>j. c_slot w = Some j \<longrightarrow> unat j = R mod re \<and> R < cs))"

section \<open>Words\<close>

lemma pow2_nat: "n AND (n - 1) = 0 \<Longrightarrow> n \<noteq> 0 \<Longrightarrow> \<exists>k. n = 2 ^ k" for n :: nat
proof (induction n rule: less_induct)
  case (less n)
  show ?case
  proof (cases "even n")
    case True
    then obtain m where m: "n = 2 * m" by blast
    then have m0: "m \<noteq> 0" using less.prems(2) by simp
    have "n AND (n - 1) = 2 * (m AND (m - 1))"
    proof -
      have "(n - 1) div 2 = m - 1" "n div 2 = m" using m m0 by simp_all
      moreover have "even n" using m by simp
      ultimately show ?thesis by (subst and_nat_rec) simp
    qed
    then have "m AND (m - 1) = 0" using less.prems(1) by simp
    then obtain k where "m = 2 ^ k" using less.IH [of m] m m0 by auto
    then show ?thesis using m by (intro exI [of _ "Suc k"]) simp
  next
    case False
    then obtain m where m: "n = 2 * m + 1" by (auto elim: oddE)
    have "n AND (n - 1) = 2 * m" using m by (subst and_nat_rec) simp
    then have "m = 0" using less.prems(1) by simp
    then show ?thesis using m by (intro exI [of _ 0]) simp
  qed
qed

lemma power_of_2_entries:
  assumes "is_power_of_2 n"
  shows "\<exists>k. unat n = 2 ^ k \<and> n - 1 = mask k"
proof -
  have n0: "n \<noteq> 0" and a: "n AND (n - 1) = 0" using assms by (simp_all add: is_power_of_2_def)
  have u: "unat (n - 1) = unat n - 1" using n0 by (simp add: unat_minus_one)
  have "unat n AND (unat n - 1) = 0" using a u by (metis unat_0 unsigned_and_eq)
  then obtain k where k: "unat n = 2 ^ k" using pow2_nat [of "unat n"] n0 by (auto simp: unat_eq_0)
  have "n = of_nat (unat n)" by simp
  then have "n = of_nat (2 ^ k)" unfolding k .
  then have "n - 1 = mask k" by (simp add: mask_eq_exp_minus_1)
  then show ?thesis using k by blast
qed

lemma unat_diff_of_nat:
  assumes "b \<le> a" "a - b < 2 ^ 32"
  shows "unat (of_nat a - of_nat b :: u32) = a - b"
proof -
  have "(of_nat a - of_nat b :: u32) = of_nat (a - b)" using assms(1) by simp
  then show ?thesis using assms(2) by (simp add: unat_of_nat del: of_nat_diff)
qed

lemma unat_of_nat_mask: "k \<le> 32 \<Longrightarrow> unat (of_nat a AND mask k :: u32) = a mod 2 ^ k"
proof -
  assume "k \<le> 32"
  then have "(2::nat) ^ k dvd 2 ^ 32" by (rule le_imp_power_dvd)
  then show ?thesis by (simp add: unat_and_mask_mod unat_of_nat mod_mod_cancel)
qed

section \<open>The ring is a queue\<close>

lemma commit_fields [simp]:
  "prod_tail (flipc2_produce_commit h) = prod_tail h + 1" "cons_head (flipc2_produce_commit h) = cons_head h"
  "ring_mem (flipc2_produce_commit h) = ring_mem h"
  by (simp_all add: flipc2_produce_commit_def wake_consumer_def Let_def)

lemma release_fields [simp]:
  "prod_tail (flipc2_consume_release h) = prod_tail h" "cons_head (flipc2_consume_release h) = cons_head h + 1"
  "ring_mem (flipc2_consume_release h) = ring_mem h"
  by (simp_all add: flipc2_consume_release_def wake_producers_def)

text \<open>How much room the producer computes from a cached head.\<close>

lemma space_of_nat:
  assumes "c \<le> S" "S - c \<le> 2 ^ k" "k < 31"
  shows "unat (of_nat (2 ^ k) - (of_nat S - of_nat c) :: u32) = 2 ^ k - (S - c)"
proof -
  have p: "(2::nat) ^ k < 2 ^ 32" using assms(3) by (intro power_strict_increasing) simp_all
  have "(of_nat S - of_nat c :: u32) = of_nat (S - c)" using assms(1) by simp
  then show ?thesis using unat_diff_of_nat [OF assms(2)] p by (simp del: of_nat_diff of_nat_power)
qed

lemma reserve_spec:
  assumes "ring_inv k cr cs w" "p_slot w = None"
  shows "\<exists>cr'. ring_inv k cr' cs (ring_step P_reserve w)"
    "p_slot (ring_step P_reserve w) = None \<longleftrightarrow> length (sent w) - length (received w) = 2 ^ k"
proof -
  let ?S = "length (sent w)" and ?R = "length (received w)" and ?h = "rs_hdr w" and ?ch = "rs_prod w" and ?re = "(2::nat) ^ k"
  note I = assms(1) [unfolded ring_inv_def Let_def]
  have k: "k < 31" using I by blast
  have re: "unat (of_nat ?re :: u32) = ?re"
    using power_strict_increasing [of k 32 "2::nat"] k by (simp add: unat_of_nat del: of_nat_power)
  let ?sp = "\<lambda>c. of_nat ?re - (of_nat ?S - of_nat c) :: u32"
  have sp: "unat (?sp c) = ?re - (?S - c)" if "c \<le> ?S" "?S - c \<le> ?re" for c using space_of_nat [OF that k] .
  have le: "\<not> ?sp c > of_nat ?re" if "c \<le> ?S" "?S - c \<le> ?re" for c
    using sp [OF that] re by (simp add: word_less_nat_alt del: of_nat_power)
  have z: "?sp c = 0 \<longleftrightarrow> ?S - c = ?re" if "c \<le> ?S" "?S - c \<le> ?re" for c
    using sp [OF that] that(2) by (auto simp: unat_eq_0 [symmetric] simp del: of_nat_power)
  have b: "cr \<le> ?S" "?S - cr \<le> ?re" "?R \<le> ?S" "?S - ?R \<le> ?re" using I by auto
  have idx: "unat (of_nat ?S AND mask k :: u32) = ?S mod ?re" using unat_of_nat_mask [of k ?S] k by simp
  have "(\<exists>cr'. ring_inv k cr' cs (ring_step P_reserve w)) \<and> (p_slot (ring_step P_reserve w) = None \<longleftrightarrow> ?S - ?R = ?re)"
  proof (cases "?S - cr = ?re")
    case False
    then have "flipc2_produce_reserve ?ch ?h = (Some (of_nat ?S AND mask k), ?ch)"
      using I le [OF b(1,2)] z [OF b(1,2)] by (simp add: flipc2_produce_reserve_def Let_def del: of_nat_power)
    then have "ring_inv k cr cs (ring_step P_reserve w)" "p_slot (ring_step P_reserve w) \<noteq> None"
      using I assms(2) idx False b(2) by (auto simp: ring_inv_def Let_def)
    moreover have "?S - ?R \<noteq> ?re" using I False by auto
    ultimately show ?thesis by blast
  next
    case full: True
    let ?ch' = "?ch\<lparr>cached_cons_head := of_nat ?R\<rparr>"
    have r: "flipc2_produce_reserve ?ch ?h = (if ?S - ?R = ?re then None else Some (of_nat ?S AND mask k), ?ch')"
      using I full le [OF b(3,4)] z [OF b(1,2)] z [OF b(3,4)] by (simp add: flipc2_produce_reserve_def Let_def del: of_nat_power)
    have "ring_inv k ?R cs (ring_step P_reserve w)"
      "p_slot (ring_step P_reserve w) = None \<longleftrightarrow> ?S - ?R = ?re"
      using I assms(2) idx b(4) by (auto simp: ring_inv_def Let_def r)
    then show ?thesis by blast
  qed
  then show "\<exists>cr'. ring_inv k cr' cs (ring_step P_reserve w)" "p_slot (ring_step P_reserve w) = None \<longleftrightarrow> ?S - ?R = ?re" by blast+
qed

lemma peek_spec:
  assumes "ring_inv k cr cs w" "c_slot w = None"
  shows "\<exists>cs'. ring_inv k cr cs' (ring_step C_peek w)"
    "c_slot (ring_step C_peek w) = None \<longleftrightarrow> length (sent w) = length (received w)"
proof -
  let ?S = "length (sent w)" and ?R = "length (received w)" and ?h = "rs_hdr w" and ?ch = "rs_cons w" and ?re = "(2::nat) ^ k"
  note I = assms(1) [unfolded ring_inv_def Let_def]
  have k: "k < 31" using I by blast
  have p: "?re < 2 ^ 32" using k by (intro power_strict_increasing) simp_all
  have re: "unat (of_nat ?re :: u32) = ?re" using p by (simp add: unat_of_nat del: of_nat_power)
  let ?av = "\<lambda>c. of_nat c - of_nat ?R :: u32"
  have av: "unat (?av c) = c - ?R" if "?R \<le> c" "c - ?R \<le> ?re" for c using unat_diff_of_nat [OF that(1)] that(2) p by simp
  have le: "\<not> ?av c > of_nat ?re" if "?R \<le> c" "c - ?R \<le> ?re" for c
    using av [OF that] re that(2) by (simp add: word_less_nat_alt del: of_nat_power)
  have z: "?av c = 0 \<longleftrightarrow> c = ?R" if "?R \<le> c" "c - ?R \<le> ?re" for c
    using av [OF that] that(1) by (auto simp: unat_eq_0 [symmetric] simp del: of_nat_power)
  have b: "?R \<le> cs" "cs - ?R \<le> ?re" "?R \<le> ?S" "?S - ?R \<le> ?re" using I by auto
  have idx: "unat (of_nat ?R AND mask k :: u32) = ?R mod ?re" using unat_of_nat_mask [of k ?R] k by simp
  have "(\<exists>cs'. ring_inv k cr cs' (ring_step C_peek w)) \<and> (c_slot (ring_step C_peek w) = None \<longleftrightarrow> ?S = ?R)"
  proof (cases "cs = ?R")
    case False
    then have "flipc2_consume_peek ?ch ?h = (Some (of_nat ?R AND mask k), ?ch)"
      using I le [OF b(1,2)] z [OF b(1,2)] by (simp add: flipc2_consume_peek_def Let_def del: of_nat_power)
    then have "ring_inv k cr cs (ring_step C_peek w)" "c_slot (ring_step C_peek w) \<noteq> None"
      using I assms(2) idx False b(1) by (auto simp: ring_inv_def Let_def)
    moreover have "?S \<noteq> ?R" using I False by auto
    ultimately show ?thesis by blast
  next
    case True
    let ?ch' = "?ch\<lparr>cached_prod_tail := of_nat ?S\<rparr>"
    have r: "flipc2_consume_peek ?ch ?h = (if ?S = ?R then None else Some (of_nat ?R AND mask k), ?ch')"
      using I True le [OF b(3,4)] z [OF b(1,2)] z [OF b(3,4)] by (simp add: flipc2_consume_peek_def Let_def del: of_nat_power)
    have "ring_inv k cr ?S (ring_step C_peek w)" "c_slot (ring_step C_peek w) = None \<longleftrightarrow> ?S = ?R"
      using I assms(2) idx b(3) by (auto simp: ring_inv_def Let_def r)
    then show ?thesis by blast
  qed
  then show "\<exists>cs'. ring_inv k cr cs' (ring_step C_peek w)" "c_slot (ring_step C_peek w) = None \<longleftrightarrow> ?S = ?R" by blast+
qed

text \<open>Positions less than a ring apart are in different slots.\<close>

lemma mod_distinct:
  fixes i j re :: nat
  assumes "i < j" "j - i < re"
  shows "i mod re \<noteq> j mod re"
proof
  assume "i mod re = j mod re"
  then have "re dvd j - i" using assms(1) mod_eq_dvd_iff_nat [of i j re] by simp
  then show False using assms by (simp add: nat_dvd_not_less)
qed

lemma write_spec:
  assumes "ring_inv k cr cs w" "p_slot w = Some i"
  shows "ring_inv k cr cs (ring_step (P_write d) w)"
proof -
  let ?S = "length (sent w)" and ?R = "length (received w)" and ?re = "(2::nat) ^ k"
  note I = assms(1) [unfolded ring_inv_def Let_def]
  have i: "unat i = ?S mod ?re" "?S - cr < ?re" "cr \<le> ?R" using I assms(2) by auto
  have "j mod ?re \<noteq> unat i" if "?R \<le> j" "j < ?S" for j
    using mod_distinct [OF that(2), of ?re] that(1) i by auto
  then have "(ring_mem (rs_hdr w))[unat i := d] ! (j mod ?re) = sent w ! j" if "?R \<le> j" "j < ?S" for j
    using that I by (metis nth_list_update_neq)
  then show ?thesis using I assms(2) by (auto simp: ring_inv_def Let_def)
qed

lemma commit_spec:
  assumes "ring_inv k cr cs w" "p_slot w = Some i"
  shows "ring_inv k cr cs (ring_step P_commit w)"
proof -
  let ?S = "length (sent w)" and ?R = "length (received w)" and ?re = "(2::nat) ^ k"
  note I = assms(1) [unfolded ring_inv_def Let_def]
  have i: "unat i = ?S mod ?re" "?S - cr < ?re" using I assms(2) by auto
  have "ring_mem (rs_hdr w) ! (j mod ?re) = (sent w @ [slot_at i w]) ! j" if "?R \<le> j" "j < Suc ?S" for j
    using that I i(1) by (cases "j = ?S") (auto simp: slot_at_def nth_append)
  moreover have "take ?R (sent w @ [slot_at i w]) = received w" using I by auto
  ultimately show ?thesis using I assms(2) i(2) by (auto simp: ring_inv_def Let_def add.commute)
qed

lemma release_spec:
  assumes "ring_inv k cr cs w" "c_slot w = Some i"
  shows "ring_inv k cr cs (ring_step C_release w)" "slot_at i w = sent w ! length (received w)"
    "length (received w) < length (sent w)"
proof -
  let ?S = "length (sent w)" and ?R = "length (received w)" and ?re = "(2::nat) ^ k"
  note I = assms(1) [unfolded ring_inv_def Let_def]
  have i: "unat i = ?R mod ?re" "?R < cs" "cs \<le> ?S" using I assms(2) by auto
  then show lt: "?R < ?S" by simp
  show s: "slot_at i w = sent w ! ?R" using I i(1) lt by (simp add: slot_at_def)
  have "take (Suc ?R) (sent w) = received w @ [slot_at i w]" using I lt s by (simp add: take_Suc_conv_app_nth)
  then show "ring_inv k cr cs (ring_step C_release w)"
    using I assms(2) i by (auto simp: ring_inv_def Let_def add.commute)
qed

lemma available_spec:
  assumes "ring_inv k cr cs w"
  shows "ring_inv k cr (length (sent w)) (ring_step C_available w)"
  using assms by (auto simp: ring_inv_def Let_def flipc2_available_def)

lemma step_spec:
  assumes "ring_inv k cr cs w"
  shows "\<exists>cr' cs'. ring_inv k cr' cs' (ring_step l w)"
proof (cases l)
  case P_reserve
  then show ?thesis using reserve_spec(1) [OF assms] assms by (cases "p_slot w") auto
next
  case (P_write d)
  then show ?thesis using write_spec [OF assms] assms by (cases "p_slot w") auto
next
  case P_commit
  then show ?thesis using commit_spec [OF assms] assms by (cases "p_slot w") auto
next
  case C_peek
  then show ?thesis using peek_spec(1) [OF assms] assms by (cases "c_slot w") auto
next
  case C_release
  then show ?thesis using release_spec(1) [OF assms] assms by (cases "c_slot w") auto
next
  case C_available
  then show ?thesis using available_spec [OF assms] by blast
qed

lemma steps_spec: "ring_inv k cr cs w \<Longrightarrow> \<exists>cr' cs'. ring_inv k cr' cs' (fold ring_step ls w)"
proof (induction ls arbitrary: w cr cs)
  case (Cons l ls)
  then show ?case using step_spec [OF Cons.prems, of l] by (metis fold_simps(2))
qed auto

lemma create_fields:
  assumes "flipc2_channel_create_ex m v sz entries flags = Inr (h, p)"
  shows "h = flipc2_init_header sz entries flags" "p = flipc2_init_handle h" "is_power_of_2 entries"
    "unat entries \<le> 16384" "16 \<le> unat entries"
  using assms by (auto simp: flipc2_channel_create_ex_def Let_def FLIPC2_RING_ENTRIES_MAX_def FLIPC2_RING_ENTRIES_MIN_def
      word_less_nat_alt split: if_splits)

lemma ring_inv_start:
  assumes "flipc2_channel_create_ex m v sz entries flags = Inr (h, p)" "flipc2_channel_attach v' h = Inr c"
  shows "\<exists>k. unat entries = 2 ^ k \<and> ring_inv k 0 0 (ring_start h p c)"
proof -
  note f = create_fields [OF assms(1)]
  obtain k where k: "unat entries = 2 ^ k" "entries - 1 = mask k" using power_of_2_entries [OF f(3)] by blast
  have "(2::nat) ^ k < 2 ^ 31" using k(1) f(4) by simp
  then have k31: "k < 31" by (rule power_less_imp_less_exp [rotated]) simp
  have e: "entries = of_nat (2 ^ k)" unfolding k(1) [symmetric] by simp
  have c: "c = flipc2_init_handle h" using assms(2) by (auto simp: flipc2_channel_attach_def split: if_splits)
  have "ring_inv k 0 0 (ring_start h p c)"
    unfolding ring_inv_def ring_start_def c f(2) flipc2_init_handle_def
    using k k31 e f(1) by (simp add: flipc2_init_header_def Let_def del: of_nat_power)
  then show ?thesis using k(1) by blast
qed

section \<open>Property\<close>

text \<open>
  C37. The ring is a bounded first-in first-out queue: whatever way a producer and a consumer interleave
  on a channel one created and the other attached to, and however often the 32-bit
  counters wrap, what was received is the beginning of what was sent, at most \<^verbatim>\<open>ring_entries\<close> descriptors
  are in flight, a peeked slot is in the ring and holds the next descriptor in order, the
  slot being written is never the one being read, and reserving or peeking fails only when
  the ring is full or empty.
\<close>

theorem ring_is_fifo:
  assumes "flipc2_channel_create_ex m v sz entries flags = Inr (h, p)" "flipc2_channel_attach v' h = Inr c"
  shows "let w = fold ring_step ls (ring_start h p c)
    in take (length (received w)) (sent w) = received w \<and>
       length (sent w) - length (received w) \<le> unat entries \<and>
       (\<forall>i. c_slot w = Some i \<longrightarrow> unat i < unat entries \<and> length (received w) < length (sent w) \<and>
            slot_at i w = sent w ! length (received w)) \<and>
       (\<forall>j. p_slot w = Some j \<longrightarrow> unat j < unat entries \<and> c_slot w \<noteq> Some j) \<and>
       (p_slot w = None \<longrightarrow> (p_slot (ring_step P_reserve w) = None \<longleftrightarrow>
            length (sent w) - length (received w) = unat entries)) \<and>
       (c_slot w = None \<longrightarrow> (c_slot (ring_step C_peek w) = None \<longleftrightarrow> length (sent w) = length (received w)))"
proof -
  define w where "w = fold ring_step ls (ring_start h p c)"
  obtain k where k: "unat entries = 2 ^ k" "ring_inv k 0 0 (ring_start h p c)" using ring_inv_start [OF assms] by blast
  obtain cr cs where inv: "ring_inv k cr cs w" using steps_spec [OF k(2)] unfolding w_def by blast
  note I = inv [unfolded ring_inv_def Let_def]
  show ?thesis
    unfolding w_def [symmetric] Let_def
  proof (intro conjI allI impI)
    show "take (length (received w)) (sent w) = received w" using I by blast
    show "length (sent w) - length (received w) \<le> unat entries" using I k(1) by auto
  next
    fix i assume i: "c_slot w = Some i"
    show "unat i < unat entries" using I i k(1) by auto
    show "length (received w) < length (sent w)" "slot_at i w = sent w ! length (received w)"
      by (rule release_spec(3,2) [OF inv i])+
  next
    fix j assume j: "p_slot w = Some j"
    have u: "unat j = length (sent w) mod 2 ^ k" "length (sent w) - cr < 2 ^ k" "cr \<le> length (received w)" using I j by auto
    show "unat j < unat entries" using u(1) k(1) by simp
    show "c_slot w \<noteq> Some j"
    proof
      assume i: "c_slot w = Some j"
      then have "unat j = length (received w) mod 2 ^ k" using I by auto
      moreover have "length (sent w) - length (received w) < 2 ^ k"
        using u(2) diff_le_mono2 [OF u(3), of "length (sent w)"] by (rule le_less_trans [rotated])
      ultimately show False using mod_distinct [OF release_spec(3) [OF inv i], of "2 ^ k"] u(1) by simp
    qed
  next
    assume "p_slot w = None"
    from reserve_spec(2) [OF inv this] k(1)
    show "p_slot (ring_step P_reserve w) = None \<longleftrightarrow> length (sent w) - length (received w) = unat entries" by simp
  next
    assume "c_slot w = None"
    then show "c_slot (ring_step C_peek w) = None \<longleftrightarrow> length (sent w) = length (received w)" by (rule peek_spec(2) [OF inv])
  qed
qed

theorem ring_is_fifo_witness:
  "let h = flipc2_init_header 32768 16 1; ch = flipc2_init_handle h;
       w = fold ring_step [P_reserve, P_write zero_desc, P_commit, C_peek, P_reserve, C_release] (ring_start h ch ch)
   in take (length (received w)) (sent w) = received w \<and> length (sent w) - length (received w) \<le> 16"
proof -
  have c: "flipc2_channel_create_ex True True 32768 16 1 =
      Inr (flipc2_init_header 32768 16 1, flipc2_init_handle (flipc2_init_header 32768 16 1))"
    by (simp add: flipc2_channel_create_ex_def is_power_of_2_def Let_def FLIPC2_CHANNEL_SIZE_MIN_def
        FLIPC2_CHANNEL_SIZE_MAX_def FLIPC2_RING_ENTRIES_MIN_def FLIPC2_RING_ENTRIES_MAX_def FLIPC2_DESC_SIZE_def
        FLIPC2_CREATE_ISOLATED_def FLIPC2_ISO_RING_OFFSET_def FLIPC2_CHANNEL_SIZE_MIN_ISOLATED_def)
  have a: "flipc2_channel_attach True (flipc2_init_header 32768 16 1) =
      Inr (flipc2_init_handle (flipc2_init_header 32768 16 1))"
    by (simp add: flipc2_channel_attach_def flipc2_init_header_def is_power_of_2_def Let_def
        FLIPC2_RING_ENTRIES_MIN_def FLIPC2_RING_ENTRIES_MAX_def FLIPC2_DESC_SIZE_def FLIPC2_LAYOUT_ISOLATED_def
        FLIPC2_CREATE_ISOLATED_def FLIPC2_ISO_RING_OFFSET_def FLIPC2_CHANNEL_SIZE_MIN_ISOLATED_def)
  have "unat (16 :: u32) = 16" by simp
  then show ?thesis
    using ring_is_fifo [OF c a, of "[P_reserve, P_write zero_desc, P_commit, C_peek, P_reserve, C_release]"]
    unfolding Let_def by (simp only:)
qed

end
