(* ===== verification/Flipc2_Bufgroup.thy ===== *)
theory Flipc2_Bufgroup
  imports Flipc2_Ring "HOL-Library.Multiset"
begin

text \<open>
  Buffer groups, \<^verbatim>\<open>include/flipc2.h\<close> and \<^verbatim>\<open>libflipc2/flipc2_bufgroup.c\<close>: a pool of equal slots in shared
  memory whose free slots form a stack threaded through an array, with a head that packs a
  slot index and a version and is changed by compare-and-swap only.  Any number of threads
  allocate and free; the steps are their accesses to shared memory.  The 64-bit head is read as two
  32-bit halves in either order, which is what a 32-bit processor does.  A store to the array
  is followed by a locked instruction of the same thread before anything else it reads, so
  store buffers make no difference.  The two unsynchronised statistics are left out.
\<close>

section \<open>The pool\<close>

definition FLIPC2_BUFGROUP_MAGIC :: u32 where "FLIPC2_BUFGROUP_MAGIC = 0x46425032"
definition FLIPC2_BUFGROUP_VERSION :: u32 where "FLIPC2_BUFGROUP_VERSION = 1"
definition FLIPC2_BUFGROUP_SLOT_NONE :: u32 where "FLIPC2_BUFGROUP_SLOT_NONE = 0xFFFFFFFF"
definition FLIPC2_BUFGROUP_HEADER_SIZE :: u32 where "FLIPC2_BUFGROUP_HEADER_SIZE = 64"
definition FLIPC2_BUFGROUP_SLOT_SIZE_MIN :: u32 where "FLIPC2_BUFGROUP_SLOT_SIZE_MIN = 64"
definition FLIPC2_BUFGROUP_SLOT_SIZE_MAX :: u32 where "FLIPC2_BUFGROUP_SLOT_SIZE_MAX = 65536"
definition FLIPC2_BUFGROUP_POOL_SIZE_MIN :: u32 where "FLIPC2_BUFGROUP_POOL_SIZE_MIN = 4096"
definition FLIPC2_BUFGROUP_POOL_SIZE_MAX :: u32 where "FLIPC2_BUFGROUP_POOL_SIZE_MAX = 16 * 1024 * 1024"

text \<open>\<open>bg_next\<close> is the array at \<open>bg_next_offset\<close>.\<close>

record flipc2_bufgroup_header =
  bg_magic :: u32
  bg_version :: u32
  bg_pool_size :: u32
  bg_slot_size :: u32
  bg_slot_count :: u32
  bg_next_offset :: u32
  bg_data_offset :: u32
  bg_slot_stride :: u32
  free_head :: u64
  bg_next :: "u32 list"

definition flipc2_bufgroup_head_index :: "u64 \<Rightarrow> u32" where
  "flipc2_bufgroup_head_index tagged = ucast (tagged AND 0xFFFFFFFF)"

definition flipc2_bufgroup_head_version :: "u64 \<Rightarrow> u32" where
  "flipc2_bufgroup_head_version tagged = ucast (drop_bit 32 tagged)"

definition flipc2_bufgroup_make_head :: "u32 \<Rightarrow> u32 \<Rightarrow> u64" where
  "flipc2_bufgroup_make_head index ver = push_bit 32 (ucast ver) OR ucast index"

definition flipc2_bufgroup_create :: "bool \<Rightarrow> bool \<Rightarrow> u32 \<Rightarrow> u32 \<Rightarrow> flipc2_return + flipc2_bufgroup_header" where
  "flipc2_bufgroup_create vm_mem vm_handle pool sz =
     (if sz < FLIPC2_BUFGROUP_SLOT_SIZE_MIN \<or> sz > FLIPC2_BUFGROUP_SLOT_SIZE_MAX then Inl FLIPC2_ERR_INVALID_ARGUMENT
      else if pool < FLIPC2_BUFGROUP_POOL_SIZE_MIN \<or> pool > FLIPC2_BUFGROUP_POOL_SIZE_MAX
      then Inl FLIPC2_ERR_INVALID_ARGUMENT
      else
        (let stride = (sz + 7) AND NOT 7;
             next_off = FLIPC2_BUFGROUP_HEADER_SIZE;
             count = pool div stride
         in if count = 0 then Inl FLIPC2_ERR_INVALID_ARGUMENT
            else
              (let next_size = count * 4;
                   data_off = (next_off + next_size + 7) AND NOT 7;
                   total = data_off + count * stride
               in if \<not> vm_mem then Inl FLIPC2_ERR_RESOURCE_SHORTAGE
                  else if \<not> vm_handle then Inl FLIPC2_ERR_RESOURCE_SHORTAGE
                  else Inr \<lparr>bg_magic = FLIPC2_BUFGROUP_MAGIC, bg_version = FLIPC2_BUFGROUP_VERSION,
                    bg_pool_size = total, bg_slot_size = sz, bg_slot_count = count, bg_next_offset = next_off,
                    bg_data_offset = data_off, bg_slot_stride = stride, free_head = flipc2_bufgroup_make_head 0 0,
                    bg_next = map (\<lambda>i. of_nat (i + 1)) [0..<unat count - 1] @ [FLIPC2_BUFGROUP_SLOT_NONE]\<rparr>)))"

definition flipc2_bufgroup_attach :: "bool \<Rightarrow> flipc2_bufgroup_header \<Rightarrow> flipc2_return + unit" where
  "flipc2_bufgroup_attach vm_handle h =
     (if bg_magic h \<noteq> FLIPC2_BUFGROUP_MAGIC \<or> bg_version h \<noteq> FLIPC2_BUFGROUP_VERSION then Inl FLIPC2_ERR_NOT_CONNECTED
      else if bg_slot_count h = 0 \<or> bg_slot_stride h = 0 then Inl FLIPC2_ERR_INVALID_ARGUMENT
      else if bg_next_offset h \<noteq> FLIPC2_BUFGROUP_HEADER_SIZE then Inl FLIPC2_ERR_INVALID_ARGUMENT
      else if \<not> vm_handle then Inl FLIPC2_ERR_RESOURCE_SHORTAGE
      else Inr ())"

definition flipc2_bufgroup_data_safe :: "flipc2_bufgroup_header \<Rightarrow> u64 \<Rightarrow> u64 \<Rightarrow> u64 option" where
  "flipc2_bufgroup_data_safe h off len =
     (let slot = ucast off div bg_slot_stride h
      in if slot \<ge> bg_slot_count h then None
         else if len > ucast (bg_slot_size h) then None
         else if off + len < off then None
         else Some off)"

section \<open>Threads\<close>

text \<open>
  Where a thread is in \<^verbatim>\<open>flipc2_bufgroup_alloc\<close> or \<^verbatim>\<open>flipc2_bufgroup_free\<close>: at the top of the loop, with one half of the head
  read (\<open>True\<close>: the low half), with the head read, and about to compare and swap.
\<close>

datatype bg_pc = Idle
  | A_top | A_half bool u32 | A_loaded u64 | A_cas u64 u32
  | F_top u32 | F_half u32 bool u32 | F_loaded u32 u64 | F_cas u32 u64

record bg_sys =
  bg_hdr :: flipc2_bufgroup_header
  bg_threads :: "bg_pc list"
  allocated :: "u64 list"

definition load_half :: "bool \<Rightarrow> flipc2_bufgroup_header \<Rightarrow> u32" where
  "load_half low h = (if low then flipc2_bufgroup_head_index (free_head h) else flipc2_bufgroup_head_version (free_head h))"

text \<open>The value a thread has once it reads the other half.\<close>

definition load_rest :: "bool \<Rightarrow> u32 \<Rightarrow> flipc2_bufgroup_header \<Rightarrow> u64" where
  "load_rest low v h =
     (if low then flipc2_bufgroup_make_head v (load_half False h) else flipc2_bufgroup_make_head (load_half True h) v)"

definition bg_at :: "nat \<Rightarrow> bg_pc \<Rightarrow> bg_sys \<Rightarrow> bg_sys" where
  "bg_at t p s = s\<lparr>bg_threads := (bg_threads s)[t := p]\<rparr>"

text \<open>One access of \<^verbatim>\<open>flipc2_bufgroup_alloc\<close>; \<open>low\<close> says which half is read first.\<close>

definition flipc2_bufgroup_alloc :: "bool \<Rightarrow> nat \<Rightarrow> bg_sys \<Rightarrow> bg_sys" where
  "flipc2_bufgroup_alloc low t s =
     (let h = bg_hdr s
      in case bg_threads s ! t of
           A_top \<Rightarrow> bg_at t (A_half low (load_half low h)) s
         | A_half l v \<Rightarrow> bg_at t (A_loaded (load_rest l v h)) s
         | A_loaded old_tagged \<Rightarrow>
             (let idx = flipc2_bufgroup_head_index old_tagged
              in if idx = FLIPC2_BUFGROUP_SLOT_NONE then bg_at t Idle s
                 else bg_at t (A_cas old_tagged (bg_next h ! unat idx)) s)
         | A_cas old_tagged next_idx \<Rightarrow>
             (let idx = flipc2_bufgroup_head_index old_tagged;
                  ver = flipc2_bufgroup_head_version old_tagged;
                  new_tagged = flipc2_bufgroup_make_head next_idx (ver + 1)
              in if free_head h = old_tagged
                 then (bg_at t Idle s)\<lparr>bg_hdr := h\<lparr>free_head := new_tagged\<rparr>,
                    allocated := ucast idx * ucast (bg_slot_stride h) # allocated s\<rparr>
                 else bg_at t A_top s)
         | _ \<Rightarrow> s)"

text \<open>One access of \<^verbatim>\<open>flipc2_bufgroup_free\<close>.\<close>

definition flipc2_bufgroup_free :: "bool \<Rightarrow> nat \<Rightarrow> bg_sys \<Rightarrow> bg_sys" where
  "flipc2_bufgroup_free low t s =
     (let h = bg_hdr s
      in case bg_threads s ! t of
           F_top slot \<Rightarrow> bg_at t (F_half slot low (load_half low h)) s
         | F_half slot l v \<Rightarrow> bg_at t (F_loaded slot (load_rest l v h)) s
         | F_loaded slot old_tagged \<Rightarrow>
             (bg_at t (F_cas slot old_tagged) s)\<lparr>bg_hdr :=
                h\<lparr>bg_next := (bg_next h)[unat slot := flipc2_bufgroup_head_index old_tagged]\<rparr>\<rparr>
         | F_cas slot old_tagged \<Rightarrow>
             (let ver = flipc2_bufgroup_head_version old_tagged;
                  new_tagged = flipc2_bufgroup_make_head slot (ver + 1)
              in if free_head h = old_tagged
                 then (bg_at t Idle s)\<lparr>bg_hdr := h\<lparr>free_head := new_tagged\<rparr>\<rparr>
                 else bg_at t (F_top slot) s)
         | _ \<Rightarrow> s)"

text \<open>The slot a thread is giving back.\<close>

fun freeing :: "bg_pc \<Rightarrow> nat list" where
  "freeing (F_top slot) = [unat slot]"
| "freeing (F_half slot l v) = [unat slot]"
| "freeing (F_loaded slot g) = [unat slot]"
| "freeing (F_cas slot g) = [unat slot]"
| "freeing _ = []"

text \<open>
  Threads call \<^verbatim>\<open>alloc\<close> when idle and \<^verbatim>\<open>free\<close> with an offset that is allocated, which passes to the call.
\<close>

datatype bg_label = Call_alloc nat | Call_free nat u64 | Run bool nat

fun bg_step :: "bg_label \<Rightarrow> bg_sys \<Rightarrow> bg_sys" where
  "bg_step (Call_alloc t) s =
     (if t < length (bg_threads s) \<and> bg_threads s ! t = Idle then bg_at t A_top s else s)"
| "bg_step (Call_free t off) s =
     (if t < length (bg_threads s) \<and> bg_threads s ! t = Idle \<and> off \<in> set (allocated s)
      then (bg_at t (F_top (ucast off div bg_slot_stride (bg_hdr s))) s)\<lparr>allocated := remove1 off (allocated s)\<rparr>
      else s)"
| "bg_step (Run low t) s =
     (if t \<ge> length (bg_threads s) then s
      else if freeing (bg_threads s ! t) = [] then flipc2_bufgroup_alloc low t s else flipc2_bufgroup_free low t s)"

definition bg_start :: "flipc2_bufgroup_header \<Rightarrow> nat \<Rightarrow> bg_sys" where
  "bg_start h n = \<lparr>bg_hdr = h, bg_threads = replicate n Idle, allocated = []\<rparr>"

section \<open>Vocabulary of the properties\<close>

text \<open>The free slots from index \<open>i\<close> on.\<close>

fun free_chain :: "u32 list \<Rightarrow> u32 \<Rightarrow> nat list \<Rightarrow> bool" where
  "free_chain nxt i [] = (i = FLIPC2_BUFGROUP_SLOT_NONE)"
| "free_chain nxt i (j # js) = (unat i = j \<and> j < length nxt \<and> i \<noteq> FLIPC2_BUFGROUP_SLOT_NONE \<and> free_chain nxt (nxt ! j) js)"

definition slot_of :: "flipc2_bufgroup_header \<Rightarrow> u64 \<Rightarrow> nat" where
  "slot_of h off = unat off div unat (bg_slot_stride h)"

text \<open>What a thread may believe about the head.\<close>

definition index_ok :: "flipc2_bufgroup_header \<Rightarrow> u32 \<Rightarrow> bool" where
  "index_ok h i \<longleftrightarrow> i = FLIPC2_BUFGROUP_SLOT_NONE \<or> unat i < length (bg_next h)"

definition version_ok :: "flipc2_bufgroup_header \<Rightarrow> u32 \<Rightarrow> bool" where
  "version_ok h v \<longleftrightarrow> v \<le> flipc2_bufgroup_head_version (free_head h)"

definition tagged_ok :: "flipc2_bufgroup_header \<Rightarrow> u64 \<Rightarrow> bool" where
  "tagged_ok h g \<longleftrightarrow> index_ok h (flipc2_bufgroup_head_index g) \<and> version_ok h (flipc2_bufgroup_head_version g)"

fun pc_ok :: "flipc2_bufgroup_header \<Rightarrow> bg_pc \<Rightarrow> bool" where
  "pc_ok h (A_half l v) = (if l then index_ok h v else version_ok h v)"
| "pc_ok h (A_loaded g) = tagged_ok h g"
| "pc_ok h (A_cas g n) = (tagged_ok h g \<and> flipc2_bufgroup_head_index g \<noteq> FLIPC2_BUFGROUP_SLOT_NONE \<and>
     (g = free_head h \<longrightarrow> n = bg_next h ! unat (flipc2_bufgroup_head_index g)))"
| "pc_ok h (F_half slot l v) = (if l then index_ok h v else version_ok h v)"
| "pc_ok h (F_loaded slot g) = tagged_ok h g"
| "pc_ok h (F_cas slot g) = (tagged_ok h g \<and> bg_next h ! unat slot = flipc2_bufgroup_head_index g)"
| "pc_ok h _ = True"

definition layout_ok :: "flipc2_bufgroup_header \<Rightarrow> bool" where
  "layout_ok h \<longleftrightarrow> length (bg_next h) = unat (bg_slot_count h) \<and> 0 < bg_slot_stride h \<and>
     bg_slot_size h \<le> bg_slot_stride h \<and>
     unat (bg_data_offset h) + unat (bg_slot_count h) * unat (bg_slot_stride h) \<le> unat (bg_pool_size h)"

definition bg_inv :: "nat \<Rightarrow> bg_sys \<Rightarrow> bool" where
  "bg_inv k s \<longleftrightarrow>
     (let h = bg_hdr s
      in layout_ok h \<and> unat (flipc2_bufgroup_head_version (free_head h)) \<le> k \<and>
         (\<forall>off \<in> set (allocated s). unat off = slot_of h off * unat (bg_slot_stride h)) \<and>
         (\<forall>p \<in> set (bg_threads s). pc_ok h p) \<and>
         (\<exists>fl. free_chain (bg_next h) (flipc2_bufgroup_head_index (free_head h)) fl \<and>
            mset (fl @ map (slot_of h) (allocated s) @ concat (map freeing (bg_threads s))) = mset [0..<length (bg_next h)]))"

text \<open>A pool of four slots, and two threads that race for the first of them.\<close>

definition small_pool :: flipc2_bufgroup_header where
  "small_pool = projr (flipc2_bufgroup_create True True 4096 1024)"

definition race :: "bg_label list" where
  "race = [Call_alloc 0, Call_alloc 1] @ replicate 3 (Run True 0) @ replicate 3 (Run False 1) @
     [Run True 0, Run True 1] @ replicate 4 (Run True 1)"

section \<open>Words\<close>

lemma unat_u32: "unat x < 2 ^ 32" for x :: u32
  using unsigned_less [of x] by simp

lemma unat_u32_up: "unat (ucast x :: u64) = unat x" for x :: u32
  using unat_u32 [of x] by (simp add: unsigned_ucast_eq take_bit_nat_eq_self)

lemma low_half_mask: "(0xFFFFFFFF :: u64) = mask 32"
  by (simp add: mask_eq_exp_minus_1)

lemma head_index_make [simp]: "flipc2_bufgroup_head_index (flipc2_bufgroup_make_head i v) = i"
  unfolding flipc2_bufgroup_head_index_def flipc2_bufgroup_make_head_def low_half_mask
  by (rule bit_word_eqI) (auto simp: bit_simps)

lemma head_version_make [simp]: "flipc2_bufgroup_head_version (flipc2_bufgroup_make_head i v) = v"
  unfolding flipc2_bufgroup_head_version_def flipc2_bufgroup_make_head_def
  by (rule bit_word_eqI) (auto simp: bit_simps dest: bit_imp_le_length)

text \<open>Rounding up to a multiple of eight.\<close>

lemma unat_and_not_7: "unat (y AND NOT 7) = 8 * (unat y div 8)" for y :: u32
proof -
  have m: "(7 :: u32) = mask 3" by (simp add: mask_eq_exp_minus_1)
  have "y AND NOT (mask 3) = push_bit 3 (drop_bit 3 y)"
    by (rule bit_word_eqI) (auto simp: bit_simps)
  then have "y AND NOT 7 = push_bit 3 (drop_bit 3 y)" unfolding m .
  then have "y AND NOT 7 = 8 * (y div 8)" by (simp add: push_bit_eq_mult drop_bit_eq_div mult.commute)
  moreover have "unat y < 2 ^ 32" by (rule unat_u32)
  then have "8 * (unat y div 8) < 2 ^ 32" by linarith
  ultimately show ?thesis by (simp add: unat_word_ariths unat_div)
qed

lemma round_up_8:
  fixes x :: u32
  assumes "unat x + 7 < 2 ^ 32"
  shows "unat x \<le> unat ((x + 7) AND NOT 7)" and "unat ((x + 7) AND NOT 7) \<le> unat x + 7"
proof -
  have "unat (x + 7) = unat x + 7" using assms by (simp add: unat_word_ariths)
  then show "unat x \<le> unat ((x + 7) AND NOT 7)" "unat ((x + 7) AND NOT 7) \<le> unat x + 7"
    unfolding unat_and_not_7 by linarith+
qed

section \<open>Lists\<close>

lemma concat_update:
  assumes "t < length ths"
  shows "mset (concat (map f (ths[t := p]))) + mset (f (ths ! t)) = mset (concat (map f ths)) + mset (f p)"
  using assms
proof (induction ths arbitrary: t)
  case (Cons a ths)
  then show ?case by (cases t) (auto simp: ac_simps)
qed simp

lemma ball_update: "\<forall>q \<in> set ths. P q \<Longrightarrow> P p \<Longrightarrow> \<forall>q \<in> set (ths[t := p]). P q"
  using set_update_subset_insert [of ths t p] by blast

lemma freeing_update:
  "t < length ths \<Longrightarrow> freeing p = freeing (ths ! t) \<Longrightarrow> map freeing (ths[t := p]) = map freeing ths"
  by (simp add: map_update) (metis length_map list_update_id nth_map)

lemma concat_nth_disjoint:
  assumes "distinct (concat xss)" "t < length xss" "u < length xss" "x \<in> set (xss ! t)" "x \<in> set (xss ! u)"
  shows "t = u"
  using assms
proof (induction xss arbitrary: t u)
  case (Cons a xss)
  then show ?case by (cases t; cases u) (auto, (meson disjoint_iff nth_mem UN_I)+)
qed simp

lemma free_chain_update: "j \<notin> set fl \<Longrightarrow> free_chain (nxt[j := x]) i fl = free_chain nxt i fl"
  by (induction fl arbitrary: i) auto

lemma free_chain_in: "free_chain nxt i fl \<Longrightarrow> i \<noteq> FLIPC2_BUFGROUP_SLOT_NONE \<Longrightarrow> unat i \<in> set fl"
  by (cases fl) auto

lemma free_chain_build:
  assumes "\<And>j. Suc j < n \<Longrightarrow> nxt ! j = of_nat (Suc j)" "nxt ! (n - 1) = FLIPC2_BUFGROUP_SLOT_NONE"
    "length nxt = n" "n < 2 ^ 32 - 1" "i < n"
  shows "free_chain nxt (of_nat i) [i..<n]"
  using assms(5)
proof (induction "n - i" arbitrary: i)
  case (Suc d)
  have u: "unat (of_nat i :: u32) = i" using Suc.prems assms(4) by (simp add: unat_of_nat)
  have ne: "(of_nat i :: u32) \<noteq> FLIPC2_BUFGROUP_SLOT_NONE"
  proof
    assume "(of_nat i :: u32) = FLIPC2_BUFGROUP_SLOT_NONE"
    then have "i = unat FLIPC2_BUFGROUP_SLOT_NONE" using u by simp
    then show False using Suc.prems assms(4) by (simp add: FLIPC2_BUFGROUP_SLOT_NONE_def)
  qed
  have c: "[i..<n] = i # [Suc i..<n]" using Suc.prems by (rule upt_conv_Cons)
  show ?case
  proof (cases "Suc i < n")
    case True
    then have "free_chain nxt (of_nat (Suc i)) [Suc i..<n]" using Suc.hyps(1) [of "Suc i"] Suc.hyps(2) by linarith
    then show ?thesis using assms(1) [OF True] u ne Suc.prems assms(3) unfolding c by simp
  next
    case False
    then have "i = n - 1" "[Suc i..<n] = []" using Suc.prems by auto
    then show ?thesis using assms(2,3) u ne Suc.prems unfolding c by simp
  qed
qed simp

section \<open>The invariant\<close>

lemmas bg_at_simps [simp] = bg_at_def

lemma bg_invE:
  assumes "bg_inv k s"
  obtains fl where "free_chain (bg_next (bg_hdr s)) (flipc2_bufgroup_head_index (free_head (bg_hdr s))) fl"
    "mset (fl @ map (slot_of (bg_hdr s)) (allocated s) @ concat (map freeing (bg_threads s)))
       = mset [0..<length (bg_next (bg_hdr s))]"
    "distinct (fl @ map (slot_of (bg_hdr s)) (allocated s) @ concat (map freeing (bg_threads s)))"
    "set (fl @ map (slot_of (bg_hdr s)) (allocated s) @ concat (map freeing (bg_threads s)))
       = {0..<length (bg_next (bg_hdr s))}"
proof -
  obtain fl where fl: "free_chain (bg_next (bg_hdr s)) (flipc2_bufgroup_head_index (free_head (bg_hdr s))) fl"
    "mset (fl @ map (slot_of (bg_hdr s)) (allocated s) @ concat (map freeing (bg_threads s)))
       = mset [0..<length (bg_next (bg_hdr s))]"
    using assms unfolding bg_inv_def Let_def by blast
  show thesis
    using that [OF fl] mset_eq_imp_distinct_iff [OF fl(2)] mset_eq_setD [OF fl(2)] by (simp add: atLeast0LessThan)
qed

lemma bg_invD:
  assumes "bg_inv k s"
  shows "layout_ok (bg_hdr s)" "unat (flipc2_bufgroup_head_version (free_head (bg_hdr s))) \<le> k"
    "off \<in> set (allocated s) \<Longrightarrow> unat off = slot_of (bg_hdr s) off * unat (bg_slot_stride (bg_hdr s))"
    "p \<in> set (bg_threads s) \<Longrightarrow> pc_ok (bg_hdr s) p"
  using assms by (simp_all add: bg_inv_def Let_def)

text \<open>A thread that moves on without touching the pool.\<close>

lemma bg_inv_at:
  assumes "bg_inv k s" "t < length (bg_threads s)" "pc_ok (bg_hdr s) p" "freeing p = freeing (bg_threads s ! t)" "k \<le> k'"
  shows "bg_inv k' (bg_at t p s)"
proof -
  have "map freeing ((bg_threads s)[t := p]) = map freeing (bg_threads s)"
    using assms(2,4) by (rule freeing_update)
  moreover have "\<forall>q \<in> set ((bg_threads s)[t := p]). pc_ok (bg_hdr s) q"
    using assms(3) bg_invD(4) [OF assms(1)] by (intro ball_update) blast+
  ultimately show ?thesis using assms(1,5) by (simp add: bg_inv_def Let_def)
qed

lemma head_ok:
  assumes "bg_inv k s"
  shows "index_ok (bg_hdr s) (flipc2_bufgroup_head_index (free_head (bg_hdr s)))"
    "version_ok (bg_hdr s) (flipc2_bufgroup_head_version (free_head (bg_hdr s)))"
proof -
  obtain fl where "free_chain (bg_next (bg_hdr s)) (flipc2_bufgroup_head_index (free_head (bg_hdr s))) fl"
    using bg_invE [OF assms] by blast
  then show "index_ok (bg_hdr s) (flipc2_bufgroup_head_index (free_head (bg_hdr s)))"
    by (cases fl) (auto simp: index_ok_def)
qed (simp add: version_ok_def)

lemma half_ok: "bg_inv k s \<Longrightarrow> if low then index_ok (bg_hdr s) (load_half low (bg_hdr s)) else version_ok (bg_hdr s) (load_half low (bg_hdr s))"
  using head_ok by (simp add: load_half_def)

lemma rest_ok:
  assumes "bg_inv k s" "if low then index_ok (bg_hdr s) v else version_ok (bg_hdr s) v"
  shows "tagged_ok (bg_hdr s) (load_rest low v (bg_hdr s))"
  using assms(2) head_ok [OF assms(1)] by (simp add: tagged_ok_def load_rest_def load_half_def split: if_splits)

text \<open>A new head invalidates what the other threads have read.\<close>

lemma pc_ok_new_head:
  assumes "pc_ok h p" "flipc2_bufgroup_head_version (free_head h) < flipc2_bufgroup_head_version g"
  shows "pc_ok (h\<lparr>free_head := g\<rparr>) p"
proof -
  have v: "version_ok h v \<Longrightarrow> version_ok (h\<lparr>free_head := g\<rparr>) v" for v
    using assms(2) by (simp add: version_ok_def)
  have i: "index_ok (h\<lparr>free_head := g\<rparr>) x = index_ok h x" for x by (simp add: index_ok_def)
  have "tagged_ok h g' \<Longrightarrow> tagged_ok (h\<lparr>free_head := g\<rparr>) g' \<and> g' \<noteq> g" for g'
    using v assms(2) by (auto simp: tagged_ok_def i version_ok_def)
  then show ?thesis using assms(1) v i by (cases p) (auto split: if_splits)
qed

lemma next_version:
  assumes "bg_inv k s" "k + 1 < 2 ^ 32" "v = flipc2_bufgroup_head_version (free_head (bg_hdr s))"
  shows "v < v + 1" "unat (v + 1) \<le> k + 1"
proof -
  have "unat v \<le> k" using bg_invD(2) [OF assms(1)] assms(3) by simp
  then have "unat (v + 1) = unat v + 1" using assms(2) by (simp add: unat_word_ariths)
  then show "v < v + 1" "unat (v + 1) \<le> k + 1" using \<open>unat v \<le> k\<close> by (simp_all add: word_less_nat_alt)
qed

lemma layout_ok_update [simp]:
  "layout_ok (h\<lparr>free_head := g\<rparr>) = layout_ok h" "layout_ok (h\<lparr>bg_next := xs[i := x]\<rparr>) = layout_ok (h\<lparr>bg_next := xs\<rparr>)"
  by (simp_all add: layout_ok_def)

lemma slot_of_update [simp]:
  "slot_of (h\<lparr>free_head := g\<rparr>) = slot_of h" "slot_of (h\<lparr>bg_next := xs\<rparr>) = slot_of h"
  by (simp_all add: slot_of_def fun_eq_iff)

text \<open>Offsets stay below the size of the pool.\<close>

lemma slot_offset:
  assumes "layout_ok h" "i < length (bg_next h)"
  shows "i * unat (bg_slot_stride h) < 2 ^ 32"
    "unat (bg_data_offset h) + i * unat (bg_slot_stride h) + unat (bg_slot_size h) \<le> unat (bg_pool_size h)"
proof -
  have "Suc i * unat (bg_slot_stride h) \<le> unat (bg_slot_count h) * unat (bg_slot_stride h)"
    using assms by (intro mult_le_mono1) (simp add: layout_ok_def)
  moreover have "unat (bg_slot_size h) \<le> unat (bg_slot_stride h)" "0 < unat (bg_slot_stride h)"
    using assms(1) by (simp_all add: layout_ok_def word_le_nat_alt word_less_nat_alt)
  moreover have "unat (bg_pool_size h) < 2 ^ 32" by (rule unat_u32)
  ultimately show "i * unat (bg_slot_stride h) < 2 ^ 32"
    "unat (bg_data_offset h) + i * unat (bg_slot_stride h) + unat (bg_slot_size h) \<le> unat (bg_pool_size h)"
    using assms(1) by (simp_all add: layout_ok_def)
qed

lemma slots_apart:
  assumes "layout_ok h" "unat a = slot_of h a * unat (bg_slot_stride h)" "unat b = slot_of h b * unat (bg_slot_stride h)" "a < b"
  shows "unat a + unat (bg_slot_size h) \<le> unat b"
proof -
  have "unat a < unat b" using assms(4) by (simp add: word_less_nat_alt)
  then have "slot_of h a < slot_of h b" using assms(2,3) by (metis mult_less_cancel2)
  then have "Suc (slot_of h a) * unat (bg_slot_stride h) \<le> slot_of h b * unat (bg_slot_stride h)" by (intro mult_le_mono1) simp
  moreover have "unat (bg_slot_size h) \<le> unat (bg_slot_stride h)" using assms(1) by (simp add: layout_ok_def word_le_nat_alt)
  ultimately show ?thesis using assms(2,3) by simp
qed

section \<open>Every step keeps the invariant\<close>

lemma alloc_cas_inv:
  assumes inv: "bg_inv k s" and k: "k + 1 < 2 ^ 32" and t: "t < length (bg_threads s)"
    and pc: "bg_threads s ! t = A_cas (free_head (bg_hdr s)) n"
  shows "bg_inv (k + 1) (flipc2_bufgroup_alloc low t s)"
proof -
  let ?h = "bg_hdr s" and ?g = "free_head (bg_hdr s)"
  let ?idx = "flipc2_bufgroup_head_index ?g" and ?ver = "flipc2_bufgroup_head_version ?g"
  let ?h' = "?h\<lparr>free_head := flipc2_bufgroup_make_head n (?ver + 1)\<rparr>"
  let ?off = "ucast ?idx * ucast (bg_slot_stride ?h) :: u64"
  have ok: "pc_ok ?h (A_cas ?g n)" using bg_invD(4) [OF inv, of "A_cas ?g n"] nth_mem [OF t] pc by simp
  obtain fl where fl: "free_chain (bg_next ?h) ?idx fl"
    "mset (fl @ map (slot_of ?h) (allocated s) @ concat (map freeing (bg_threads s))) = mset [0..<length (bg_next ?h)]"
    by (rule bg_invE [OF inv])
  obtain fl' where fl': "fl = unat ?idx # fl'" "unat ?idx < length (bg_next ?h)" "free_chain (bg_next ?h) n fl'"
    using fl(1) ok by (cases fl) auto
  have off: "unat ?off = unat ?idx * unat (bg_slot_stride ?h)"
    using slot_offset(1) [OF bg_invD(1) [OF inv] fl'(2)] by (simp add: unat_word_ariths unat_u32_up)
  have "0 < unat (bg_slot_stride ?h)" using bg_invD(1) [OF inv] by (simp add: layout_ok_def word_less_nat_alt)
  then have slot: "slot_of ?h ?off = unat ?idx" using off by (simp add: slot_of_def)
  have ths: "map freeing ((bg_threads s)[t := Idle]) = map freeing (bg_threads s)"
    using t pc by (simp add: freeing_update)
  have pcs: "\<forall>q \<in> set ((bg_threads s)[t := Idle]). pc_ok ?h' q"
    using bg_invD(4) [OF inv] next_version(1) [OF inv k refl] by (intro ball_update) (auto intro: pc_ok_new_head)
  have "flipc2_bufgroup_alloc low t s = (bg_at t Idle s)\<lparr>bg_hdr := ?h', allocated := ?off # allocated s\<rparr>"
    by (simp add: flipc2_bufgroup_alloc_def pc Let_def)
  then show ?thesis
    using bg_invD(1,3) [OF inv] next_version(2) [OF inv k refl] fl(2) fl'(1,3) off slot ths pcs
    by (auto simp: bg_inv_def Let_def intro!: exI [of _ fl'])
qed

lemma free_cas_inv:
  assumes inv: "bg_inv k s" and k: "k + 1 < 2 ^ 32" and t: "t < length (bg_threads s)"
    and pc: "bg_threads s ! t = F_cas slot (free_head (bg_hdr s))"
  shows "bg_inv (k + 1) (flipc2_bufgroup_free low t s)"
proof -
  let ?h = "bg_hdr s" and ?g = "free_head (bg_hdr s)"
  let ?ver = "flipc2_bufgroup_head_version ?g"
  let ?h' = "?h\<lparr>free_head := flipc2_bufgroup_make_head slot (?ver + 1)\<rparr>"
  have ok: "bg_next ?h ! unat slot = flipc2_bufgroup_head_index ?g"
    using bg_invD(4) [OF inv, of "F_cas slot ?g"] nth_mem [OF t] pc by simp
  obtain fl where fl: "free_chain (bg_next ?h) (flipc2_bufgroup_head_index ?g) fl"
    "mset (fl @ map (slot_of ?h) (allocated s) @ concat (map freeing (bg_threads s))) = mset [0..<length (bg_next ?h)]"
    "set (fl @ map (slot_of ?h) (allocated s) @ concat (map freeing (bg_threads s))) = {0..<length (bg_next ?h)}"
    by (rule bg_invE [OF inv])
  have "unat slot \<in> set (concat (map freeing (bg_threads s)))"
    using nth_mem [OF t] pc by (auto intro!: bexI [of _ "bg_threads s ! t"])
  then have lt: "unat slot < length (bg_next ?h)" using fl(3) by auto
  then have "unat slot < unat (bg_slot_count ?h)" using bg_invD(1) [OF inv] by (simp add: layout_ok_def)
  then have "slot \<noteq> FLIPC2_BUFGROUP_SLOT_NONE"
    using unat_u32 [of "bg_slot_count ?h"] by (auto simp: FLIPC2_BUFGROUP_SLOT_NONE_def)
  then have chain: "free_chain (bg_next ?h) slot (unat slot # fl)" using fl(1) ok lt by simp
  have ths: "mset (concat (map freeing ((bg_threads s)[t := Idle]))) + {#unat slot#} = mset (concat (map freeing (bg_threads s)))"
    using concat_update [OF t, of freeing Idle] pc by simp
  have all: "mset ((unat slot # fl) @ map (slot_of ?h) (allocated s) @ concat (map freeing ((bg_threads s)[t := Idle])))
      = mset [0..<length (bg_next ?h)]"
    unfolding fl(2) [symmetric] mset_append ths [symmetric] by (simp add: ac_simps)
  have pcs: "\<forall>q \<in> set ((bg_threads s)[t := Idle]). pc_ok ?h' q"
    using bg_invD(4) [OF inv] next_version(1) [OF inv k refl] by (intro ball_update) (auto intro: pc_ok_new_head)
  have "flipc2_bufgroup_free low t s = (bg_at t Idle s)\<lparr>bg_hdr := ?h'\<rparr>"
    by (simp add: flipc2_bufgroup_free_def pc Let_def)
  then show ?thesis
    using bg_invD(1,3) [OF inv] next_version(2) [OF inv k refl] pcs
    unfolding bg_inv_def Let_def by (intro conjI exI [of _ "unat slot # fl"]) (use chain all in simp_all)
qed

lemma pc_ok_store:
  assumes "pc_ok h q" "\<And>slot g. q = F_cas slot g \<Longrightarrow> unat slot \<noteq> i"
    "flipc2_bufgroup_head_index (free_head h) = FLIPC2_BUFGROUP_SLOT_NONE \<or> unat (flipc2_bufgroup_head_index (free_head h)) \<noteq> i"
  shows "pc_ok (h\<lparr>bg_next := (bg_next h)[i := x]\<rparr>) q"
proof -
  let ?h = "h\<lparr>bg_next := (bg_next h)[i := x]\<rparr>"
  have "index_ok ?h y = index_ok h y" "version_ok ?h v = version_ok h v" "tagged_ok ?h g = tagged_ok h g" for y v g
    by (simp_all add: index_ok_def version_ok_def tagged_ok_def)
  then show ?thesis using assms by (cases q) auto
qed

text \<open>Linking the slot that is given back to the head that was read.\<close>

lemma free_store_inv:
  assumes inv: "bg_inv k s" and t: "t < length (bg_threads s)" and pc: "bg_threads s ! t = F_loaded slot g"
  shows "bg_inv (k + 1) (flipc2_bufgroup_free low t s)"
proof -
  let ?h = "bg_hdr s" and ?ths = "bg_threads s"
  let ?i = "flipc2_bufgroup_head_index (free_head ?h)"
  let ?h' = "?h\<lparr>bg_next := (bg_next ?h)[unat slot := flipc2_bufgroup_head_index g]\<rparr>"
  have ok: "tagged_ok ?h g" using bg_invD(4) [OF inv, of "F_loaded slot g"] nth_mem [OF t] pc by simp
  obtain fl where fl: "free_chain (bg_next ?h) ?i fl"
    "mset (fl @ map (slot_of ?h) (allocated s) @ concat (map freeing ?ths)) = mset [0..<length (bg_next ?h)]"
    "distinct (fl @ map (slot_of ?h) (allocated s) @ concat (map freeing ?ths))"
    "set (fl @ map (slot_of ?h) (allocated s) @ concat (map freeing ?ths)) = {0..<length (bg_next ?h)}"
    by (rule bg_invE [OF inv])
  have mem: "unat slot \<in> set (concat (map freeing ?ths))"
    using nth_mem [OF t] pc by (auto intro!: bexI [of _ "?ths ! t"])
  then have lt: "unat slot < length (bg_next ?h)" and notin: "unat slot \<notin> set fl"
    using fl(3,4) by auto
  have head: "?i = FLIPC2_BUFGROUP_SLOT_NONE \<or> unat ?i \<noteq> unat slot" using free_chain_in [OF fl(1)] notin by metis
  have pcs: "\<forall>q \<in> set (?ths[t := F_cas slot g]). pc_ok ?h' q"
  proof
    fix q
    assume "q \<in> set (?ths[t := F_cas slot g])"
    then obtain u where u: "u < length ?ths" "q = ?ths[t := F_cas slot g] ! u" by (auto simp: in_set_conv_nth)
    show "pc_ok ?h' q"
    proof (cases "u = t")
      case True
      then show ?thesis using u ok lt by (simp add: tagged_ok_def index_ok_def version_ok_def)
    next
      case False
      then have q: "q = ?ths ! u" using u by simp
      have diff: "unat slot' \<noteq> unat slot" if "q = F_cas slot' g'" for slot' g'
      proof
        assume "unat slot' = unat slot"
        then have "freeing (?ths ! u) = [unat slot]" using q that by (metis freeing.simps(4))
        then show False
          using concat_nth_disjoint [of "map freeing ?ths" t u "unat slot"] fl(3) False u(1) t pc by simp
      qed
      have "pc_ok ?h q" using bg_invD(4) [OF inv, of q] q u(1) by simp
      then show ?thesis by (rule pc_ok_store) (use diff head in blast)+
    qed
  qed
  have ths: "map freeing (?ths[t := F_cas slot g]) = map freeing ?ths"
    using t pc by (simp add: freeing_update)
  have "flipc2_bufgroup_free low t s = (bg_at t (F_cas slot g) s)\<lparr>bg_hdr := ?h'\<rparr>"
    by (simp add: flipc2_bufgroup_free_def pc Let_def)
  then show ?thesis
    using bg_invD(1,2,3) [OF inv] pcs fl(1,2) free_chain_update [OF notin] ths
    by (auto simp: bg_inv_def Let_def layout_ok_def intro!: exI [of _ fl])
qed

lemma alloc_inv:
  assumes "bg_inv k s" "k + 1 < 2 ^ 32" "t < length (bg_threads s)"
  shows "bg_inv (k + 1) (flipc2_bufgroup_alloc low t s)"
proof -
  have ok: "pc_ok (bg_hdr s) (bg_threads s ! t)" using bg_invD(4) [OF assms(1)] nth_mem [OF assms(3)] by simp
  note at = bg_inv_at [OF assms(1,3), of _ "k + 1"]
  have same: "bg_inv (k + 1) s" using at [OF ok] by simp
  show ?thesis
  proof (cases "bg_threads s ! t")
    case A_top
    then show ?thesis using at [of "A_half low (load_half low (bg_hdr s))"] half_ok [OF assms(1)]
      by (simp add: flipc2_bufgroup_alloc_def)
  next
    case (A_half l v)
    then show ?thesis using at [of "A_loaded (load_rest l v (bg_hdr s))"] rest_ok [OF assms(1)] ok
      by (simp add: flipc2_bufgroup_alloc_def)
  next
    case (A_loaded g)
    then show ?thesis
      using at [of Idle] at [of "A_cas g (bg_next (bg_hdr s) ! unat (flipc2_bufgroup_head_index g))"] ok
      by (simp add: flipc2_bufgroup_alloc_def Let_def)
  next
    case (A_cas g n)
    show ?thesis
    proof (cases "free_head (bg_hdr s) = g")
      case True
      then show ?thesis using alloc_cas_inv [OF assms] A_cas by simp
    next
      case False
      then show ?thesis using at [of A_top] A_cas by (simp add: flipc2_bufgroup_alloc_def)
    qed
  qed (use same in \<open>simp_all add: flipc2_bufgroup_alloc_def\<close>)
qed

lemma free_inv:
  assumes "bg_inv k s" "k + 1 < 2 ^ 32" "t < length (bg_threads s)"
  shows "bg_inv (k + 1) (flipc2_bufgroup_free low t s)"
proof -
  have ok: "pc_ok (bg_hdr s) (bg_threads s ! t)" using bg_invD(4) [OF assms(1)] nth_mem [OF assms(3)] by simp
  note at = bg_inv_at [OF assms(1,3), of _ "k + 1"]
  have same: "bg_inv (k + 1) s" using at [OF ok] by simp
  show ?thesis
  proof (cases "bg_threads s ! t")
    case (F_top slot)
    then show ?thesis using at [of "F_half slot low (load_half low (bg_hdr s))"] half_ok [OF assms(1)]
      by (simp add: flipc2_bufgroup_free_def)
  next
    case (F_half slot l v)
    then show ?thesis using at [of "F_loaded slot (load_rest l v (bg_hdr s))"] rest_ok [OF assms(1)] ok
      by (simp add: flipc2_bufgroup_free_def)
  next
    case (F_loaded slot g)
    then show ?thesis by (rule free_store_inv [OF assms(1,3)])
  next
    case (F_cas slot g)
    show ?thesis
    proof (cases "free_head (bg_hdr s) = g")
      case True
      then show ?thesis using free_cas_inv [OF assms] F_cas by simp
    next
      case False
      then show ?thesis using at [of "F_top slot"] F_cas by (simp add: flipc2_bufgroup_free_def)
    qed
  qed (use same in \<open>simp_all add: flipc2_bufgroup_free_def\<close>)
qed

lemma call_free_inv:
  assumes inv: "bg_inv k s" and t: "t < length (bg_threads s)" "bg_threads s ! t = Idle" and off: "off \<in> set (allocated s)"
  shows "bg_inv (k + 1) (bg_step (Call_free t off) s)"
proof -
  let ?h = "bg_hdr s" and ?ths = "bg_threads s"
  let ?slot = "ucast off div bg_slot_stride ?h :: u32"
  obtain fl where fl: "free_chain (bg_next ?h) (flipc2_bufgroup_head_index (free_head ?h)) fl"
    "mset (fl @ map (slot_of ?h) (allocated s) @ concat (map freeing ?ths)) = mset [0..<length (bg_next ?h)]"
    "set (fl @ map (slot_of ?h) (allocated s) @ concat (map freeing ?ths)) = {0..<length (bg_next ?h)}"
    by (rule bg_invE [OF inv])
  have "slot_of ?h off < length (bg_next ?h)" using fl(3) off by auto
  then have "unat off < 2 ^ 32"
    using slot_offset(1) [OF bg_invD(1) [OF inv]] bg_invD(3) [OF inv off] by simp
  then have "unat (ucast off :: u32) = unat off" by (simp add: unsigned_ucast_eq take_bit_nat_eq_self)
  then have slot: "unat ?slot = slot_of ?h off" by (simp add: unat_div slot_of_def)
  have c: "mset (concat (map freeing (?ths[t := F_top ?slot]))) = mset (concat (map freeing ?ths)) + {#slot_of ?h off#}"
    using concat_update [OF t(1), of freeing "F_top ?slot"] t(2) slot by simp
  have "mset (off # remove1 off (allocated s)) = mset (allocated s)" using off by simp
  then have "mset (map (slot_of ?h) (off # remove1 off (allocated s))) = mset (map (slot_of ?h) (allocated s))"
    unfolding mset_map by (rule arg_cong)
  then have r: "mset (map (slot_of ?h) (allocated s)) = mset (map (slot_of ?h) (remove1 off (allocated s))) + {#slot_of ?h off#}"
    by (metis add_mset_add_single list.simps(9) mset.simps(2))
  have all: "mset (fl @ map (slot_of ?h) (remove1 off (allocated s)) @ concat (map freeing (?ths[t := F_top ?slot])))
      = mset [0..<length (bg_next ?h)]"
    unfolding fl(2) [symmetric] mset_append c r by (simp only: ac_simps)
  have pcs: "\<forall>q \<in> set (?ths[t := F_top ?slot]). pc_ok ?h q"
    using bg_invD(4) [OF inv] by (intro ball_update) auto
  have offs: "\<forall>a \<in> set (remove1 off (allocated s)). unat a = slot_of ?h a * unat (bg_slot_stride ?h)"
    using bg_invD(3) [OF inv] set_remove1_subset [of off "allocated s"] by blast
  have "bg_step (Call_free t off) s = (bg_at t (F_top ?slot) s)\<lparr>allocated := remove1 off (allocated s)\<rparr>"
    using t off by simp
  then show ?thesis
    using bg_invD(1,2) [OF inv] pcs offs unfolding bg_inv_def Let_def
    by (intro conjI exI [of _ fl]) (use fl(1) all in \<open>simp_all del: mset_append mset_map\<close>)
qed

lemma bg_step_inv:
  assumes "bg_inv k s" "k + 1 < 2 ^ 32"
  shows "bg_inv (k + 1) (bg_step l s)"
proof -
  have same: "bg_inv (k + 1) s" using assms(1) by (auto simp: bg_inv_def Let_def)
  show ?thesis
  proof (cases l)
    case (Call_alloc t)
    then show ?thesis using same bg_inv_at [OF assms(1), of t A_top "k + 1"] by simp
  next
    case (Call_free t off)
    then show ?thesis using same call_free_inv [OF assms(1), of t off] by (cases "bg_step l s = s") (auto split: if_splits)
  next
    case (Run low t)
    then show ?thesis using same alloc_inv [OF assms] free_inv [OF assms] by simp
  qed
qed

lemma bg_steps_inv:
  "bg_inv k s \<Longrightarrow> k + length ls < 2 ^ 32 \<Longrightarrow> bg_inv (k + length ls) (fold bg_step ls s)"
proof (induction ls arbitrary: k s)
  case (Cons l ls)
  then show ?case using Cons.IH [of "k + 1" "bg_step l s"] bg_step_inv [of k s l] by simp
qed simp

text \<open>Only the head and the array change.\<close>

lemma bg_step_hdr: "\<exists>g xs. bg_hdr (bg_step l s) = (bg_hdr s)\<lparr>free_head := g, bg_next := xs\<rparr>"
proof -
  have id: "\<exists>g xs. h = h\<lparr>free_head := g, bg_next := xs\<rparr>" for h :: flipc2_bufgroup_header
    by (rule exI [of _ "free_head h"], rule exI [of _ "bg_next h"]) simp
  have g: "\<exists>g' xs. h\<lparr>free_head := g\<rparr> = h\<lparr>free_head := g', bg_next := xs\<rparr>" for h :: flipc2_bufgroup_header and g
    by (rule exI [of _ g], rule exI [of _ "bg_next h"]) simp
  have n: "\<exists>g' xs. h\<lparr>bg_next := ys\<rparr> = h\<lparr>free_head := g', bg_next := xs\<rparr>" for h :: flipc2_bufgroup_header and ys
    by (rule exI [of _ "free_head h"], rule exI [of _ ys]) simp
  show ?thesis
    by (cases l) (simp_all add: id g n flipc2_bufgroup_alloc_def flipc2_bufgroup_free_def Let_def split: bg_pc.split)
qed

lemma bg_steps_hdr: "\<exists>g xs. bg_hdr (fold bg_step ls s) = (bg_hdr s)\<lparr>free_head := g, bg_next := xs\<rparr>"
proof (induction ls arbitrary: s)
  case Nil
  show ?case by (rule exI [of _ "free_head (bg_hdr s)"], rule exI [of _ "bg_next (bg_hdr s)"]) simp
next
  case (Cons l ls)
  obtain g xs g' xs' where "bg_hdr (bg_step l s) = (bg_hdr s)\<lparr>free_head := g, bg_next := xs\<rparr>"
    "bg_hdr (fold bg_step ls (bg_step l s)) = (bg_hdr (bg_step l s))\<lparr>free_head := g', bg_next := xs'\<rparr>"
    using bg_step_hdr [of l s] Cons.IH [of "bg_step l s"] by blast
  then have "bg_hdr (fold bg_step (l # ls) s) = (bg_hdr s)\<lparr>free_head := g', bg_next := xs'\<rparr>" by simp
  then show ?case by blast
qed

section \<open>A new pool\<close>

lemma create_layout:
  assumes "flipc2_bufgroup_create m v pool sz = Inr h"
  shows "layout_ok h" "unat (bg_slot_count h) < 2 ^ 32 - 1" "0 < unat (bg_slot_count h)" "bg_slot_size h = sz"
    "bg_next h = map (\<lambda>i. of_nat (i + 1)) [0..<unat (bg_slot_count h) - 1] @ [FLIPC2_BUFGROUP_SLOT_NONE]"
    "free_head h = flipc2_bufgroup_make_head 0 0"
proof -
  define stride where "stride = (sz + 7) AND NOT 7"
  define count where "count = pool div stride"
  define data_off where "data_off = (FLIPC2_BUFGROUP_HEADER_SIZE + count * 4 + 7) AND NOT 7"
  have b: "64 \<le> unat sz" "unat sz \<le> 65536" "unat pool \<le> 16777216" "count \<noteq> 0"
    and h: "bg_slot_size h = sz" "bg_slot_count h = count" "bg_slot_stride h = stride" "bg_data_offset h = data_off"
      "bg_pool_size h = data_off + count * stride"
      "bg_next h = map (\<lambda>i. of_nat (i + 1)) [0..<unat count - 1] @ [FLIPC2_BUFGROUP_SLOT_NONE]"
      "free_head h = flipc2_bufgroup_make_head 0 0"
    using assms
    by (auto simp: flipc2_bufgroup_create_def Let_def stride_def count_def data_off_def word_less_nat_alt not_less word_le_nat_alt
        FLIPC2_BUFGROUP_SLOT_SIZE_MIN_def FLIPC2_BUFGROUP_SLOT_SIZE_MAX_def FLIPC2_BUFGROUP_POOL_SIZE_MIN_def
        FLIPC2_BUFGROUP_POOL_SIZE_MAX_def split: if_splits)
  have s: "unat sz \<le> unat stride" "unat stride \<le> unat sz + 7"
    unfolding stride_def using round_up_8 [of sz] b(2) by simp_all
  have c: "unat count = unat pool div unat stride" by (simp add: count_def unat_div)
  have cs: "unat count * unat stride \<le> 16777216" unfolding c using b(3) by (meson div_times_less_eq_dividend le_trans)
  have "unat count * 64 \<le> unat count * unat stride" using s(1) b(1) by (intro mult_le_mono2) simp
  then have c64: "unat count \<le> 262144" using cs by linarith
  have "unat (FLIPC2_BUFGROUP_HEADER_SIZE + count * 4) = 64 + unat count * 4"
    using c64 by (simp add: FLIPC2_BUFGROUP_HEADER_SIZE_def unat_word_ariths)
  then have "unat data_off \<le> 71 + unat count * 4"
    unfolding data_off_def using round_up_8(2) [of "FLIPC2_BUFGROUP_HEADER_SIZE + count * 4"] c64 by simp
  then have "unat (data_off + count * stride) = unat data_off + unat count * unat stride"
    using cs c64 by (simp add: unat_word_ariths)
  moreover have "0 < unat count" using b(4) by (simp add: unat_gt_0)
  ultimately show "layout_ok h" "unat (bg_slot_count h) < 2 ^ 32 - 1" "0 < unat (bg_slot_count h)"
    using h s b(1) c64 by (auto simp: layout_ok_def word_le_nat_alt word_less_nat_alt)
qed (use assms in \<open>auto simp: flipc2_bufgroup_create_def Let_def split: if_splits\<close>)

lemma bg_inv_start:
  assumes "flipc2_bufgroup_create m v pool sz = Inr h"
  shows "bg_inv 0 (bg_start h n)"
proof -
  note c = create_layout [OF assms]
  let ?n = "unat (bg_slot_count h)"
  have len: "length (bg_next h) = ?n" using c(3,5) by simp
  have "free_chain (bg_next h) (of_nat 0) [0..<?n]"
    by (rule free_chain_build) (use c(2,3) len in \<open>auto simp: c(5) nth_append\<close>)
  then have "free_chain (bg_next h) 0 [0..<length (bg_next h)]" using len by simp
  then show ?thesis
    using c(1,6) by (auto simp: bg_inv_def bg_start_def Let_def intro!: exI [of _ "[0..<length (bg_next h)]"])
qed

section \<open>Property\<close>

text \<open>
  C40. Slots are handed out exclusively: as long as fewer than \<open>2 ^ 32\<close> steps are made (the version has 32
  bits), however the accesses of any number of threads interleave and even if the head is read in
  two halves, the buffers that are allocated at the same time are different, lie inside the
  pool and do not overlap, and when all calls have returned every other slot is on the free
  list.
\<close>

theorem bufgroup_slots_exclusive:
  assumes "flipc2_bufgroup_create m v pool sz = Inr h" "length ls < 2 ^ 32"
  shows "let s = fold bg_step ls (bg_start h n)
    in distinct (allocated s) \<and>
       (\<forall>a \<in> set (allocated s). unat (bg_data_offset h) + unat a + unat sz \<le> unat (bg_pool_size h)) \<and>
       (\<forall>a \<in> set (allocated s). \<forall>b \<in> set (allocated s). a < b \<longrightarrow> unat a + unat sz \<le> unat b) \<and>
       ((\<forall>p \<in> set (bg_threads s). p = Idle) \<longrightarrow>
          (\<exists>fl. free_chain (bg_next (bg_hdr s)) (flipc2_bufgroup_head_index (free_head (bg_hdr s))) fl \<and> distinct fl \<and>
             length fl + length (allocated s) = unat (bg_slot_count h)))"
proof -
  define s where "s = fold bg_step ls (bg_start h n)"
  have inv: "bg_inv (length ls) s"
    using bg_steps_inv [OF bg_inv_start [OF assms(1)], of ls n] assms(2) by (simp add: s_def)
  obtain g xs where "bg_hdr s = (bg_hdr (bg_start h n))\<lparr>free_head := g, bg_next := xs\<rparr>"
    using bg_steps_hdr [of ls "bg_start h n"] unfolding s_def by blast
  then have h: "bg_slot_size (bg_hdr s) = sz" "bg_data_offset (bg_hdr s) = bg_data_offset h"
    "bg_pool_size (bg_hdr s) = bg_pool_size h" "bg_slot_count (bg_hdr s) = bg_slot_count h"
    using create_layout(4) [OF assms(1)] by (simp_all add: bg_start_def)
  note lay = bg_invD(1) [OF inv]
  obtain fl where fl: "free_chain (bg_next (bg_hdr s)) (flipc2_bufgroup_head_index (free_head (bg_hdr s))) fl"
    "mset (fl @ map (slot_of (bg_hdr s)) (allocated s) @ concat (map freeing (bg_threads s)))
       = mset [0..<length (bg_next (bg_hdr s))]"
    "distinct (fl @ map (slot_of (bg_hdr s)) (allocated s) @ concat (map freeing (bg_threads s)))"
    "set (fl @ map (slot_of (bg_hdr s)) (allocated s) @ concat (map freeing (bg_threads s)))
       = {0..<length (bg_next (bg_hdr s))}"
    by (rule bg_invE [OF inv])
  have "distinct (allocated s)" using fl(3) by (simp add: distinct_map)
  moreover have "unat (bg_data_offset h) + unat a + unat sz \<le> unat (bg_pool_size h)" if "a \<in> set (allocated s)" for a
  proof -
    have "slot_of (bg_hdr s) a < length (bg_next (bg_hdr s))" using fl(4) that by auto
    then show ?thesis using slot_offset(2) [OF lay] bg_invD(3) [OF inv that] h by metis
  qed
  moreover have "unat a + unat sz \<le> unat b" if "a \<in> set (allocated s)" "b \<in> set (allocated s)" "a < b" for a b
    using slots_apart [OF lay bg_invD(3) [OF inv that(1)] bg_invD(3) [OF inv that(2)] that(3)] h(1) by simp
  moreover have "length fl + length (allocated s) = unat (bg_slot_count h)" if "\<forall>p \<in> set (bg_threads s). p = Idle"
  proof -
    have e: "concat (map freeing (bg_threads s)) = []" using that by auto
    have "length (fl @ map (slot_of (bg_hdr s)) (allocated s)) = length (bg_next (bg_hdr s))"
      using mset_eq_length [OF fl(2)] unfolding e by simp
    then show ?thesis using lay h(4) by (simp add: layout_ok_def)
  qed
  ultimately show ?thesis using fl(1,3) unfolding s_def [symmetric] Let_def by auto
qed

theorem bufgroup_slots_exclusive_witness:
  "let s = fold bg_step race (bg_start small_pool 2)
   in allocated s = [1024, 0] \<and> distinct (allocated s) \<and>
      (\<exists>fl. free_chain (bg_next (bg_hdr s)) (flipc2_bufgroup_head_index (free_head (bg_hdr s))) fl \<and> distinct fl \<and>
         length fl + length (allocated s) = 4)"
proof -
  let ?s = "fold bg_step race (bg_start small_pool 2)"
  have c: "flipc2_bufgroup_create True True 4096 1024 = Inr small_pool" by code_simp
  have n: "unat (bg_slot_count small_pool) = 4" by code_simp
  have l: "length race < 2 ^ 32" by (simp add: race_def)
  have a: "allocated ?s = [1024, 0]" by code_simp
  have t: "bg_threads ?s = [Idle, Idle]" by code_simp
  show ?thesis using bufgroup_slots_exclusive [OF c l, of 2] unfolding Let_def n a t by simp
qed

end
