(* ===== verification/Spec2Isabelle.thy ===== *)
theory Spec2Isabelle
  imports Ipc_Radix Proc_Sessions Sha256_Kat Mkmanifest Cap_Guarantees Flipc2_Wakeup Flipc2_Bufgroup
begin

text \<open>
  \<^bold>\<open>Uros.\<close>  Uros is an operating system built on the OSF Mach microkernel.  Services run as
  user-level servers: clients send them requests through ports, and the code that unpacks a
  request is generated from interface descriptions.  This development covers the parts that
  were written for Uros and that its security and process model rest on.

  \<^item> Capabilities.  The capability server (\<^verbatim>\<open>cap_server/\<close>) issues signed tokens, derives weaker
    ones from them, revokes them with everything derived from them and tells subscribers.
    Tokens are 188-byte records with an HMAC (\<^verbatim>\<open>uapi/mach/cap_types.h\<close>, \<^verbatim>\<open>mach_services/lib/libcap\<close>).
    The kernel (\<^verbatim>\<open>mach_kernel/kern/cap.c\<close>) gets the key from the server and checks tokens
    itself, with a table of its own for revocation and use counts.  What a task may ask for is
    declared in a manifest that \<^verbatim>\<open>tools/mkmanifest\<close> compiles and the server validates.
  \<^item> Processes.  The process server (\<^verbatim>\<open>proc_server/\<close>) gives tasks pids, reports their exit,
    delivers signals, keeps sessions and process groups, serves \<^verbatim>\<open>/proc\<close> and drains the system at
    shutdown.
  \<^item> Names.  Port names outside the dense table of an IPC space are kept in a radix tree
    (\<^verbatim>\<open>mach_kernel/ipc/ipc_radix.c\<close>).
  \<^item> Channels.  Trusted servers exchange descriptors through shared-memory rings
    (\<^verbatim>\<open>mach_services/include/flipc2.h\<close>, \<^verbatim>\<open>lib/libflipc2\<close>) and sleep on futexes
    (\<^verbatim>\<open>mach_kernel/kern/sync_sema.c\<close>).

  \<^bold>\<open>Theories.\<close>  Paths are relative to \<^verbatim>\<open>src/uros/src\<close>, unless they start with \<^verbatim>\<open>uapi\<close>.

  \<^item> \<^verbatim>\<open>Uros_Prelude\<close>: integer types, ports, shared lemmas and rule collections, and the interface
    \<^verbatim>\<open>id_store\<close> (entries found by identifier).
    \<^verbatim>\<open>Id_Table\<close>: chained hash tables, which provide \<^verbatim>\<open>id_store\<close> for the kernel's and the server's tables.
  \<^item> \<^verbatim>\<open>Sha256_Compress\<close>, \<^verbatim>\<open>Sha256\<close>, \<^verbatim>\<open>Sha256_Kat\<close>: \<^verbatim>\<open>sha256.c\<close>, \<^verbatim>\<open>sha256_shani.c\<close>, \<^verbatim>\<open>hmac_sha256.c\<close>.  The SHA-NI
    routine equals the C loop; the streaming interface and HMAC compute their definitions;
    the condition under which an update loses bytes.
  \<^item> \<^verbatim>\<open>Cap_Types\<close>: the token, its bytes, signing.  \<^verbatim>\<open>Cap_Kernel\<close>: the four traps as interleaved steps;
    use limits, finality of revocation, ownership of the key.
  \<^item> \<^verbatim>\<open>Cap_Manifest\<close>, \<^verbatim>\<open>Mkmanifest\<close>: \<^verbatim>\<open>cap_manifest_table.c\<close> and the compiler; the validator keeps every
    access inside the blob, the table refines a finite map, and the tool's output is accepted
    and means what the source declared.
  \<^item> \<^verbatim>\<open>Cap_Server\<close>: \<^verbatim>\<open>cap_table.c\<close> and \<^verbatim>\<open>cap_server.c\<close>, all handlers.  \<^verbatim>\<open>Cap_Server_Inv\<close>, \<^verbatim>\<open>Cap_Issue\<close>,
    \<^verbatim>\<open>Cap_Revoke\<close>, \<^verbatim>\<open>Cap_Notify\<close>: the invariant (tree of delegations, attenuation, signed bodies) and
    what each handler does to it.  \<^verbatim>\<open>Cap_System\<close>: reachable states, server and kernel together.
    \<^verbatim>\<open>Cap_Guarantees\<close>: the properties.  Verification accepts exactly live unforged tokens,
    delegation only weakens, revocation is permanent, the cascade is complete up to 17
    descendants and not beyond, every subscriber is told, every request is answered, and the
    tokens in the table are well typed.
  \<^item> \<^verbatim>\<open>Proc_Table\<close>, \<^verbatim>\<open>Proc_Server\<close>, \<^verbatim>\<open>Proc_Vfs\<close>: \<^verbatim>\<open>proc_main.c\<close>.  \<^verbatim>\<open>Proc_Table_Inv\<close> (integrity of the pid table),
    \<^verbatim>\<open>Proc_Exit\<close> (exit codes are reported, once), \<^verbatim>\<open>Proc_Signals\<close> (kill, killpg, stop and continue,
    shutdown order), \<^verbatim>\<open>Proc_Sessions\<close> (groups stay inside sessions).
  \<^item> \<^verbatim>\<open>Ipc_Radix\<close>: every function of the tree; it provides the interface \<^verbatim>\<open>index_map\<close> (a map
    with insertion and removal) and leaks no node.
  \<^item> \<^verbatim>\<open>Flipc2_Ring\<close>: channel creation, attachment and the ring; it is a bounded queue across counter
    wrap-around.  \<^verbatim>\<open>Flipc2_Wakeup\<close>: the sleep and wake handshake with store buffers; no wake-up is
    lost where the code has full fences, one can be where it has compiler barriers.
    \<^verbatim>\<open>Flipc2_Bufgroup\<close>: the pools of buffers that channels share; no two threads ever hold the same
    slot, as long as the 32-bit version of the head does not wrap.

  \<^bold>\<open>Modelling.\<close>  C structures are records, integers are words of their width, buffers are byte
  lists.  Operations are functions from state to state; error returns are values.  A server
  handles one request at a time, so a handler is one step; the kernel traps and the channel
  operations, which do run concurrently, are split where other threads can get in.  Calls to
  the kernel and to other servers are appended to a log and answered by a parameter on which
  the theorems put no condition unless they say so.  Generated request decoding is a datatype of
  requests.  Memory allocation succeeds or fails as a parameter says.  History variables
  (what was signed, sent or received) are written and never read by the code.  That tokens
  cannot be forged is a hypothesis where it is needed: a presented token whose HMAC checks
  has a body that was signed.

  \<^bold>\<open>Loops.\<close>  Loops are structural recursion or terminate by a measure, except the cascade of
  revocations and the walk that notifies, which are partial functions.  Both are proved to
  return in every reachable state, which is part of the property that every request is
  answered.  The retry loops around compare-and-swap are sequences of steps; that a given thread
  leaves one is not claimed, since others may always get in first.  No definition uses fuel.

  \<^bold>\<open>Not modelled.\<close>  Initialisation of the servers, port set-up and console output are I/O.  The
  rest of the kernel (message transfer, virtual memory, scheduling, devices), the drivers, file
  systems, libraries and MkLinux are outside: they depend on hardware or on reference counts
  and locks across the whole kernel.  Of the channels, the multi-producer ring, pollsets,
  endpoints, time-outs and wake-up thresholds are left out.  The concurrent readers of
  the radix tree rely on node memory that is never reused for something else; the model is
  of the writers.  The HMAC is computed, and its strength is not a matter of proof here.
\<close>

end
